(* ===== verification/Prelude.thy ===== *)
theory Prelude
  imports Main "HOL-Library.Word" "HOL-Library.Char_ord" "HOL-Library.List_Lexorder"
begin

text \<open>
  What every component of the model shares: the fixed width integers of
  core/aliasing.h, exceptions and undefined behaviour as values, the decimal
  text that \<^verbatim>\<open>std::format("{}")\<close> prints and \<^verbatim>\<open>std::from_chars\<close> reads, the
  searches of \<^verbatim>\<open>std::string_view\<close>, and the lemmas about them that the
  component theories use.
\<close>

text \<open>The value of concrete decimal text; and what the operations of a map do to its order and its lookups.\<close>

named_theorems eval_digits "the value of concrete decimal text"
named_theorems map_ops "order and lookups after an operation of a map"

section \<open>Integers\<close>

text \<open>
  Unsigned integers wrap around, so they are words. A signed i64 that
  overflows is undefined behaviour in C++, so it is an \<open>int\<close> together with
  \<open>in_i64\<close>, and the operations that can overflow return \<open>None\<close> when they do.
\<close>

type_synonym u8 = "8 word"
type_synonym u32 = "32 word"
type_synonym u64 = "64 word"
type_synonym i64 = int

definition i64_min :: int where "i64_min = - (2 ^ 63)"
definition i64_max :: int where "i64_max = 2 ^ 63 - 1"

definition in_i64 :: "int \<Rightarrow> bool" where
  "in_i64 i \<longleftrightarrow> i64_min \<le> i \<and> i \<le> i64_max"

lemmas i64_range = in_i64_def i64_min_def i64_max_def

definition i64_checked :: "int \<Rightarrow> i64 option" where
  "i64_checked i = (if in_i64 i then Some i else None)"

definition i64_add :: "i64 \<Rightarrow> i64 \<Rightarrow> i64 option" where
  "i64_add a b = i64_checked (a + b)"

definition i64_mul :: "i64 \<Rightarrow> i64 \<Rightarrow> i64 option" where
  "i64_mul a b = i64_checked (a * b)"

lemma i64_checked_Some [simp]: "i64_checked i = Some j \<longleftrightarrow> in_i64 i \<and> j = i"
  by (auto simp: i64_checked_def)

lemma i64_checked_in [simp]: "in_i64 i \<Longrightarrow> i64_checked i = Some i"
  by (simp add: i64_checked_def)

lemma in_i64_nonneg: "0 \<le> i \<Longrightarrow> in_i64 i \<longleftrightarrow> i < 2 ^ 63"
  by (auto simp: i64_range)

lemma in_i64_0 [simp]: "in_i64 0" and in_i64_1 [simp]: "in_i64 1"
  by (simp_all add: i64_range)

lemma unat_of_nat_u32: "n < 2 ^ 32 \<Longrightarrow> unat (of_nat n :: u32) = n"
  by (simp add: unat_of_nat)

lemma unat_of_nat_u64: "n < 2 ^ 64 \<Longrightarrow> unat (of_nat n :: u64) = n"
  by (simp add: unat_of_nat)

lemma unat_minus_of_nat: "n \<le> unat d \<Longrightarrow> unat (d - of_nat n) = unat d - n"
  by (simp add: unat_sub word_le_nat_alt le_unat_uoi)

section \<open>Exceptions\<close>

text \<open>
  The exceptions of the standard library the code throws, its own
  \<^verbatim>\<open>venue::UnknownSymbolError\<close>, and \<open>undefined_behaviour\<close> for the points where
  the C++ standard gives the program no meaning (a signed overflow).
\<close>

datatype exn =
    runtime_error string
  | logic_error string
  | invalid_argument string
  | length_error string
  | UnknownSymbolError string
  | undefined_behaviour

type_synonym 'a result = "exn + 'a"

text \<open>\<^verbatim>\<open>what()\<close>.\<close>

fun what :: "exn \<Rightarrow> string" where
  "what (runtime_error s) = s"
| "what (logic_error s) = s"
| "what (invalid_argument s) = s"
| "what (length_error s) = s"
| "what (UnknownSymbolError s) = s"
| "what undefined_behaviour = []"

definition bindR :: "'e + 'a \<Rightarrow> ('a \<Rightarrow> 'e + 'b) \<Rightarrow> 'e + 'b" where
  "bindR r f = (case r of Inl e \<Rightarrow> Inl e | Inr a \<Rightarrow> f a)"

lemma bindR_simps [simp]:
  "bindR (Inl e) f = Inl e"
  "bindR (Inr a) f = f a"
  by (simp_all add: bindR_def)

lemma bindR_Inr_iff: "bindR r f = Inr b \<longleftrightarrow> (\<exists>a. r = Inr a \<and> f a = Inr b)"
  by (cases r) auto

lemma bindR_Inl_iff: "bindR r f = Inl e \<longleftrightarrow> r = Inl e \<or> (\<exists>a. r = Inr a \<and> f a = Inl e)"
  by (cases r) auto

text \<open>A value whose absence is undefined behaviour.\<close>

definition defined_or_UB :: "'a option \<Rightarrow> 'a result" where
  "defined_or_UB v = (case v of None \<Rightarrow> Inl undefined_behaviour | Some a \<Rightarrow> Inr a)"

lemma defined_or_UB_simps [simp]:
  "defined_or_UB None = Inl undefined_behaviour"
  "defined_or_UB (Some a) = Inr a"
  by (simp_all add: defined_or_UB_def)

lemma defined_or_UB_Inr: "defined_or_UB v = Inr a \<longleftrightarrow> v = Some a"
  by (simp add: defined_or_UB_def split: option.split)


text \<open>A range transformed element by element, stopping at the first exception.\<close>

fun mapR :: "('a \<Rightarrow> 'e + 'b) \<Rightarrow> 'a list \<Rightarrow> 'e + 'b list" where
  "mapR f [] = Inr []"
| "mapR f (x # xs) = bindR (f x) (\<lambda>y. bindR (mapR f xs) (\<lambda>ys. Inr (y # ys)))"

lemma mapR_Inr_iff: "mapR f xs = Inr ys \<longleftrightarrow> list_all2 (\<lambda>x y. f x = Inr y) xs ys"
  by (induction xs arbitrary: ys) (auto simp: bindR_Inr_iff list_all2_Cons1)

lemma mapR_length: "mapR f xs = Inr ys \<Longrightarrow> length ys = length xs"
  by (auto simp: mapR_Inr_iff dest: list_all2_lengthD)

section \<open>Characters and searches in a string view\<close>

definition is_digit :: "char \<Rightarrow> bool" where
  "is_digit c \<longleftrightarrow> 48 \<le> (of_char c :: nat) \<and> (of_char c :: nat) \<le> 57"

definition digit_val :: "char \<Rightarrow> nat" where
  "digit_val c = of_char c - 48"

definition digit_char :: "nat \<Rightarrow> char" where
  "digit_char d = char_of (48 + d)"

lemma digit_val_char [simp]: "d < 10 \<Longrightarrow> digit_val (digit_char d) = d"
  by (simp add: digit_val_def digit_char_def of_char_of take_bit_eq_mod)

lemma is_digit_char [simp]: "d < 10 \<Longrightarrow> is_digit (digit_char d)"
  by (simp add: is_digit_def digit_char_def of_char_of take_bit_eq_mod)

lemma digit_char_val: "is_digit c \<Longrightarrow> digit_char (digit_val c) = c"
  by (simp add: digit_char_def digit_val_def is_digit_def)

lemma digit_val_less: "is_digit c \<Longrightarrow> digit_val c < 10"
  unfolding digit_val_def is_digit_def by linarith

lemma digit_char_0 [simp]: "digit_char 0 = CHR ''0''"
  unfolding digit_char_def by code_simp

lemma not_digit [simp]:
  "\<not> is_digit (CHR ''.'')" "\<not> is_digit (CHR ''-'')" "\<not> is_digit (CHR ''Z'')" "\<not> is_digit (CHR '':'')"
  "\<not> is_digit (CHR ''T'')"
  by (simp_all add: is_digit_def)

lemma is_digit_0 [simp]: "is_digit (CHR ''0'')" and digit_val_0 [simp]: "digit_val (CHR ''0'') = 0"
  by (simp_all add: is_digit_def digit_val_def)

text \<open>\<^verbatim>\<open>find(c)\<close> and \<^verbatim>\<open>find_last_not_of(c)\<close>; \<open>None\<close> is \<^verbatim>\<open>npos\<close>.\<close>

fun find_char :: "char \<Rightarrow> string \<Rightarrow> nat option" where
  "find_char c [] = None"
| "find_char c (x # xs) = (if x = c then Some 0 else map_option Suc (find_char c xs))"

fun find_last_not_of :: "char \<Rightarrow> string \<Rightarrow> nat option" where
  "find_last_not_of c [] = None"
| "find_last_not_of c (x # xs) =
     (case find_last_not_of c xs of
        Some i \<Rightarrow> Some (Suc i)
      | None \<Rightarrow> if x = c then None else Some 0)"

lemma find_char_None [simp]: "find_char c xs = None \<longleftrightarrow> c \<notin> set xs"
  by (induction xs) auto

lemma find_char_append: "c \<notin> set xs \<Longrightarrow> find_char c (xs @ c # ys) = Some (length xs)"
  by (induction xs) auto

lemma find_last_not_of_None: "find_last_not_of c xs = None \<longleftrightarrow> set xs \<subseteq> {c}"
  by (induction xs) (auto split: option.splits)

lemma find_last_not_of_append:
  "find_last_not_of c (xs @ ys) =
     (case find_last_not_of c ys of
        Some i \<Rightarrow> Some (length xs + i)
      | None \<Rightarrow> find_last_not_of c xs)"
  by (induction xs) (auto split: option.splits)

lemma find_last_not_of_Some:
  "find_last_not_of c xs = Some i \<Longrightarrow>
     i < length xs \<and> xs ! i \<noteq> c \<and> (\<forall>j. i < j \<longrightarrow> j < length xs \<longrightarrow> xs ! j = c)"
proof (induction xs arbitrary: i)
  case Nil
  then show ?case by simp
next
  case (Cons x xs)
  show ?case
  proof (cases "find_last_not_of c xs")
    case None
    then have "\<forall>j < length xs. xs ! j = c"
      by (auto simp: find_last_not_of_None dest!: nth_mem)
    with None Cons.prems show ?thesis
      by (auto split: if_splits simp: nth_Cons split: nat.splits)
  next
    case (Some k)
    with Cons.prems have "i = Suc k" by simp
    with Cons.IH [OF Some] show ?thesis
      by (auto simp: nth_Cons split: nat.splits)
  qed
qed

lemma replicate_numeral [simp]: "replicate (numeral n) x = x # replicate (pred_numeral n) x"
  by (simp add: numeral_eq_Suc)

section \<open>Decimal text\<close>

text \<open>\<^verbatim>\<open>std::format("{}", n)\<close> of an unsigned and of a signed integer.\<close>

fun nat_to_dec :: "nat \<Rightarrow> string" where
  "nat_to_dec n = (if n < 10 then [digit_char n] else nat_to_dec (n div 10) @ [digit_char (n mod 10)])"

declare nat_to_dec.simps [simp del]

definition int_to_dec :: "int \<Rightarrow> string" where
  "int_to_dec i = (if i < 0 then CHR ''-'' # nat_to_dec (nat (- i)) else nat_to_dec (nat i))"

text \<open>The number a run of decimal digits spells.\<close>

definition dec_value :: "string \<Rightarrow> nat" where
  "dec_value ds = foldl (\<lambda>a c. 10 * a + digit_val c) 0 ds"

lemma dec_value_Nil [simp]: "dec_value [] = 0"
  by (simp add: dec_value_def)

lemma dec_value_snoc [simp]: "dec_value (ds @ [c]) = 10 * dec_value ds + digit_val c"
  by (simp add: dec_value_def)

lemma dec_value_append: "dec_value (xs @ ys) = dec_value xs * 10 ^ length ys + dec_value ys"
proof (induction ys rule: rev_induct)
  case Nil
  show ?case by simp
next
  case (snoc y ys)
  have "dec_value (xs @ ys @ [y]) = 10 * dec_value (xs @ ys) + digit_val y"
    using dec_value_snoc [of "xs @ ys" y] by simp
  with snoc show ?case by (simp add: algebra_simps)
qed

lemma dec_value_Cons: "dec_value (c # ds) = digit_val c * 10 ^ length ds + dec_value ds"
  using dec_value_append [of "[c]" ds] by (simp add: dec_value_def)

lemma dec_value_less: "list_all is_digit ds \<Longrightarrow> dec_value ds < 10 ^ length ds"
proof (induction ds rule: rev_induct)
  case Nil
  show ?case by simp
next
  case (snoc c ds)
  then have "dec_value ds < 10 ^ length ds" and "digit_val c < 10"
    by (auto dest: digit_val_less)
  then show ?case by simp
qed

lemma dec_value_zeros [simp]: "dec_value (replicate n (CHR ''0'')) = 0"
  by (induction n) (simp_all add: dec_value_Cons)

lemma dec_value_nat_to_dec [simp]: "dec_value (nat_to_dec n) = n"
proof (induction n rule: nat_to_dec.induct)
  case (1 n)
  show ?case
  proof (cases "n < 10")
    case True
    then show ?thesis by (subst nat_to_dec.simps) (simp add: dec_value_def)
  next
    case False
    with 1 show ?thesis by (subst nat_to_dec.simps) simp
  qed
qed

lemma nat_to_dec_inj [simp]: "nat_to_dec m = nat_to_dec n \<longleftrightarrow> m = n"
  by (metis dec_value_nat_to_dec)

lemma nat_to_dec_digits: "list_all is_digit (nat_to_dec n)"
proof (induction n rule: nat_to_dec.induct)
  case (1 n)
  then show ?case by (subst nat_to_dec.simps) auto
qed

lemma nat_to_dec_nonempty [simp]: "nat_to_dec n \<noteq> []"
  by (subst nat_to_dec.simps) simp

lemma nat_to_dec_no_leading_zero: "0 < n \<Longrightarrow> hd (nat_to_dec n) \<noteq> CHR ''0''"
proof (induction n rule: nat_to_dec.induct)
  case (1 n)
  show ?case
  proof (cases "n < 10")
    case True
    with 1 have "digit_val (digit_char n) \<noteq> digit_val (CHR ''0'')" by simp
    then have "digit_char n \<noteq> CHR ''0''" by metis
    with True show ?thesis by (subst nat_to_dec.simps) simp
  next
    case False
    then have "0 < n div 10" by simp
    with False 1 show ?thesis by (subst nat_to_dec.simps) simp
  qed
qed

text \<open>A number's text is its digits without leading zeros.\<close>

lemma nat_to_dec_dec_value:
  assumes "list_all is_digit ds" and "ds \<noteq> []" and "hd ds \<noteq> CHR ''0''"
  shows "nat_to_dec (dec_value ds) = ds"
  using assms
proof (induction ds rule: rev_induct)
  case Nil
  then show ?case by simp
next
  case (snoc c ds)
  then have c: "is_digit c" "digit_val c < 10" by (auto dest: digit_val_less)
  show ?case
  proof (cases "ds = []")
    case True
    with c show ?thesis
      by (subst nat_to_dec.simps) (simp add: dec_value_def digit_char_val)
  next
    case False
    with snoc have IH: "nat_to_dec (dec_value ds) = ds" by simp
    have "0 < dec_value ds"
    proof (rule ccontr)
      assume "\<not> 0 < dec_value ds"
      with IH have "ds = [CHR ''0'']" by (simp add: nat_to_dec.simps)
      with snoc.prems(3) show False by simp
    qed
    with c IH show ?thesis
      by (subst nat_to_dec.simps) (simp add: digit_char_val)
  qed
qed

definition strip_zeros :: "string \<Rightarrow> string" where
  "strip_zeros ds = dropWhile (\<lambda>c. c = CHR ''0'') ds"

lemma dec_value_strip_zeros [simp]: "dec_value (strip_zeros ds) = dec_value ds"
  by (induction ds) (simp_all add: strip_zeros_def dec_value_Cons)

lemma nat_to_dec_strip_zeros:
  assumes "list_all is_digit ds" and "0 < dec_value ds"
  shows "nat_to_dec (dec_value ds) = strip_zeros ds"
proof -
  have "strip_zeros ds \<noteq> []"
    using assms(2) by (metis dec_value_strip_zeros dec_value_Nil less_irrefl)
  moreover from this have "hd (strip_zeros ds) \<noteq> CHR ''0''"
    using hd_dropWhile [of "\<lambda>c. c = CHR ''0''" ds] by (simp add: strip_zeros_def)
  moreover have "list_all is_digit (strip_zeros ds)"
    using assms(1) by (auto simp: strip_zeros_def list_all_iff dest: set_dropWhileD)
  ultimately have "nat_to_dec (dec_value (strip_zeros ds)) = strip_zeros ds"
    by (intro nat_to_dec_dec_value)
  then show ?thesis by simp
qed

section \<open>\<^verbatim>\<open>std::from_chars\<close>\<close>

text \<open>
  The integer overload in base 10: an optional minus sign for a signed type,
  then the longest run of digits. No digits is \<open>invalid_arg\<close> with the pointer
  at the start, a value out of the type's range \<open>result_out_of_range\<close> with the
  pointer past the digits; the target keeps its old value in both cases.
\<close>

datatype errc = no_error | invalid_arg | result_out_of_range

record from_chars_result =
  fc_value :: int
  fc_ptr :: nat
  fc_ec :: errc

definition from_chars :: "bool \<Rightarrow> int \<Rightarrow> int \<Rightarrow> string \<Rightarrow> int \<Rightarrow> from_chars_result" where
  "from_chars is_signed lo hi text old =
     (let neg = (is_signed \<and> text \<noteq> [] \<and> hd text = CHR ''-'');
          ds = takeWhile is_digit (if neg then tl text else text);
          n = (if neg then - int (dec_value ds) else int (dec_value ds));
          end_ptr = (if neg then Suc (length ds) else length ds)
      in if ds = [] then \<lparr>fc_value = old, fc_ptr = 0, fc_ec = invalid_arg\<rparr>
         else if lo \<le> n \<and> n \<le> hi then \<lparr>fc_value = n, fc_ptr = end_ptr, fc_ec = no_error\<rparr>
         else \<lparr>fc_value = old, fc_ptr = end_ptr, fc_ec = result_out_of_range\<rparr>)"

definition from_chars_i64 :: "string \<Rightarrow> i64 \<Rightarrow> from_chars_result" where
  "from_chars_i64 = from_chars True i64_min i64_max"

definition from_chars_u32 :: "string \<Rightarrow> int \<Rightarrow> from_chars_result" where
  "from_chars_u32 = from_chars False 0 (2 ^ 32 - 1)"

definition from_chars_u64 :: "string \<Rightarrow> int \<Rightarrow> from_chars_result" where
  "from_chars_u64 = from_chars False 0 (2 ^ 64 - 1)"

lemma takeWhile_digits_all [simp]: "list_all is_digit ds \<Longrightarrow> takeWhile is_digit ds = ds"
  by (simp add: list_all_iff takeWhile_eq_all_conv)

lemma from_chars_digits:
  assumes "list_all is_digit ds" and "ds \<noteq> []" and "lo \<le> 0" and "int (dec_value ds) \<le> hi"
  shows "from_chars sg lo hi ds old =
           \<lparr>fc_value = int (dec_value ds), fc_ptr = length ds, fc_ec = no_error\<rparr>"
proof -
  have "hd ds \<noteq> CHR ''-''"
    using assms(1,2) by (cases ds) auto
  with assms show ?thesis by (simp add: from_chars_def Let_def)
qed

lemma from_chars_i64_digits [simp]:
  assumes "list_all is_digit ds" and "ds \<noteq> []" and "dec_value ds < 2 ^ 63"
  shows "from_chars_i64 ds old = \<lparr>fc_value = int (dec_value ds), fc_ptr = length ds, fc_ec = no_error\<rparr>"
  unfolding from_chars_i64_def using assms
  by (intro from_chars_digits) (auto simp: i64_range)

text \<open>What a number was printed as reads back.\<close>

lemma from_chars_u32_dec [simp]:
  "n < 2 ^ 32 \<Longrightarrow>
     from_chars_u32 (nat_to_dec n) old = \<lparr>fc_value = int n, fc_ptr = length (nat_to_dec n), fc_ec = no_error\<rparr>"
  unfolding from_chars_u32_def by (subst from_chars_digits) (auto simp: nat_to_dec_digits)

lemma from_chars_u64_dec [simp]:
  "n < 2 ^ 64 \<Longrightarrow>
     from_chars_u64 (nat_to_dec n) old = \<lparr>fc_value = int n, fc_ptr = length (nat_to_dec n), fc_ec = no_error\<rparr>"
  unfolding from_chars_u64_def by (subst from_chars_digits) (auto simp: nat_to_dec_digits)

end
