(* ===== verification/Decimal.thy ===== *)
theory Decimal
  imports Prelude
begin

text \<open>
  core/decimal.cc: fixed-point decimal text scaled to an integer without a
  round trip through a double, and the number of fraction digits a text needs.
  Every multiplication and addition of the code is an i64 operation, whose
  overflow is undefined behaviour; \<open>None\<close> stands for it here.
\<close>

section \<open>The code\<close>

fun Pow10_loop :: "nat \<Rightarrow> i64 \<Rightarrow> i64 option" where
  "Pow10_loop 0 acc = Some acc"
| "Pow10_loop (Suc k) acc =
     (case i64_mul acc 10 of None \<Rightarrow> None | Some acc' \<Rightarrow> Pow10_loop k acc')"

definition Pow10 :: "u32 \<Rightarrow> i64 option" where
  "Pow10 exponent = Pow10_loop (unat exponent) 1"

definition ScaleDecimalStringToI64 :: "string \<Rightarrow> u32 \<Rightarrow> i64 option" where
  "ScaleDecimalStringToI64 text decimals =
     (let dot = find_char (CHR ''.'') text;
          integer_part = (case dot of None \<Rightarrow> text | Some d \<Rightarrow> take d text);
          fraction_part = (case dot of None \<Rightarrow> [] | Some d \<Rightarrow> drop (d + 1) text);
          integer_value = fc_value (from_chars_i64 integer_part 0);
          digits_used = min (length fraction_part) (unat decimals);
          fraction_value =
            (if digits_used > 0 then fc_value (from_chars_i64 (take digits_used fraction_part) 0) else 0)
      in case Pow10 decimals of None \<Rightarrow> None
         | Some scale \<Rightarrow>
           (case i64_mul integer_value scale of None \<Rightarrow> None
            | Some whole \<Rightarrow>
              (case Pow10 (decimals - of_nat digits_used) of None \<Rightarrow> None
               | Some pad \<Rightarrow>
                 (case i64_mul fraction_value pad of None \<Rightarrow> None
                  | Some fraction \<Rightarrow> i64_add whole fraction))))"

definition FractionDigits :: "string \<Rightarrow> u32" where
  "FractionDigits text =
     (case find_char (CHR ''.'') text of
        None \<Rightarrow> 0
      | Some dot \<Rightarrow>
          (case find_last_not_of (CHR ''0'') text of
             None \<Rightarrow> 0  \<comment> \<open>unreachable: the dot is not a zero\<close>
           | Some last_digit \<Rightarrow> if last_digit \<le> dot then 0 else of_nat (last_digit - dot)))"

text \<open>Whatever the text, a value that is returned is an i64.\<close>

lemma ScaleDecimal_in_i64: "ScaleDecimalStringToI64 str decimals = Some v \<Longrightarrow> in_i64 v"
  by (auto simp: ScaleDecimalStringToI64_def Let_def i64_add_def split: option.splits)

section \<open>Pow10\<close>

lemma i64_mul_nonneg: "0 \<le> a \<Longrightarrow> 0 \<le> b \<Longrightarrow> a * b < 2 ^ 63 \<Longrightarrow> i64_mul a b = Some (a * b)"
  by (simp add: i64_mul_def in_i64_nonneg)

lemma i64_add_nonneg: "0 \<le> a \<Longrightarrow> 0 \<le> b \<Longrightarrow> a + b < 2 ^ 63 \<Longrightarrow> i64_add a b = Some (a + b)"
  by (simp add: i64_add_def in_i64_nonneg)

lemma Pow10_loop_eq:
  "0 < acc \<Longrightarrow> acc * 10 ^ k < 2 ^ 63 \<Longrightarrow> Pow10_loop k acc = Some (acc * 10 ^ k)"
proof (induction k arbitrary: acc)
  case 0
  then show ?case by simp
next
  case (Suc k)
  have "acc * 10 * 1 \<le> acc * 10 * 10 ^ k"
    using Suc.prems(1) by (intro mult_left_mono) simp_all
  also have "\<dots> < 2 ^ 63" using Suc.prems(2) by (simp only: power_Suc mult.assoc)
  finally have "acc * 10 < 2 ^ 63" by simp
  with Suc.prems(1) have "i64_mul acc 10 = Some (acc * 10)"
    by (intro i64_mul_nonneg) simp_all
  with Suc show ?case by (simp add: mult.assoc)
qed

lemma Pow10_loop_overflow:
  "0 < acc \<Longrightarrow> in_i64 acc \<Longrightarrow> 2 ^ 63 \<le> acc * 10 ^ k \<Longrightarrow> Pow10_loop k acc = None"
proof (induction k arbitrary: acc)
  case 0
  then show ?case by (simp add: in_i64_nonneg)
next
  case (Suc k)
  then show ?case
    by (auto simp: i64_mul_def mult.assoc split: option.splits)
qed

lemma Pow10_small: "unat d \<le> 18 \<Longrightarrow> Pow10 d = Some (10 ^ unat d)"
  unfolding Pow10_def
  using power_increasing [of "unat d" 18 "10 :: int"] by (subst Pow10_loop_eq) simp_all

lemma Pow10_large: "18 < unat d \<Longrightarrow> Pow10 d = None"
  unfolding Pow10_def
  using power_increasing [of 19 "unat d" "10 :: int"] by (intro Pow10_loop_overflow) simp_all

section \<open>Scaling\<close>

text \<open>
  The contract of the header: the digits before the point followed by exactly
  \<open>decimals\<close> fraction digits, padded with zeros or cut off, read as one number.
\<close>

definition fixed_digits :: "nat \<Rightarrow> string \<Rightarrow> string" where
  "fixed_digits n fs = take n (fs @ replicate n (CHR ''0''))"

lemma fixed_digits_length [simp]: "length (fixed_digits n fs) = n"
  by (simp add: fixed_digits_def)

lemma fixed_digits_exact: "length fs = n \<Longrightarrow> fixed_digits n fs = fs"
  by (simp add: fixed_digits_def)

lemma fixed_digits_digits: "list_all is_digit fs \<Longrightarrow> list_all is_digit (fixed_digits n fs)"
  by (auto simp: fixed_digits_def list_all_iff dest: in_set_takeD)

definition scaled_value :: "string \<Rightarrow> string \<Rightarrow> nat \<Rightarrow> nat" where
  "scaled_value ws fs n = dec_value (ws @ fixed_digits n fs)"

lemma scaled_value_split:
  "scaled_value ws fs n = dec_value ws * 10 ^ n + dec_value (fixed_digits n fs)"
  by (simp add: scaled_value_def dec_value_append)

declare dec_value_def [eval_digits] digit_val_def [eval_digits] fixed_digits_def [eval_digits]

lemma dec_value_fixed_digits:
  "dec_value (fixed_digits n fs) =
     dec_value (take (min (length fs) n) fs) * 10 ^ (n - min (length fs) n)"
  by (auto simp: fixed_digits_def dec_value_append min_def)

lemma ScaleDecimal_from_values:
  assumes whole: "(case find_char (CHR ''.'') str of None \<Rightarrow> str | Some k \<Rightarrow> take k str) = ws"
    and fraction: "(case find_char (CHR ''.'') str of None \<Rightarrow> [] | Some k \<Rightarrow> drop (k + 1) str) = fs"
    and digits: "list_all is_digit fs" and small: "unat d \<le> 18"
    and iv: "fc_value (from_chars_i64 ws 0) = iv"
    and bound: "\<bar>iv\<bar> * 10 ^ unat d + int (dec_value (fixed_digits (unat d) fs)) < 2 ^ 63"
  shows "ScaleDecimalStringToI64 str d =
           Some (iv * 10 ^ unat d + int (dec_value (fixed_digits (unat d) fs)))"
proof -
  let ?n = "unat d" and ?u = "min (length fs) (unat d)"
  define f where "f = dec_value (take ?u fs)"
  define A where "A = iv * 10 ^ ?n"
  define B where "B = int f * 10 ^ (?n - ?u)"
  have B: "int (dec_value (fixed_digits ?n fs)) = B"
    by (simp add: dec_value_fixed_digits B_def f_def)
  have abs: "\<bar>A\<bar> + B < 2 ^ 63" and "0 \<le> B" using bound B by (simp_all add: A_def B_def abs_mult)
  have "int f * 1 \<le> B" unfolding B_def by (intro mult_left_mono) simp_all
  with abs have "int f < 2 ^ 63" by linarith
  then have "f < 2 ^ 63" by simp
  moreover have "list_all is_digit (take ?u fs)"
    using digits by (auto simp: list_all_iff dest: in_set_takeD)
  ultimately have fv: "(if 0 < ?u then fc_value (from_chars_i64 (take ?u fs) 0) else 0) = int f"
    unfolding f_def by auto
  have pad: "Pow10 (d - of_nat ?u) = Some (10 ^ (?n - ?u))"
    using small by (subst Pow10_small) (simp_all add: unat_minus_of_nat)
  have "in_i64 A" "in_i64 B" "in_i64 (A + B)" using abs \<open>0 \<le> B\<close> unfolding i64_range by linarith+
  then show ?thesis
    unfolding ScaleDecimalStringToI64_def Let_def whole fraction iv fv pad Pow10_small [OF small]
      option.case B
    by (simp add: i64_mul_def i64_add_def flip: A_def B_def)
qed

lemma ScaleDecimal_parts:
  assumes "list_all is_digit ws" and "ws \<noteq> []" and "list_all is_digit fs"
    and "unat d \<le> 18" and "scaled_value ws fs (unat d) < 2 ^ 63"
    and shape: "str = ws @ CHR ''.'' # fs \<or> str = ws \<and> fs = []"
  shows "ScaleDecimalStringToI64 str d = Some (int (scaled_value ws fs (unat d)))"
proof -
  have nodot: "CHR ''.'' \<notin> set ws" using assms(1) by (auto simp: list_all_iff)
  have "dec_value ws * 1 \<le> dec_value ws * 10 ^ unat d" by (intro mult_left_mono) simp_all
  with assms(5) have "dec_value ws < 2 ^ 63" unfolding scaled_value_split by linarith
  moreover have "int (scaled_value ws fs (unat d)) < 2 ^ 63" using assms(5) by simp
  ultimately have "ScaleDecimalStringToI64 str d =
      Some (int (dec_value ws) * 10 ^ unat d + int (dec_value (fixed_digits (unat d) fs)))"
    using shape assms nodot find_char_None [of "CHR ''.''" ws]
    by (intro ScaleDecimal_from_values [of str ws fs])
      (auto simp: find_char_append scaled_value_split simp del: find_char_None)
  then show ?thesis by (simp add: scaled_value_split)
qed

lemma ScaleDecimal_negative_parts:
  assumes "list_all is_digit ws" and "ws \<noteq> []" and "list_all is_digit fs"
    and "unat d \<le> 18" and "scaled_value ws fs (unat d) < 2 ^ 63"
  shows "ScaleDecimalStringToI64 (CHR ''-'' # ws @ CHR ''.'' # fs) d =
           Some (- int (dec_value ws * 10 ^ unat d) + int (dec_value (fixed_digits (unat d) fs)))"
proof -
  have nodot: "CHR ''.'' \<notin> set (CHR ''-'' # ws)" using assms(1) by (auto simp: list_all_iff)
  have "dec_value ws * 1 \<le> dec_value ws * 10 ^ unat d" by (intro mult_left_mono) simp_all
  with assms(5) have "dec_value ws < 2 ^ 63" unfolding scaled_value_split by linarith
  then have "fc_value (from_chars_i64 (CHR ''-'' # ws) 0) = - int (dec_value ws)"
    using assms(1,2) by (simp add: from_chars_i64_def from_chars_def i64_range)
  moreover have "int (scaled_value ws fs (unat d)) < 2 ^ 63" using assms(5) by simp
  ultimately have "ScaleDecimalStringToI64 ((CHR ''-'' # ws) @ CHR ''.'' # fs) d =
      Some (- int (dec_value ws) * 10 ^ unat d + int (dec_value (fixed_digits (unat d) fs)))"
    using assms(3,4)
    by (intro ScaleDecimal_from_values [of _ "CHR ''-'' # ws"])
      (simp_all add: find_char_append [OF nodot] scaled_value_split del: append_Cons)
  then show ?thesis by simp
qed

section \<open>Fraction digits\<close>

lemma dec_value_eq_0: "list_all is_digit ds \<Longrightarrow> dec_value ds = 0 \<longleftrightarrow> set ds \<subseteq> {CHR ''0''}"
proof (induction ds rule: rev_induct)
  case (snoc c ds)
  have "is_digit c \<Longrightarrow> digit_val c = 0 \<longleftrightarrow> c = CHR ''0''"
    by (metis digit_char_0 digit_char_val digit_val_0)
  with snoc show ?case by auto
qed simp

lemma FractionDigits_no_dot: "CHR ''.'' \<notin> set str \<Longrightarrow> FractionDigits str = 0"
  by (simp add: FractionDigits_def find_char_None [THEN iffD2])

lemma FractionDigits_le_iff:
  assumes "CHR ''.'' \<notin> set ws" and "length fs < 2 ^ 32"
  shows "unat (FractionDigits (ws @ CHR ''.'' # fs)) \<le> n \<longleftrightarrow> set (drop n fs) \<subseteq> {CHR ''0''}"
proof -
  let ?t = "ws @ CHR ''.'' # fs"
  have dot: "find_char (CHR ''.'') ?t = Some (length ws)"
    using assms(1) by (rule find_char_append)
  have last: "find_last_not_of (CHR ''0'') ?t =
      (case find_last_not_of (CHR ''0'') fs of Some i \<Rightarrow> Some (Suc (length ws) + i)
       | None \<Rightarrow> Some (length ws))"
    by (simp add: find_last_not_of_append split: option.splits)
  show ?thesis
  proof (cases "find_last_not_of (CHR ''0'') fs")
    case None
    then have "set fs \<subseteq> {CHR ''0''}" by (simp add: find_last_not_of_None)
    then have "set (drop n fs) \<subseteq> {CHR ''0''}" by (meson order_trans set_drop_subset)
    with None show ?thesis by (simp add: FractionDigits_def dot last)
  next
    case (Some i)
    note i = find_last_not_of_Some [OF Some]
    have "unat (of_nat (Suc i) :: u32) = Suc i"
      using i assms(2) by (intro unat_of_nat_u32) simp
    with Some have "unat (FractionDigits ?t) = Suc i"
      by (simp add: FractionDigits_def dot last)
    moreover have "Suc i \<le> n \<longleftrightarrow> set (drop n fs) \<subseteq> {CHR ''0''}"
    proof
      assume "Suc i \<le> n"
      with i show "set (drop n fs) \<subseteq> {CHR ''0''}"
        by (auto simp: set_conv_nth)
    next
      assume sub: "set (drop n fs) \<subseteq> {CHR ''0''}"
      show "Suc i \<le> n"
      proof (rule ccontr)
        assume "\<not> Suc i \<le> n"
        with i have "fs ! i \<in> set (drop n fs)"
          by (auto simp: set_conv_nth intro!: exI [of _ "i - n"])
        with sub i show False by auto
      qed
    qed
    ultimately show ?thesis by simp
  qed
qed

lemma scaled_value_exact_iff:
  assumes "list_all is_digit fs"
  shows "scaled_value ws fs n * 10 ^ length fs = dec_value (ws @ fs) * 10 ^ n \<longleftrightarrow>
           set (drop n fs) \<subseteq> {CHR ''0''}"
proof (cases "length fs \<le> n")
  case True
  then have "scaled_value ws fs n = dec_value (ws @ fs) * 10 ^ (n - length fs)"
    by (simp add: scaled_value_split dec_value_fixed_digits min_absorb1 dec_value_append
        algebra_simps flip: power_add)
  with True show ?thesis by (simp add: mult.assoc flip: power_add)
next
  case False
  then have fixed: "fixed_digits n fs = take n fs" by (simp add: fixed_digits_def)
  define rest where "rest = drop n fs"
  have fs: "fs = take n fs @ rest" and len: "length fs = n + length rest"
    using False by (simp_all add: rest_def)
  have "dec_value (ws @ fs) = scaled_value ws fs n * 10 ^ length rest + dec_value rest"
    unfolding scaled_value_def fixed by (subst fs) (simp add: dec_value_append algebra_simps power_add)
  then have "scaled_value ws fs n * 10 ^ length fs = dec_value (ws @ fs) * 10 ^ n \<longleftrightarrow> dec_value rest = 0"
    by (auto simp: len power_add algebra_simps)
  moreover have "list_all is_digit rest"
    using assms by (auto simp: rest_def list_all_iff dest: in_set_dropD)
  ultimately show ?thesis by (simp add: dec_value_eq_0 rest_def)
qed

section \<open>Decimal texts of a feed\<close>

text \<open>A number on a feed: the digits before the point and those after it.\<close>

type_synonym decimal_text = "string \<times> string"

definition text_of :: "decimal_text \<Rightarrow> string" where
  "text_of n = (if snd n = [] then fst n else fst n @ CHR ''.'' # snd n)"

definition decimal_ok :: "u32 \<Rightarrow> decimal_text \<Rightarrow> bool" where
  "decimal_ok d n \<longleftrightarrow> list_all is_digit (fst n) \<and> fst n \<noteq> [] \<and> list_all is_digit (snd n) \<and>
     unat d \<le> 18 \<and> scaled_value (fst n) (snd n) (unat d) < 2 ^ 63"

definition scaled :: "u32 \<Rightarrow> decimal_text \<Rightarrow> i64" where
  "scaled d n = int (scaled_value (fst n) (snd n) (unat d))"

lemma Scale_text_of: "decimal_ok d n \<Longrightarrow> ScaleDecimalStringToI64 (text_of n) d = Some (scaled d n)"
  unfolding decimal_ok_def text_of_def scaled_def by (cases n) (auto intro!: ScaleDecimal_parts)

lemma text_of_no_dash: "decimal_ok d n \<Longrightarrow> text_of n \<noteq> [] \<and> hd (text_of n) \<noteq> CHR ''-''"
  by (cases n; cases "fst n") (auto simp: text_of_def decimal_ok_def)

text \<open>A text loses nothing when the digits that scaling would cut are zeros.\<close>

definition cuts_nothing :: "u32 \<Rightarrow> decimal_text \<Rightarrow> bool" where
  "cuts_nothing d n \<longleftrightarrow> set (drop (unat d) (snd n)) \<subseteq> {CHR ''0''}"

lemma FractionDigits_text_of:
  assumes "decimal_ok d n" and "length (snd n) < 2 ^ 32"
  shows "FractionDigits (text_of n) \<le> d \<longleftrightarrow> cuts_nothing d n"
proof -
  have nodot: "CHR ''.'' \<notin> set (fst n)" using assms(1) by (auto simp: decimal_ok_def list_all_iff)
  show ?thesis
  proof (cases "snd n = []")
    case True
    then show ?thesis using nodot by (simp add: text_of_def FractionDigits_no_dot cuts_nothing_def)
  next
    case False
    then show ?thesis
      using FractionDigits_le_iff [OF nodot assms(2), of "unat d"]
      by (simp add: text_of_def cuts_nothing_def word_le_nat_alt)
  qed
qed

section \<open>Properties\<close>

text \<open>
  Scaling is exact: for a text of decimal digits with an optional point, at
  up to 18 decimals, the result is the number spelled by the digits before the
  point followed by exactly \<open>decimals\<close> fraction digits (padded with zeros when
  there are fewer, truncated when there are more), whenever that number fits an
  i64. No signed overflow occurs on the way.
\<close>

theorem scale_reads_fixed_digits:
  assumes "list_all is_digit ws" and "ws \<noteq> []" and "list_all is_digit fs" and "unat d \<le> 18"
    and "dec_value (ws @ fixed_digits (unat d) fs) < 2 ^ 63"
    and "str = ws @ CHR ''.'' # fs \<or> str = ws \<and> fs = []"
  shows "ScaleDecimalStringToI64 str d = Some (int (dec_value (ws @ fixed_digits (unat d) fs)))"
  using ScaleDecimal_parts [of ws fs d str] assms by (simp add: scaled_value_def)

theorem scale_reads_fixed_digits_witness:
  "ScaleDecimalStringToI64 ''2696.29'' 2 = Some 269629"
proof -
  have v: "dec_value (''2696'' @ fixed_digits (unat (2 :: u32)) ''29'') = 269629" by (simp add: eval_digits)
  have d: "list_all is_digit ''2696''" "list_all is_digit ''29''" by code_simp+
  have "ScaleDecimalStringToI64 ''2696.29'' 2 =
      Some (int (dec_value (''2696'' @ fixed_digits (unat (2 :: u32)) ''29'')))"
    by (rule scale_reads_fixed_digits) (use v d in simp_all)
  then show ?thesis using v by simp
qed

text \<open>
  A text whose \<open>FractionDigits\<close> is at most \<open>d\<close> loses nothing when it is
  scaled at \<open>d\<close> decimals, and only such a text does: the scaled number over
  \<open>10 ^ d\<close> equals the text's own value exactly then.
\<close>

theorem fraction_digits_iff_exact:
  assumes "list_all is_digit ws" and "ws \<noteq> []" and "list_all is_digit fs" and "unat d \<le> 18"
    and "dec_value (ws @ fixed_digits (unat d) fs) < 2 ^ 63" and "length fs < 2 ^ 32"
  shows "unat (FractionDigits (ws @ CHR ''.'' # fs)) \<le> unat d \<longleftrightarrow>
           (\<exists>n. ScaleDecimalStringToI64 (ws @ CHR ''.'' # fs) d = Some (int n) \<and>
                n * 10 ^ length fs = dec_value (ws @ fs) * 10 ^ unat d)"
proof -
  have nodot: "CHR ''.'' \<notin> set ws" using assms(1) by (auto simp: list_all_iff)
  show ?thesis
    using ScaleDecimal_parts [of ws fs d "ws @ CHR ''.'' # fs"] assms
      scaled_value_exact_iff [OF assms(3), of ws "unat d"]
    by (simp add: FractionDigits_le_iff [OF nodot assms(6)] scaled_value_def)
qed

theorem fraction_digits_iff_exact_witness:
  "unat (FractionDigits ''0.0100'') \<le> unat (2 :: u32) \<longleftrightarrow>
     (\<exists>n. ScaleDecimalStringToI64 ''0.0100'' 2 = Some (int n) \<and>
          n * 10 ^ 4 = dec_value ''00100'' * 10 ^ unat (2 :: u32))"
proof -
  have v: "dec_value (''0'' @ fixed_digits (unat (2 :: u32)) ''0100'') = 1" by (simp add: eval_digits)
  have d: "list_all is_digit ''0''" "list_all is_digit ''0100''" by code_simp+
  show ?thesis using fraction_digits_iff_exact [of "''0''" "''0100''" 2] v d by simp
qed

text \<open>
  The sign of a number between 0 and -1 is lost and the fraction of any
  negative number is added instead of subtracted: the integer part carries the
  sign, the fraction does not. For example -1.5 at one decimal reads as -5.
\<close>

theorem scale_negative_adds_fraction:
  assumes "list_all is_digit ws" and "ws \<noteq> []" and "list_all is_digit fs"
    and "unat d \<le> 18" and "dec_value (ws @ fixed_digits (unat d) fs) < 2 ^ 63"
  shows "ScaleDecimalStringToI64 (CHR ''-'' # ws @ CHR ''.'' # fs) d =
           Some (- int (dec_value ws * 10 ^ unat d) + int (dec_value (fixed_digits (unat d) fs)))"
  using ScaleDecimal_negative_parts [of ws fs d] assms by (simp add: scaled_value_def)

theorem scale_negative_adds_fraction_witness:
  "ScaleDecimalStringToI64 ''-1.5'' 1 = Some (-5)"
proof -
  have v: "dec_value (''1'' @ fixed_digits (unat (1 :: u32)) ''5'') = 15"
    "dec_value (fixed_digits (unat (1 :: u32)) ''5'') = 5" "dec_value ''1'' = 1" by (simp_all add: eval_digits)
  have d: "list_all is_digit ''1''" "list_all is_digit ''5''" by code_simp+
  show ?thesis using scale_negative_adds_fraction [of "''1''" "''5''" 1] v d by simp
qed

end
