(* ===== verification/UnixTime.thy ===== *)
theory UnixTime
  imports Decimal "HOL-Library.Monad_Syntax"
begin

text \<open>
  core/unix_time.cc: RFC 3339 timestamps to nanoseconds since the Unix epoch.
  The calendar of \<^verbatim>\<open>std::chrono\<close> is the proleptic Gregorian one. Where the
  standard leaves a conversion unspecified (a month that is none, a negative
  day), the model takes the value from the parameter \<open>unspec\<close>.
\<close>

section \<open>The calendar of \<^verbatim>\<open>std::chrono::sys_days\<close>\<close>

definition leap :: "int \<Rightarrow> bool" where
  "leap y \<longleftrightarrow> y mod 4 = 0 \<and> y mod 100 \<noteq> 0 \<or> y mod 400 = 0"

definition days_in_month :: "int \<Rightarrow> int \<Rightarrow> int" where
  "days_in_month y m =
     (if m = 2 then (if leap y then 29 else 28) else if m \<in> {4, 6, 9, 11} then 30 else 31)"

definition days_before_year :: "int \<Rightarrow> int" where
  "days_before_year y = 365 * (y - 1970) + ((y - 1) div 4 - (y - 1) div 100 + (y - 1) div 400) - 477"

fun days_before_month_nat :: "int \<Rightarrow> nat \<Rightarrow> int" where
  "days_before_month_nat y 0 = 0"
| "days_before_month_nat y (Suc k) = days_before_month_nat y k + days_in_month y (int (Suc k))"

definition civil_days :: "int \<Rightarrow> int \<Rightarrow> int \<Rightarrow> int" where
  "civil_days y m d = days_before_year y + days_before_month_nat y (nat (m - 1)) + (d - 1)"

definition sys_days :: "(int \<Rightarrow> int \<Rightarrow> int \<Rightarrow> int) \<Rightarrow> int \<Rightarrow> int \<Rightarrow> int \<Rightarrow> int" where
  "sys_days unspec y m d =
     (if 1 \<le> m \<and> m \<le> 12 \<and> 0 \<le> d then civil_days y m 1 + (d - 1) else unspec y m d)"

section \<open>The code\<close>

definition ReadDigits :: "string \<Rightarrow> nat \<Rightarrow> nat \<Rightarrow> i64 option" where
  "ReadDigits str offset count =
     (if offset + count > length str then None
      else let r = from_chars_i64 (take count (drop offset str)) 0
           in if fc_ptr r = count then Some (fc_value r) else None)"

fun fraction_loop :: "string \<Rightarrow> i64 \<Rightarrow> i64 \<Rightarrow> i64" where
  "fraction_loop [] digit_value fraction_nanos = fraction_nanos"
| "fraction_loop (digit # rest) digit_value fraction_nanos =
     (if \<not> is_digit digit then fraction_nanos
      else fraction_loop rest (digit_value div 10) (fraction_nanos + int (digit_val digit) * digit_value))"

definition kNanosPerSecond :: i64 where "kNanosPerSecond = 1000000000"

definition unix_nanos :: "i64 \<Rightarrow> i64 \<Rightarrow> i64 \<Rightarrow> i64 \<Rightarrow> i64 \<Rightarrow> i64 option" where
  "unix_nanos days hour minute second fraction_nanos =
     do { a \<leftarrow> i64_mul days 86400;
          b \<leftarrow> i64_mul hour 3600;
          ab \<leftarrow> i64_add a b;
          c \<leftarrow> i64_mul minute 60;
          abc \<leftarrow> i64_add ab c;
          seconds \<leftarrow> i64_add abc second;
          nanos \<leftarrow> i64_mul seconds kNanosPerSecond;
          i64_add nanos fraction_nanos }"

definition kSecondsEnd :: nat where "kSecondsEnd = 19"

definition ParseIso8601ToUnixNanos ::
    "(int \<Rightarrow> int \<Rightarrow> int \<Rightarrow> int) \<Rightarrow> string \<Rightarrow> i64 option result" where
  "ParseIso8601ToUnixNanos unspec str =
     (if length str < kSecondsEnd \<or> str ! 4 \<noteq> CHR ''-'' \<or> str ! 7 \<noteq> CHR ''-'' \<or>
         str ! 10 \<noteq> CHR ''T'' \<or> str ! 13 \<noteq> CHR '':'' \<or> str ! 16 \<noteq> CHR '':''
      then Inr None
      else case (ReadDigits str 0 4, ReadDigits str 5 2, ReadDigits str 8 2,
                 ReadDigits str 11 2, ReadDigits str 14 2, ReadDigits str 17 2) of
        (Some year, Some month, Some day, Some hour, Some minute, Some second) \<Rightarrow>
          (let fraction_nanos =
                 (if length str > kSecondsEnd \<and> str ! kSecondsEnd = CHR ''.''
                  then fraction_loop (drop (kSecondsEnd + 1) str) 100000000 0 else 0)
           in bindR (defined_or_UB
                (unix_nanos (sys_days unspec year month day) hour minute second fraction_nanos))
                (\<lambda>nanos. Inr (Some nanos)))
      | _ \<Rightarrow> Inr None)"

lemma unix_nanos_in_i64: "unix_nanos d h mi s f = Some v \<Longrightarrow> in_i64 v"
  by (auto simp: unix_nanos_def i64_add_def bind_eq_Some_conv)

lemma ParseIso8601_in_i64: "ParseIso8601ToUnixNanos unspec str = Inr (Some v) \<Longrightarrow> in_i64 v"
  by (auto simp: ParseIso8601ToUnixNanos_def Let_def bindR_Inr_iff defined_or_UB_def
      dest: unix_nanos_in_i64 split: option.splits if_splits)

section \<open>The calendar counts days\<close>

lemma div_pred_int:
  assumes "0 < (k :: int)"
  shows "y div k = (y - 1) div k + (if y mod k = 0 then 1 else 0)"
proof (cases "y mod k = 0")
  case True
  then have y: "y = k * (y div k)" by (metis add.right_neutral mult_div_mod_eq)
  then have "(y - 1) div k = y div k - 1"
    using assms by (intro int_div_pos_eq [where r = "k - 1"]) (simp_all add: right_diff_distrib)
  with True show ?thesis by simp
next
  case False
  have "0 < y mod k" using False assms by (simp add: order_less_le)
  then have "(y - 1) div k = y div k"
    using pos_mod_bound [OF assms, of y]
    by (intro int_div_pos_eq [where r = "y mod k - 1"]) simp_all
  with False show ?thesis by simp
qed

definition days_in_year :: "int \<Rightarrow> int" where
  "days_in_year y = (if leap y then 366 else 365)"

lemma leap_count:
  fixes a b c :: int
  assumes "C \<Longrightarrow> B" and "B \<Longrightarrow> A"
  shows "365 * (z + 1) + (a + (if A then 1 else 0) - (b + (if B then 1 else 0)) + (c + (if C then 1 else 0))) - 477
    = 365 * z + (a - b + c) - 477 + (if A \<and> \<not> B \<or> C then 366 else 365)"
  using assms by auto

lemma days_before_year_Suc: "days_before_year (y + 1) = days_before_year y + days_in_year y"
proof -
  have "400 dvd y \<Longrightarrow> 100 dvd y" "100 dvd y \<Longrightarrow> 4 dvd y"
    by (erule dvd_trans [rotated], simp)+
  then have m: "y mod 400 = 0 \<Longrightarrow> y mod 100 = 0" "y mod 100 = 0 \<Longrightarrow> y mod 4 = 0"
    by (simp_all only: dvd_eq_mod_eq_0)
  have "y + 1 - 1970 = (y - 1970) + 1" by simp
  then show ?thesis
    unfolding days_before_year_def days_in_year_def leap_def add_diff_cancel_right'
      div_pred_int [of 4 y, OF zero_less_numeral] div_pred_int [of 100 y, OF zero_less_numeral]
      div_pred_int [of 400 y, OF zero_less_numeral]
    by (simp only: leap_count [OF m])
qed

lemma days_before_year_mono: "y < y' \<Longrightarrow> days_before_year y + days_in_year y \<le> days_before_year y'"
proof (induction "nat (y' - y)" arbitrary: y')
  case 0
  then show ?case by simp
next
  case (Suc k)
  show ?case
  proof (cases "y' = y + 1")
    case True
    then show ?thesis by (simp add: days_before_year_Suc)
  next
    case False
    with Suc.prems Suc.hyps(2) have "days_before_year y + days_in_year y \<le> days_before_year (y' - 1)"
      by (intro Suc.hyps(1)) linarith+
    also have "\<dots> \<le> days_before_year y'"
      using days_before_year_Suc [of "y' - 1"] by (simp add: days_in_year_def split: if_splits)
    finally show ?thesis .
  qed
qed

lemma days_before_year_bounds:
  assumes "0 \<le> y" and "y \<le> 9999"
  shows "\<bar>days_before_year y\<bar> \<le> 3000000"
proof -
  have "days_before_year 0 = - 719528" "days_before_year 9999 = 2932532"
    by (simp_all add: days_before_year_def)
  moreover have "days_before_year 0 \<le> days_before_year y" "days_before_year y \<le> days_before_year 9999"
    using assms days_before_year_mono [of 0 y] days_before_year_mono [of y 9999]
    by (cases "y = 0"; cases "y = 9999"; simp add: days_in_year_def split: if_splits)+
  ultimately show ?thesis by linarith
qed

lemma days_in_month_bounds: "28 \<le> days_in_month y m" "days_in_month y m \<le> 31"
  by (auto simp: days_in_month_def)

lemma days_before_month_mono: "j \<le> k \<Longrightarrow> days_before_month_nat y j \<le> days_before_month_nat y k"
proof (induction k)
  case (Suc k)
  then show ?case
    using days_in_month_bounds(1) [of y "int (Suc k)"] by (cases "j = Suc k") auto
qed simp

lemma days_before_month_numeral:
  "days_before_month_nat y (numeral k) =
     days_before_month_nat y (pred_numeral k) + days_in_month y (numeral k)"
proof -
  have "numeral k = Suc (pred_numeral k)" "numeral k = int (Suc (pred_numeral k))"
    by (simp_all add: numeral_eq_Suc [symmetric] del: of_nat_Suc)
  then show ?thesis by (metis days_before_month_nat.simps(2))
qed

lemma days_before_month_12: "days_before_month_nat y 12 = days_in_year y"
  by (simp add: days_before_month_numeral days_in_month_def days_in_year_def)

lemma days_before_month_bounds: "k \<le> 12 \<Longrightarrow> 0 \<le> days_before_month_nat y k \<and> days_before_month_nat y k \<le> 366"
  using days_before_month_mono [of 0 k y] days_before_month_mono [of k 12 y]
  by (auto simp: days_before_month_12 days_in_year_def split: if_splits)

text \<open>A calendar date, and the date after it: \<open>civil_days\<close> counts one day per date from the epoch.\<close>

definition valid_date :: "int \<Rightarrow> int \<Rightarrow> int \<Rightarrow> bool" where
  "valid_date y m d \<longleftrightarrow> 1 \<le> m \<and> m \<le> 12 \<and> 1 \<le> d \<and> d \<le> days_in_month y m"

lemma civil_days_epoch: "civil_days 1970 1 1 = 0"
  by (simp add: civil_days_def days_before_year_def)

lemma day_of_year_bounds:
  assumes "valid_date y m d"
  shows "days_before_year y \<le> civil_days y m d" "civil_days y m d < days_before_year y + days_in_year y"
proof -
  define k where "k = nat (m - 1)"
  have m: "m = int (Suc k)" and k: "Suc k \<le> 12" using assms by (auto simp: valid_date_def k_def)
  have "days_before_month_nat y k + days_in_month y m \<le> days_in_year y"
    using days_before_month_mono [OF k, of y] by (simp add: m days_before_month_12)
  moreover have "0 \<le> days_before_month_nat y k" using days_before_month_bounds [of k y] k by simp
  ultimately show "days_before_year y \<le> civil_days y m d"
    "civil_days y m d < days_before_year y + days_in_year y"
    using assms by (auto simp: civil_days_def valid_date_def k_def)
qed

lemma civil_days_month_less:
  assumes "valid_date y m d" and "valid_date y m' d'" and "m < m'"
  shows "civil_days y m d < civil_days y m' d'"
proof -
  define k where "k = nat (m - 1)"
  have m: "m = int (Suc k)" and k: "Suc k \<le> nat (m' - 1)"
    using assms by (auto simp: valid_date_def k_def)
  have "days_before_month_nat y k + days_in_month y m \<le> days_before_month_nat y (nat (m' - 1))"
    using days_before_month_mono [OF k, of y] by (simp add: m)
  moreover have "d \<le> days_in_month y m" "1 \<le> d'" using assms by (simp_all add: valid_date_def)
  moreover have "nat (m - 1) = k" by (simp add: k_def)
  ultimately show ?thesis by (simp add: civil_days_def)
qed

lemma civil_days_less:
  assumes "valid_date y m d" and "valid_date y' m' d'"
    and "y < y' \<or> y = y' \<and> (m < m' \<or> m = m' \<and> d < d')"
  shows "civil_days y m d < civil_days y' m' d'"
proof (cases "y < y'")
  case True
  then show ?thesis
    using day_of_year_bounds(2) [OF assms(1)] day_of_year_bounds(1) [OF assms(2)]
      days_before_year_mono [OF True] by linarith
next
  case False
  then show ?thesis
    using assms civil_days_month_less [of y m d m' d'] by (auto simp: civil_days_def)
qed

section \<open>Reading the fields\<close>

lemma ReadDigits_field:
  assumes "list_all is_digit f" and "length f = n" and "0 < n" and "n \<le> 18"
    and "take n (drop k str) = f" and "k + n \<le> length str"
  shows "ReadDigits str k n = Some (int (dec_value f))"
proof -
  have "dec_value f < 10 ^ n" using dec_value_less [OF assms(1)] assms(2) by simp
  also have "(10 :: nat) ^ n \<le> 10 ^ 18" using assms(4) by (intro power_increasing) simp_all
  finally have "dec_value f < 2 ^ 63" by simp
  moreover have "f \<noteq> []" using assms(2,3) by auto
  ultimately show ?thesis using assms by (simp add: ReadDigits_def)
qed

lemma fixed_digits_Cons [simp]: "fixed_digits (Suc n) (c # fs) = c # fixed_digits n fs"
  by (simp add: fixed_digits_def take_replicate min_def del: replicate.simps)

lemma fixed_digits_0 [simp]: "fixed_digits 0 fs = []"
  by (simp add: fixed_digits_def)

lemma fixed_digits_Nil [simp]: "fixed_digits n [] = replicate n (CHR ''0'')"
  by (simp add: fixed_digits_def)

lemma fraction_loop_0: "fraction_loop str 0 acc = acc"
  by (induction str arbitrary: acc) auto

lemma fraction_loop_eq:
  "fraction_loop str (10 ^ k) acc = acc + int (dec_value (fixed_digits (Suc k) (takeWhile is_digit str)))"
proof (induction str arbitrary: k acc)
  case Nil
  then show ?case by (simp del: replicate.simps)
next
  case (Cons c str)
  show ?case
  proof (cases k)
    case 0
    then show ?thesis by (simp add: fraction_loop_0 dec_value_Cons)
  next
    case (Suc k')
    with Cons.IH [of k'] show ?thesis
      by (simp add: dec_value_Cons del: replicate.simps)
  qed
qed

lemma unix_nanos_eq:
  assumes "\<bar>D\<bar> \<le> 10000000" and "0 \<le> h" and "h \<le> 99" and "0 \<le> mi" and "mi \<le> 99" and "0 \<le> s" and "s \<le> 99"
  shows "unix_nanos D h mi s f =
     (let nanos = (D * 86400 + h * 3600 + mi * 60 + s) * 1000000000
      in if in_i64 nanos then i64_checked (nanos + f) else None)"
proof -
  have "in_i64 (D * 86400)" "in_i64 (h * 3600)" "in_i64 (D * 86400 + h * 3600)" "in_i64 (mi * 60)"
    "in_i64 (D * 86400 + h * 3600 + mi * 60)" "in_i64 (D * 86400 + h * 3600 + mi * 60 + s)"
    using assms by (simp_all add: i64_range abs_le_iff)
  then show ?thesis
    by (simp add: unix_nanos_def i64_mul_def i64_add_def kNanosPerSecond_def Let_def)
      (simp add: i64_checked_def)
qed

section \<open>Timestamps\<close>

text \<open>The text of a timestamp: fixed width fields of digits, and whatever follows the seconds.\<close>

definition timestamp :: "string \<Rightarrow> string \<Rightarrow> string \<Rightarrow> string \<Rightarrow> string \<Rightarrow> string \<Rightarrow> string \<Rightarrow> string" where
  "timestamp ys ms ds hs ns ss rest =
     ys @ ''-'' @ ms @ ''-'' @ ds @ ''T'' @ hs @ '':'' @ ns @ '':'' @ ss @ rest"

definition timestamp_fields :: "string \<Rightarrow> string \<Rightarrow> string \<Rightarrow> string \<Rightarrow> string \<Rightarrow> string \<Rightarrow> bool" where
  "timestamp_fields ys ms ds hs ns ss \<longleftrightarrow>
     list_all is_digit (ys @ ms @ ds @ hs @ ns @ ss) \<and> length ys = 4 \<and>
     list_all (\<lambda>f. length f = 2) [ms, ds, hs, ns, ss]"

fun fraction_digits_of :: "string \<Rightarrow> string" where
  "fraction_digits_of (c # rest) = (if c = CHR ''.'' then takeWhile is_digit rest else [])"
| "fraction_digits_of [] = []"

text \<open>What the fields and the fraction say, in nanoseconds since the epoch.\<close>

definition nanos_of_fields ::
    "string \<Rightarrow> string \<Rightarrow> string \<Rightarrow> string \<Rightarrow> string \<Rightarrow> string \<Rightarrow> string \<Rightarrow> int" where
  "nanos_of_fields ys ms ds hs ns ss fs =
     (civil_days (int (dec_value ys)) (int (dec_value ms)) (int (dec_value ds)) * 86400 +
      int (dec_value hs) * 3600 + int (dec_value ns) * 60 + int (dec_value ss)) * 1000000000 +
     int (dec_value (fixed_digits 9 fs))"

lemma timestamp_layout:
  assumes "length ys = 4" and "length ms = 2" and "length ds = 2" and "length hs = 2"
    and "length ns = 2" and "length ss = 2" and "str = timestamp ys ms ds hs ns ss rest"
  shows "19 \<le> length str" "str ! 4 = CHR ''-''" "str ! 7 = CHR ''-''" "str ! 10 = CHR ''T''"
    "str ! 13 = CHR '':''" "str ! 16 = CHR '':''"
    "take 4 (drop 0 str) = ys" "take 2 (drop 5 str) = ms" "take 2 (drop 8 str) = ds"
    "take 2 (drop 11 str) = hs" "take 2 (drop 14 str) = ns" "take 2 (drop 17 str) = ss"
    "drop 19 str = rest" "length str > 19 \<longleftrightarrow> rest \<noteq> []"
proof -
  obtain y1 y2 y3 y4 m1 m2 d1 d2 h1 h2 n1 n2 s1 s2 where
    "ys = [y1, y2, y3, y4]" "ms = [m1, m2]" "ds = [d1, d2]" "hs = [h1, h2]" "ns = [n1, n2]" "ss = [s1, s2]"
    using assms(1-6) by (auto simp: length_Suc_conv numeral_eq_Suc)
  with assms(7) show "19 \<le> length str" "str ! 4 = CHR ''-''" "str ! 7 = CHR ''-''" "str ! 10 = CHR ''T''"
    "str ! 13 = CHR '':''" "str ! 16 = CHR '':''"
    "take 4 (drop 0 str) = ys" "take 2 (drop 5 str) = ms" "take 2 (drop 8 str) = ds"
    "take 2 (drop 11 str) = hs" "take 2 (drop 14 str) = ns" "take 2 (drop 17 str) = ss"
    "drop 19 str = rest" "length str > 19 \<longleftrightarrow> rest \<noteq> []"
    by (simp_all add: timestamp_def)
qed

lemma fraction_nanos_rest:
  assumes "19 \<le> length str" and "drop 19 str = rest"
  shows "(if length str > kSecondsEnd \<and> str ! kSecondsEnd = CHR ''.''
          then fraction_loop (drop (kSecondsEnd + 1) str) 100000000 0 else 0) =
         int (dec_value (fixed_digits 9 (fraction_digits_of rest)))"
proof (cases rest)
  case Nil
  with assms show ?thesis by (simp add: kSecondsEnd_def del: replicate_numeral)
next
  case (Cons c cs)
  with assms have "19 < length str" by (metis drop_eq_Nil linorder_not_less list.discI)
  moreover from this have "str ! 19 # drop 20 str = c # cs"
    using Cons_nth_drop_Suc [of 19 str] assms(2) Cons by simp
  moreover have "fraction_loop cs 100000000 0 = int (dec_value (fixed_digits 9 (takeWhile is_digit cs)))"
    using fraction_loop_eq [of cs 8 0] by simp
  ultimately show ?thesis using dec_value_zeros [of 9] by (simp add: kSecondsEnd_def Cons)
qed

lemma two_digits: "list_all is_digit f \<Longrightarrow> length f = 2 \<Longrightarrow> dec_value f \<le> 99"
  using dec_value_less [of f] by simp

lemma ParseIso8601_timestamp:
  assumes fields: "timestamp_fields ys ms ds hs ns ss"
    and month: "1 \<le> dec_value ms" "dec_value ms \<le> 12"
  shows "ParseIso8601ToUnixNanos unspec (timestamp ys ms ds hs ns ss rest) =
    (let nanos = nanos_of_fields ys ms ds hs ns ss (fraction_digits_of rest);
         whole = nanos_of_fields ys ms ds hs ns ss []
     in if in_i64 whole \<and> in_i64 nanos then Inr (Some nanos) else Inl undefined_behaviour)"
proof -
  define str where "str = timestamp ys ms ds hs ns ss rest"
  have d: "list_all is_digit ys" "list_all is_digit ms" "list_all is_digit ds" "list_all is_digit hs"
    "list_all is_digit ns" "list_all is_digit ss"
    and l: "length ys = 4" "length ms = 2" "length ds = 2" "length hs = 2" "length ns = 2" "length ss = 2"
    using fields by (simp_all add: timestamp_fields_def)
  note layout = timestamp_layout [OF l str_def]
  let ?y = "int (dec_value ys)" and ?m = "int (dec_value ms)" and ?d = "int (dec_value ds)"
  let ?D = "civil_days ?y ?m ?d"
  have read: "ReadDigits str 0 4 = Some ?y" "ReadDigits str 5 2 = Some ?m" "ReadDigits str 8 2 = Some ?d"
    "ReadDigits str 11 2 = Some (int (dec_value hs))" "ReadDigits str 14 2 = Some (int (dec_value ns))"
    "ReadDigits str 17 2 = Some (int (dec_value ss))"
    using d l layout by (simp_all add: ReadDigits_field)
  have sys: "sys_days unspec ?y ?m ?d = ?D"
    using month by (simp add: sys_days_def civil_days_def)
  have "dec_value ys \<le> 9999" using dec_value_less [OF d(1)] l by simp
  then have "\<bar>days_before_year ?y\<bar> \<le> 3000000" by (intro days_before_year_bounds) simp_all
  moreover have "0 \<le> days_before_month_nat ?y (nat (?m - 1)) \<and> days_before_month_nat ?y (nat (?m - 1)) \<le> 366"
    using month by (intro days_before_month_bounds) simp
  ultimately have D: "\<bar>?D\<bar> \<le> 10000000"
    using two_digits [OF d(3) l(3)] unfolding civil_days_def by linarith
  have "unix_nanos ?D (int (dec_value hs)) (int (dec_value ns)) (int (dec_value ss)) f =
      (let nanos = (?D * 86400 + int (dec_value hs) * 3600 + int (dec_value ns) * 60 + int (dec_value ss)) * 1000000000
       in if in_i64 nanos then i64_checked (nanos + f) else None)" for f
    using D two_digits [OF d(4) l(4)] two_digits [OF d(5) l(5)] two_digits [OF d(6) l(6)]
    by (intro unix_nanos_eq) simp_all
  then show ?thesis
    unfolding str_def [symmetric] ParseIso8601ToUnixNanos_def read fraction_nanos_rest [OF layout(1) layout(13)]
    using layout(1-6) sys
    by (simp add: kSecondsEnd_def nanos_of_fields_def Let_def i64_checked_def del: replicate_numeral)
qed

section \<open>Order\<close>

lemma less_append:
  fixes a b :: "'a :: linorder list"
  shows "length a = length b \<Longrightarrow> a @ x < b @ y \<longleftrightarrow> a < b \<or> a = b \<and> x < y"
  by (induction a b rule: list_induct2) auto

lemma digit_less: "is_digit c \<Longrightarrow> is_digit d \<Longrightarrow> c < d \<longleftrightarrow> digit_val c < digit_val d"
  by (auto simp: less_char_def is_digit_def digit_val_def)

lemma digits_less:
  "length a = length b \<Longrightarrow> list_all is_digit a \<Longrightarrow> list_all is_digit b \<Longrightarrow>
     a < b \<longleftrightarrow> dec_value a < dec_value b"
proof (induction a b rule: list_induct2)
  case Nil
  then show ?case by simp
next
  case (Cons c cs d ds)
  then have "dec_value cs < 10 ^ length ds" "dec_value ds < 10 ^ length ds"
    using dec_value_less [of cs] dec_value_less [of ds] by simp_all
  moreover have "digit_val c < digit_val d \<Longrightarrow>
      digit_val c * 10 ^ length ds + 10 ^ length ds \<le> digit_val d * 10 ^ length ds"
    by (metis Suc_leI add.commute mult_Suc mult_le_mono1)
  moreover have "digit_val d < digit_val c \<Longrightarrow>
      digit_val d * 10 ^ length ds + 10 ^ length ds \<le> digit_val c * 10 ^ length ds"
    by (metis Suc_leI add.commute mult_Suc mult_le_mono1)
  moreover have "c = d \<longleftrightarrow> digit_val c = digit_val d"
    using Cons.prems by (auto simp: digit_char_val dest: arg_cong [where f = digit_char])
  ultimately show ?case
    using Cons by (cases "digit_val c" "digit_val d" rule: linorder_cases)
      (auto simp: dec_value_Cons digit_less)
qed

lemma digits_eq:
  assumes "length a = length b" and "list_all is_digit a" and "list_all is_digit b"
  shows "a = b \<longleftrightarrow> dec_value a = dec_value b"
  using digits_less [OF assms] digits_less [of b a] assms by (metis less_irrefl linorder_less_linear)

lemma nanos_less:
  assumes "D < D' \<or> D = D' \<and> (h < h' \<or> h = h' \<and> (mi < mi' \<or> mi = mi' \<and> (s < s' \<or> s = s' \<and> f < f')))"
    and "0 \<le> h" "0 \<le> mi" "0 \<le> s" "0 \<le> f" "h \<le> 23" "mi \<le> 59" "s \<le> 59" "f < 1000000000"
    and "0 \<le> h'" "0 \<le> mi'" "0 \<le> s'" "0 \<le> f'"
  shows "(D * 86400 + h * 3600 + mi * 60 + s) * 1000000000 + f <
         (D' * 86400 + h' * 3600 + mi' * 60 + s') * 1000000000 + (f' :: int)"
proof -
  have "D * 86400 + h * 3600 + mi * 60 + s < D' * 86400 + h' * 3600 + mi' * 60 + s' \<or>
        D * 86400 + h * 3600 + mi * 60 + s = D' * 86400 + h' * 3600 + mi' * 60 + s' \<and> f < f'"
    using assms by auto
  then show ?thesis using assms by auto
qed

text \<open>A timestamp of a real instant, with a fraction of \<open>k\<close> digits, as the venues send it.\<close>

definition instant :: "string \<Rightarrow> string \<Rightarrow> string \<Rightarrow> string \<Rightarrow> string \<Rightarrow> string \<Rightarrow> nat \<Rightarrow> string \<Rightarrow> bool" where
  "instant ys ms ds hs ns ss k fs \<longleftrightarrow>
     timestamp_fields ys ms ds hs ns ss \<and>
     valid_date (int (dec_value ys)) (int (dec_value ms)) (int (dec_value ds)) \<and>
     dec_value hs \<le> 23 \<and> dec_value ns \<le> 59 \<and> dec_value ss \<le> 59 \<and>
     list_all is_digit fs \<and> length fs = k \<and> k \<le> 9"

lemma fraction_less_iff:
  assumes "list_all is_digit fs" "list_all is_digit fs'" "length fs = k" "length fs' = k" "k \<le> 9"
  shows "dec_value (fixed_digits 9 fs) < dec_value (fixed_digits 9 fs') \<longleftrightarrow> dec_value fs < dec_value fs'"
  using assms by (simp add: dec_value_fixed_digits min_absorb1)

lemma nanos_of_fields_less:
  assumes i: "instant ys ms ds hs ns ss k fs" and i': "instant ys' ms' ds' hs' ns' ss' k fs'"
    and less: "timestamp ys ms ds hs ns ss (''.'' @ fs @ ''Z'') <
               timestamp ys' ms' ds' hs' ns' ss' (''.'' @ fs' @ ''Z'')"
  shows "nanos_of_fields ys ms ds hs ns ss fs < nanos_of_fields ys' ms' ds' hs' ns' ss' fs'"
proof -
  let ?lt = "\<lambda>a b. dec_value a < dec_value b" and ?eq = "\<lambda>a b. dec_value a = dec_value b"
  have l: "length ys = length ys'" "length ms = length ms'" "length ds = length ds'"
    "length hs = length hs'" "length ns = length ns'" "length ss = length ss'" "length fs = length fs'"
    and d: "list_all is_digit ys" "list_all is_digit ms" "list_all is_digit ds" "list_all is_digit hs"
      "list_all is_digit ns" "list_all is_digit ss" "list_all is_digit fs"
    and d': "list_all is_digit ys'" "list_all is_digit ms'" "list_all is_digit ds'" "list_all is_digit hs'"
      "list_all is_digit ns'" "list_all is_digit ss'" "list_all is_digit fs'"
    using i i' by (simp_all add: instant_def timestamp_fields_def)
  have "?lt ys ys' \<or> ?eq ys ys' \<and> (?lt ms ms' \<or> ?eq ms ms' \<and> (?lt ds ds' \<or> ?eq ds ds' \<and>
      (?lt hs hs' \<or> ?eq hs hs' \<and> (?lt ns ns' \<or> ?eq ns ns' \<and> (?lt ss ss' \<or> ?eq ss ss' \<and> ?lt fs fs')))))"
    using less l unfolding timestamp_def
    by (simp add: less_append digits_less digits_eq d d')
  moreover have "?lt ys ys' \<or> ?eq ys ys' \<and> (?lt ms ms' \<or> ?eq ms ms' \<and> ?lt ds ds') \<Longrightarrow>
      civil_days (int (dec_value ys)) (int (dec_value ms)) (int (dec_value ds)) <
      civil_days (int (dec_value ys')) (int (dec_value ms')) (int (dec_value ds'))"
    using i i' by (intro civil_days_less) (auto simp: instant_def)
  moreover have "?lt fs fs' \<Longrightarrow> dec_value (fixed_digits 9 fs) < dec_value (fixed_digits 9 fs')"
    using fraction_less_iff [of fs fs' k] i i' by (simp add: instant_def)
  moreover have "dec_value (fixed_digits 9 fs) < 1000000000"
    using dec_value_less [OF fixed_digits_digits [OF d(7), of 9]] by (simp del: replicate_numeral)
  ultimately show ?thesis
    unfolding nanos_of_fields_def using i i' by (intro nanos_less) (auto simp: instant_def)
qed

lemma ParseIso8601_instant:
  assumes "instant ys ms ds hs ns ss k fs"
    and "ParseIso8601ToUnixNanos unspec (timestamp ys ms ds hs ns ss (''.'' @ fs @ ''Z'')) = Inr (Some n)"
  shows "n = nanos_of_fields ys ms ds hs ns ss fs"
  using assms ParseIso8601_timestamp [of ys ms ds hs ns ss unspec "''.'' @ fs @ ''Z''"]
  by (auto simp: instant_def valid_date_def Let_def takeWhile_append2 list_all_iff split: if_splits)

section \<open>Properties\<close>

text \<open>
  A timestamp in the RFC 3339 layout with a month from 1 to 12 parses to the
  nanoseconds its fields say: days of the calendar, hours, minutes, seconds and
  the first nine digits of the fraction, missing ones counting as zeros,
  whatever follows them. The only other outcome is a signed overflow, exactly
  when the result (or the result without its fraction) does not fit an i64.
\<close>

theorem parse_timestamp_value:
  assumes "timestamp_fields ys ms ds hs ns ss" and "1 \<le> dec_value ms" and "dec_value ms \<le> 12"
  shows "ParseIso8601ToUnixNanos unspec (timestamp ys ms ds hs ns ss rest) =
    (let nanos = nanos_of_fields ys ms ds hs ns ss (fraction_digits_of rest);
         whole = nanos_of_fields ys ms ds hs ns ss []
     in if in_i64 whole \<and> in_i64 nanos then Inr (Some nanos) else Inl undefined_behaviour)"
  using assms by (rule ParseIso8601_timestamp)

theorem parse_timestamp_value_witness:
  "ParseIso8601ToUnixNanos (\<lambda>_ _ _. 0) ''2026-10-04T18:32:21.811584Z'' = Inr (Some 1791138741811584000)"
proof -
  have f: "timestamp_fields ''2026'' ''10'' ''04'' ''18'' ''32'' ''21''" by code_simp
  have m: "dec_value ''10'' = 10" by (simp add: eval_digits)
  have v: "nanos_of_fields ''2026'' ''10'' ''04'' ''18'' ''32'' ''21'' ''811584'' = 1791138741811584000"
    "nanos_of_fields ''2026'' ''10'' ''04'' ''18'' ''32'' ''21'' [] = 1791138741000000000"
    by (simp_all add: nanos_of_fields_def eval_digits civil_days_def days_before_year_def
        days_in_month_def leap_def days_before_month_numeral)
  have t: "''2026-10-04T18:32:21.811584Z'' =
      timestamp ''2026'' ''10'' ''04'' ''18'' ''32'' ''21'' ''.811584Z''"
    by (simp add: timestamp_def)
  have r: "fraction_digits_of ''.811584Z'' = ''811584''" by (simp add: is_digit_def)
  show ?thesis
    unfolding t using parse_timestamp_value [OF f, of "\<lambda>_ _ _. 0" "''.811584Z''"] m v r
    by (simp add: i64_range)
qed

text \<open>
  Timestamps keep their order: of two instants written with the same number
  of fraction digits, the one whose text comes first alphabetically gets the
  smaller number, and the same text the same number.
\<close>

theorem parse_keeps_order:
  assumes "instant ys ms ds hs ns ss k fs" and "instant ys' ms' ds' hs' ns' ss' k fs'"
    and "t = timestamp ys ms ds hs ns ss (''.'' @ fs @ ''Z'')"
    and "t' = timestamp ys' ms' ds' hs' ns' ss' (''.'' @ fs' @ ''Z'')"
    and "ParseIso8601ToUnixNanos unspec t = Inr (Some n)"
    and "ParseIso8601ToUnixNanos unspec t' = Inr (Some n')"
  shows "n < n' \<longleftrightarrow> t < t'"
proof -
  note v = ParseIso8601_instant [OF assms(1), of unspec n] ParseIso8601_instant [OF assms(2), of unspec n']
  have "t < t' \<Longrightarrow> n < n'" "t' < t \<Longrightarrow> n' < n"
    using v assms nanos_of_fields_less [OF assms(1,2)] nanos_of_fields_less [OF assms(2,1)] by simp_all
  moreover have "t = t' \<Longrightarrow> n = n'" using assms(5,6) by simp
  ultimately show ?thesis by (metis less_irrefl linorder_less_linear order_less_trans)
qed

theorem parse_keeps_order_witness:
  "let parse = ParseIso8601ToUnixNanos (\<lambda>_ _ _. 0);
       t = ''2026-12-31T23:59:59.999999Z''; t' = ''2027-01-01T00:00:00.000000Z''
   in case (parse t, parse t') of (Inr (Some n), Inr (Some n')) \<Rightarrow> (n < n') = (t < t') | _ \<Rightarrow> False"
proof -
  let ?u = "\<lambda>_ _ _. 0 :: int"
  have i: "instant ''2026'' ''12'' ''31'' ''23'' ''59'' ''59'' 6 ''999999''"
    "instant ''2027'' ''01'' ''01'' ''00'' ''00'' ''00'' 6 ''000000''"
    by (simp_all add: instant_def timestamp_fields_def valid_date_def eval_digits is_digit_def
        days_in_month_def)
  have t: "''2026-12-31T23:59:59.999999Z'' =
      timestamp ''2026'' ''12'' ''31'' ''23'' ''59'' ''59'' (''.'' @ ''999999'' @ ''Z'')"
    "''2027-01-01T00:00:00.000000Z'' =
      timestamp ''2027'' ''01'' ''01'' ''00'' ''00'' ''00'' (''.'' @ ''000000'' @ ''Z'')"
    by (simp_all add: timestamp_def)
  have v: "nanos_of_fields ''2026'' ''12'' ''31'' ''23'' ''59'' ''59'' ''999999'' = 1798761599999999000"
    "nanos_of_fields ''2026'' ''12'' ''31'' ''23'' ''59'' ''59'' [] = 1798761599000000000"
    "nanos_of_fields ''2027'' ''01'' ''01'' ''00'' ''00'' ''00'' ''000000'' = 1798761600000000000"
    "nanos_of_fields ''2027'' ''01'' ''01'' ''00'' ''00'' ''00'' [] = 1798761600000000000"
    by (simp_all add: nanos_of_fields_def eval_digits civil_days_def days_before_year_def
        days_in_month_def leap_def days_before_month_numeral)
  have p: "ParseIso8601ToUnixNanos ?u ''2026-12-31T23:59:59.999999Z'' = Inr (Some 1798761599999999000)"
    "ParseIso8601ToUnixNanos ?u ''2027-01-01T00:00:00.000000Z'' = Inr (Some 1798761600000000000)"
    unfolding t using i v
    by (simp_all add: ParseIso8601_timestamp instant_def valid_date_def i64_range is_digit_def
        eval_digits)
  show ?thesis
    using parse_keeps_order [OF i refl refl p [unfolded t]] by (simp add: p Let_def t [symmetric])
qed

text \<open>
  Despite its comment, \<open>ReadDigits\<close> reads a minus sign: any field whose
  first character is one is accepted and negated, so a text that is no
  timestamp parses.
\<close>

theorem read_digits_accepts_minus:
  assumes "list_all is_digit f" and "f \<noteq> []" and "length f \<le> 17"
    and "take (Suc (length f)) (drop k str) = CHR ''-'' # f"
  shows "ReadDigits str k (Suc (length f)) = Some (- int (dec_value f))"
proof -
  have "length (take (Suc (length f)) (drop k str)) = Suc (length f)" using assms(4) by simp
  then have "k + Suc (length f) \<le> length str" by simp
  moreover have "dec_value f < 10 ^ length f" using dec_value_less [OF assms(1)] .
  then have "dec_value f < 10 ^ 17" using power_increasing [OF assms(3), of "10 :: nat"] by simp
  then have "in_i64 (- int (dec_value f))" by (simp add: i64_range)
  ultimately show ?thesis
    using assms by (simp add: ReadDigits_def from_chars_i64_def from_chars_def Let_def i64_range)
qed

theorem read_digits_accepts_minus_witness:
  "ReadDigits ''2026-10-04T-1:-2:-3Z'' 11 2 = Some (- 1)"
  using read_digits_accepts_minus [of "''1''" 11 "''2026-10-04T-1:-2:-3Z''"]
  by (simp add: is_digit_def eval_digits numeral_2_eq_2)

end
