(* ===== verification/Json.thy ===== *)
theory Json
  imports Prelude
begin

text \<open>
  core/json.cc: lookups in a parsed JSON tree that throw on a layout they do not
  expect. The tree is rapidjson's \<^verbatim>\<open>Value\<close>: members in the order of the text,
  duplicates kept. The parser itself is the vendored rapidjson and is a
  parameter of every definition that parses; with
  \<^verbatim>\<open>kParseNumbersAsStringsFlag\<close> it hands numbers over as strings.
\<close>

section \<open>Values\<close>

text \<open>A number keeps the text it was written with.\<close>

datatype json =
    IsNull: JNull
  | IsBool: JBool bool
  | IsNumber: JNumber string
  | IsString: JString string
  | IsArray: JArray "json list"
  | IsObject: JObject "(string \<times> json) list"

text \<open>
  \<^verbatim>\<open>GetString\<close> with \<^verbatim>\<open>GetStringLength\<close>, \<^verbatim>\<open>GetArray\<close>: the code reads them only of a
  value whose kind it has checked, so their value on other kinds is never used.
\<close>

fun GetString :: "json \<Rightarrow> string" where
  "GetString (JString s) = s"
| "GetString _ = []"

fun GetArray :: "json \<Rightarrow> json list" where
  "GetArray (JArray xs) = xs"
| "GetArray _ = []"

text \<open>A string read as a C string ends at its first NUL.\<close>

definition c_str :: "string \<Rightarrow> string" where
  "c_str s = takeWhile (\<lambda>c. c \<noteq> CHR 0x00) s"

text \<open>\<^verbatim>\<open>FindMember\<close> of an object: its first member of that name.\<close>

fun FindMember :: "json \<Rightarrow> string \<Rightarrow> json option" where
  "FindMember (JObject members) name = map_of members name"
| "FindMember _ name = None"

section \<open>core/json.cc\<close>

definition MalformedJsonField :: "string \<Rightarrow> exn" where
  "MalformedJsonField name =
     runtime_error (''Malformed frame: missing or mistyped '' @ [CHR 0x22] @ name @ [CHR 0x22])"

definition FindJsonMember :: "json \<Rightarrow> string \<Rightarrow> json option" where
  "FindJsonMember obj name = (if \<not> IsObject obj then None else FindMember obj name)"

definition RequireJsonMember :: "json \<Rightarrow> string \<Rightarrow> (json \<Rightarrow> bool) \<Rightarrow> json result" where
  "RequireJsonMember obj name is_kind =
     (case FindJsonMember obj name of
        None \<Rightarrow> Inl (MalformedJsonField name)
      | Some member \<Rightarrow> if \<not> is_kind member then Inl (MalformedJsonField name) else Inr member)"

definition RequireJsonString :: "json \<Rightarrow> string \<Rightarrow> string result" where
  "RequireJsonString obj name =
     bindR (RequireJsonMember obj name IsString) (\<lambda>member. Inr (GetString member))"

definition FindJsonString :: "json \<Rightarrow> string \<Rightarrow> string option result" where
  "FindJsonString obj name =
     (case FindJsonMember obj name of
        None \<Rightarrow> Inr None
      | Some member \<Rightarrow>
          if \<not> IsString member then Inl (MalformedJsonField name)
          else Inr (Some (GetString member)))"

section \<open>What the lookups return\<close>

lemma FindJsonMember_obj [simp]: "FindJsonMember (JObject ms) name = map_of ms name"
  by (simp add: FindJsonMember_def)

lemma FindJsonMember_Some:
  "FindJsonMember obj name = Some v \<longleftrightarrow> (\<exists>ms. obj = JObject ms \<and> map_of ms name = Some v)"
  by (cases obj) (simp_all add: FindJsonMember_def)

lemma RequireJsonMember_Inr [simp]:
  "RequireJsonMember obj name k = Inr v \<longleftrightarrow> FindJsonMember obj name = Some v \<and> k v"
  by (auto simp: RequireJsonMember_def split: option.splits)

lemma RequireJsonMember_Inl:
  "RequireJsonMember obj name k = Inl e \<Longrightarrow> e = MalformedJsonField name"
  by (auto simp: RequireJsonMember_def split: option.splits if_splits)

lemma RequireJsonString_eq:
  "RequireJsonString obj name =
     (case FindJsonMember obj name of Some (JString s) \<Rightarrow> Inr s | _ \<Rightarrow> Inl (MalformedJsonField name))"
  by (simp add: RequireJsonString_def RequireJsonMember_def split: option.split json.split)

lemma RequireJsonString_Inr [simp]:
  "RequireJsonString obj name = Inr s \<longleftrightarrow> FindJsonMember obj name = Some (JString s)"
  by (simp add: RequireJsonString_eq split: option.split json.split)

lemma RequireJsonString_Inl:
  "RequireJsonString obj name = Inl e \<longleftrightarrow>
     e = MalformedJsonField name \<and> (\<forall>s. FindJsonMember obj name \<noteq> Some (JString s))"
  by (auto simp: RequireJsonString_eq split: option.split json.split)

lemma FindJsonString_eq:
  "FindJsonString obj name =
     (case FindJsonMember obj name of
        None \<Rightarrow> Inr None
      | Some (JString s) \<Rightarrow> Inr (Some s)
      | _ \<Rightarrow> Inl (MalformedJsonField name))"
  by (simp add: FindJsonString_def split: option.split json.split)

lemma FindJsonString_Inr:
  "FindJsonString obj name = Inr r \<longleftrightarrow> FindJsonMember obj name = map_option JString r"
  by (cases r; auto simp: FindJsonString_eq split: option.splits json.splits)

lemma IsArray_iff: "IsArray v \<longleftrightarrow> (\<exists>vs. v = JArray vs)"
  by (cases v) simp_all

section \<open>The text a value takes\<close>

text \<open>
  The least number of characters a text has that the value is read from: brackets, quotes
  of names, colons and commas, and the characters of strings and numbers (an escape is
  longer than what it stands for; numbers kept as strings have no quotes).
\<close>

fun json_width :: "json \<Rightarrow> nat" where
  "json_width JNull = 4"
| "json_width (JBool b) = 4"
| "json_width (JNumber s) = length s"
| "json_width (JString s) = length s"
| "json_width (JArray vs) = 1 + sum_list (map (\<lambda>v. json_width v + 1) vs)"
| "json_width (JObject ms) = 1 + sum_list (map (\<lambda>m. length (fst m) + 4 + json_width (snd m)) ms)"

text \<open>A parser's values are read from the text it was given, so they are no wider.\<close>

definition json_within :: "(string \<Rightarrow> json option) \<Rightarrow> bool" where
  "json_within parse \<longleftrightarrow> (\<forall>str v. parse str = Some v \<longrightarrow> json_width v \<le> length str)"

definition member_width :: "string \<Rightarrow> json \<Rightarrow> nat" where
  "member_width name v = length name + 4 + json_width v"

lemma members_width:
  assumes "distinct names" and "\<And>name. name \<in> set names \<Longrightarrow> map_of ms name = Some (f name)"
  shows "sum_list (map (\<lambda>name. member_width name (f name)) names) \<le>
    sum_list (map (\<lambda>m. member_width (fst m) (snd m)) ms)"
  using assms
proof (induction ms arbitrary: names)
  case Nil
  then show ?case by (cases names) auto
next
  case (Cons m ms)
  have rest: "sum_list (map (\<lambda>name. member_width name (f name)) (remove1 (fst m) names)) \<le>
      sum_list (map (\<lambda>m. member_width (fst m) (snd m)) ms)"
  proof (rule Cons.IH)
    fix name
    assume "name \<in> set (remove1 (fst m) names)"
    then show "map_of ms name = Some (f name)" using Cons.prems(1) Cons.prems(2) [of name] by (cases m) auto
  qed (simp add: Cons.prems(1))
  show ?case
  proof (cases "fst m \<in> set names")
    case True
    then have "f (fst m) = snd m" using Cons.prems(2) [OF True] by simp
    moreover have "sum_list (map (\<lambda>name. member_width name (f name)) names) = member_width (fst m) (f (fst m)) +
        sum_list (map (\<lambda>name. member_width name (f name)) (remove1 (fst m) names))"
      by (rule sum_list_map_remove1 [OF True])
    ultimately show ?thesis using rest by simp
  next
    case False
    then show ?thesis using rest by (simp add: remove1_idem)
  qed
qed

lemma object_width:
  assumes "distinct names" and "names \<noteq> []"
    and "\<And>name. name \<in> set names \<Longrightarrow> FindJsonMember obj name = Some (f name)"
  shows "1 + sum_list (map (\<lambda>name. member_width name (f name)) names) \<le> json_width obj"
proof -
  obtain ms where "obj = JObject ms" using assms(2) assms(3) [of "hd names"] by (auto simp: FindJsonMember_Some)
  then show ?thesis using members_width [of names ms f] assms(1,3) by (simp add: member_width_def)
qed

lemma object_width1: "FindJsonMember obj name = Some v \<Longrightarrow> 1 + member_width name v \<le> json_width obj"
  using object_width [of "[name]" obj "\<lambda>_. v"] by simp

lemma object_width2:
  assumes "FindJsonMember obj n1 = Some v1" and "FindJsonMember obj n2 = Some v2" and "n1 \<noteq> n2"
  shows "1 + member_width n1 v1 + member_width n2 v2 \<le> json_width obj"
proof -
  let ?f = "\<lambda>n. if n = n1 then v1 else v2"
  have "1 + sum_list (map (\<lambda>n. member_width n (?f n)) [n1, n2]) \<le> json_width obj"
    by (rule object_width) (use assms in auto)
  then show ?thesis using assms(3) by simp
qed

lemma object_width3:
  assumes "FindJsonMember obj n1 = Some v1" and "FindJsonMember obj n2 = Some v2"
    and "FindJsonMember obj n3 = Some v3" and "distinct [n1, n2, n3]"
  shows "1 + member_width n1 v1 + member_width n2 v2 + member_width n3 v3 \<le> json_width obj"
proof -
  let ?f = "\<lambda>n. if n = n1 then v1 else if n = n2 then v2 else v3"
  have "1 + sum_list (map (\<lambda>n. member_width n (?f n)) [n1, n2, n3]) \<le> json_width obj"
    by (rule object_width) (use assms in auto)
  then show ?thesis using assms(4) by auto
qed

lemma array_width_member: "v \<in> set vs \<Longrightarrow> json_width v + 2 \<le> json_width (JArray vs)"
  using member_le_sum_list [of "json_width v + 1" "map (\<lambda>v. json_width v + 1) vs"] by auto

lemma array_width_each:
  "(\<And>v. v \<in> set vs \<Longrightarrow> n \<le> json_width v) \<Longrightarrow> length vs * (n + 1) < json_width (JArray vs)"
proof -
  assume "\<And>v. v \<in> set vs \<Longrightarrow> n \<le> json_width v"
  then have "length vs * (n + 1) \<le> sum_list (map (\<lambda>v. json_width v + 1) vs)" by (induction vs) force+
  then show ?thesis by simp
qed

end
