(* ===== verification/L2Message.thy ===== *)
theory L2Message
  imports Prelude
begin

text \<open>
  l2/message.h and l2/message.cc: one book change and its serialized layout,
  with l2/pair_precision.h and l2/book_spec.h. Multi-byte fields are in the
  byte order of the machine, the parameter \<open>little\<close> of every definition that
  writes or reads them.
\<close>

section \<open>Bytes of fixed width integers\<close>

type_synonym byte = "8 word"

fun le_bytes :: "nat \<Rightarrow> nat \<Rightarrow> byte list" where
  "le_bytes 0 v = []"
| "le_bytes (Suc n) v = of_nat (v mod 256) # le_bytes n (v div 256)"

fun le_value :: "byte list \<Rightarrow> nat" where
  "le_value [] = 0"
| "le_value (b # bs) = unat b + 256 * le_value bs"

definition native_bytes :: "bool \<Rightarrow> nat \<Rightarrow> nat \<Rightarrow> byte list" where
  "native_bytes little n v = (if little then le_bytes n v else rev (le_bytes n v))"

definition native_value :: "bool \<Rightarrow> byte list \<Rightarrow> nat" where
  "native_value little bs = le_value (if little then bs else rev bs)"

text \<open>A signed integer is in two's complement.\<close>

definition i64_bits :: "i64 \<Rightarrow> nat" where
  "i64_bits i = nat (i mod 2 ^ 64)"

definition i64_of_bits :: "nat \<Rightarrow> i64" where
  "i64_of_bits v = (if v < 2 ^ 63 then int v else int v - 2 ^ 64)"

lemma length_le_bytes [simp]: "length (le_bytes n v) = n"
  by (induction n arbitrary: v) auto

lemma length_native_bytes [simp]: "length (native_bytes little n v) = n"
  by (simp add: native_bytes_def)

lemma le_value_bytes: "le_value (le_bytes n v) = v mod 256 ^ n"
proof (induction n arbitrary: v)
  case 0
  then show ?case by simp
next
  case (Suc n)
  have "unat (of_nat (v mod 256) :: byte) = v mod 256"
    by (simp add: unat_of_nat)
  then show ?case by (simp add: Suc mod_mult2_eq)
qed

lemma native_value_bytes: "v < 256 ^ n \<Longrightarrow> native_value little (native_bytes little n v) = v"
  by (simp add: native_value_def native_bytes_def le_value_bytes)

lemma i64_of_bits_bits: "in_i64 i \<Longrightarrow> i64_of_bits (i64_bits i) = i"
proof -
  assume i: "in_i64 i"
  show ?thesis
  proof (cases "0 \<le> i")
    case True
    with i have "i mod 2 ^ 64 = i" by (intro mod_pos_pos_trivial) (auto simp: i64_range)
    with True i show ?thesis by (auto simp: i64_bits_def i64_of_bits_def i64_range nat_less_iff)
  next
    case False
    with i have "(i + 2 ^ 64) mod 2 ^ 64 = i + 2 ^ 64"
      by (intro mod_pos_pos_trivial) (auto simp: i64_range)
    then have "i mod 2 ^ 64 = i + 2 ^ 64" by simp
    with False i show ?thesis by (auto simp: i64_bits_def i64_of_bits_def i64_range nat_less_iff)
  qed
qed

lemma i64_bits_less: "i64_bits i < 2 ^ 64"
  by (simp add: i64_bits_def nat_less_iff)

section \<open>The message\<close>

record PairPrecision =
  price_decimals :: u32
  qty_decimals :: u32

text \<open>\<^verbatim>\<open>std::flat_map\<close> from symbols, see \<open>OrderedMap\<close>.\<close>

type_synonym PairPrecisionMap = "(string \<times> PairPrecision) list"

definition kFullDepth :: u32 where "kFullDepth = 0"

record BookSpec =
  bs_symbol :: string
  bs_depth :: u32

datatype Type = kUpdate | kSnapshot

fun Type_value :: "Type \<Rightarrow> nat" where
  "Type_value kUpdate = 0"
| "Type_value kSnapshot = 1"

record Level =
  price :: i64
  quantity :: i64

record Message =
  msg_type :: Type
  checksum :: u32
  venue_time_ns :: i64
  capture_time_ns :: i64
  msg_symbol :: string
  buys :: "Level list"
  sells :: "Level list"

text \<open>The integers of a message are i64s.\<close>

definition Level_ok :: "Level \<Rightarrow> bool" where
  "Level_ok l \<longleftrightarrow> in_i64 (price l) \<and> in_i64 (quantity l)"

definition Message_ok :: "Message \<Rightarrow> bool" where
  "Message_ok m \<longleftrightarrow> in_i64 (venue_time_ns m) \<and> in_i64 (capture_time_ns m) \<and>
     list_all Level_ok (buys m) \<and> list_all Level_ok (sells m)"

section \<open>Serialization\<close>

definition GetByteSize :: "Message \<Rightarrow> u64" where
  "GetByteSize m = 4 + 4 + 8 + 8 + 8 + of_nat (length (buys m)) * 16 + 8 + of_nat (length (sells m)) * 16"

text \<open>
  A span of the output is the buffer with the offset it starts at. Writing
  past the end of the buffer is undefined behaviour; the definition says so by
  writing there what \<^verbatim>\<open>memcpy\<close> would, beyond the end.
\<close>

type_synonym span = "byte list \<times> nat"

definition Write :: "span \<Rightarrow> byte list \<Rightarrow> span" where
  "Write out source =
     (if source = [] then out
      else (take (snd out) (fst out) @ source @ drop (snd out + length source) (fst out),
            snd out + length source))"

definition WriteValue :: "bool \<Rightarrow> span \<Rightarrow> nat \<Rightarrow> nat \<Rightarrow> span" where
  "WriteValue little out n v = Write out (native_bytes little n v)"

text \<open>A level as its raw bytes: two i64 without padding.\<close>

definition Level_bytes :: "bool \<Rightarrow> Level \<Rightarrow> byte list" where
  "Level_bytes little l =
     native_bytes little 8 (i64_bits (price l)) @ native_bytes little 8 (i64_bits (quantity l))"

definition WriteSide :: "bool \<Rightarrow> span \<Rightarrow> Level list \<Rightarrow> span" where
  "WriteSide little out side =
     (let byte_size = of_nat (length side) * 16 :: u64
      in Write (WriteValue little out 8 (unat byte_size)) (concat (map (Level_bytes little) side)))"

definition Serialize :: "bool \<Rightarrow> Message \<Rightarrow> byte list \<Rightarrow> (u64 \<times> byte list) result" where
  "Serialize little m out =
     (if of_nat (length out) < GetByteSize m
      then Inl (length_error ''l2::Message::Serialize: output buffer too small'')
      else let rest = WriteValue little (out, 0) 4 (Type_value (msg_type m));
               rest = WriteValue little rest 4 (unat (checksum m));
               rest = WriteValue little rest 8 (i64_bits (venue_time_ns m));
               rest = WriteValue little rest 8 (i64_bits (capture_time_ns m));
               rest = WriteSide little (WriteSide little rest (buys m)) (sells m)
           in Inr (GetByteSize m, fst rest))"

section \<open>The layout, as a reader sees it\<close>

text \<open>The layout comment of l2/message.h as one list of bytes, and a reader of it.\<close>

definition side_bytes :: "bool \<Rightarrow> Level list \<Rightarrow> byte list" where
  "side_bytes little side =
     native_bytes little 8 (length side * 16) @ concat (map (Level_bytes little) side)"

definition message_bytes :: "bool \<Rightarrow> Message \<Rightarrow> byte list" where
  "message_bytes little m =
     native_bytes little 4 (Type_value (msg_type m)) @ native_bytes little 4 (unat (checksum m)) @
     native_bytes little 8 (i64_bits (venue_time_ns m)) @ native_bytes little 8 (i64_bits (capture_time_ns m)) @
     side_bytes little (buys m) @ side_bytes little (sells m)"

definition read_value :: "bool \<Rightarrow> nat \<Rightarrow> byte list \<Rightarrow> (nat \<times> byte list) option" where
  "read_value little n bs =
     (if length bs < n then None else Some (native_value little (take n bs), drop n bs))"

fun read_levels :: "bool \<Rightarrow> nat \<Rightarrow> byte list \<Rightarrow> (Level list \<times> byte list) option" where
  "read_levels little 0 bs = Some ([], bs)"
| "read_levels little (Suc k) bs =
     (case read_value little 8 bs of None \<Rightarrow> None | Some (p, bs) \<Rightarrow>
      (case read_value little 8 bs of None \<Rightarrow> None | Some (q, bs) \<Rightarrow>
       map_option (\<lambda>(ls, bs). (\<lparr>price = i64_of_bits p, quantity = i64_of_bits q\<rparr> # ls, bs))
         (read_levels little k bs)))"

definition read_side :: "bool \<Rightarrow> byte list \<Rightarrow> (Level list \<times> byte list) option" where
  "read_side little bs =
     (case read_value little 8 bs of None \<Rightarrow> None | Some (n, bs) \<Rightarrow>
        if n mod 16 \<noteq> 0 then None else read_levels little (n div 16) bs)"

definition read_message :: "bool \<Rightarrow> string \<Rightarrow> byte list \<Rightarrow> (Message \<times> byte list) option" where
  "read_message little symbol bs =
     (case read_value little 4 bs of None \<Rightarrow> None | Some (t, bs) \<Rightarrow>
      (case read_value little 4 bs of None \<Rightarrow> None | Some (c, bs) \<Rightarrow>
       (case read_value little 8 bs of None \<Rightarrow> None | Some (vt, bs) \<Rightarrow>
        (case read_value little 8 bs of None \<Rightarrow> None | Some (ct, bs) \<Rightarrow>
         (case read_side little bs of None \<Rightarrow> None | Some (b, bs) \<Rightarrow>
          (case read_side little bs of None \<Rightarrow> None | Some (s, bs) \<Rightarrow>
           if t > 1 then None
           else Some (\<lparr>msg_type = (if t = 1 then kSnapshot else kUpdate), checksum = of_nat c,
                       venue_time_ns = i64_of_bits vt, capture_time_ns = i64_of_bits ct,
                       msg_symbol = symbol, buys = b, sells = s\<rparr>, bs)))))))"

section \<open>Lemmas\<close>

lemma length_Level_bytes [simp]: "length (Level_bytes little l) = 16"
  by (simp add: Level_bytes_def)

lemma length_side_concat [simp]: "length (concat (map (Level_bytes little) side)) = length side * 16"
  by (induction side) auto

lemma length_side_bytes [simp]: "length (side_bytes little side) = 8 + length side * 16"
  by (simp add: side_bytes_def)

lemma length_message_bytes:
  "length (message_bytes little m) = 40 + length (buys m) * 16 + length (sells m) * 16"
  by (simp add: message_bytes_def)

text \<open>A message that fits the address space has the size the function returns.\<close>

definition fits :: "Message \<Rightarrow> bool" where
  "fits m \<longleftrightarrow> 40 + length (buys m) * 16 + length (sells m) * 16 < 2 ^ 64"

lemma unat_GetByteSize:
  assumes "fits m"
  shows "unat (GetByteSize m) = length (message_bytes little m)"
proof -
  define n where "n = 40 + length (buys m) * 16 + length (sells m) * 16"
  have "GetByteSize m = of_nat n"
    by (simp add: GetByteSize_def n_def algebra_simps)
  moreover have "n < 2 ^ 64" using assms by (simp add: fits_def n_def)
  ultimately show ?thesis
    by (simp only: length_message_bytes n_def [symmetric] unat_of_nat_u64)
qed

lemma Write_append:
  "pos = length pre \<Longrightarrow>
     Write (pre @ rest, pos) source = (pre @ source @ drop (length source) rest, length (pre @ source))"
  by (simp add: Write_def)

lemma WriteSide_append:
  assumes "length side * 16 < 2 ^ 64" and "pos = length pre"
  shows "WriteSide little (pre @ rest, pos) side =
    (pre @ side_bytes little side @ drop (length (side_bytes little side)) rest,
     length (pre @ side_bytes little side))"
proof -
  have "unat (of_nat (length side) * 16 :: u64) = length side * 16"
    using assms unat_of_nat_u64 [of "length side * 16"] by simp
  then show ?thesis
    using assms(2) Write_append [of "length (pre @ native_bytes little 8 (length side * 16))"
        "pre @ native_bytes little 8 (length side * 16)" "drop 8 rest" "concat (map (Level_bytes little) side)"]
    by (simp add: WriteSide_def WriteValue_def Write_append side_bytes_def add.commute)
qed

lemma Serialize_eq:
  assumes "fits m" and "length out < 2 ^ 64"
  shows "Serialize little m out =
    (if length out < length (message_bytes little m)
     then Inl (length_error ''l2::Message::Serialize: output buffer too small'')
     else Inr (GetByteSize m, message_bytes little m @ drop (length (message_bytes little m)) out))"
proof -
  have size: "of_nat (length out) < GetByteSize m \<longleftrightarrow> length out < length (message_bytes little m)"
    using assms by (simp add: word_less_nat_alt unat_GetByteSize [OF assms(1), of little] unat_of_nat_u64)
  have sides: "length (buys m) * 16 < 2 ^ 64" "length (sells m) * 16 < 2 ^ 64"
    using assms(1) by (auto simp: fits_def)
  have first: "Write (out, 0) s = (s @ drop (length s) out, length s)" for s
    using Write_append [of 0 "[]" out s] by simp
  show ?thesis
    unfolding Serialize_def size Let_def WriteValue_def first
    by (simp add: Write_append WriteSide_append [OF sides(1)] WriteSide_append [OF sides(2)]
        append_assoc [symmetric] del: append_assoc)
      (simp add: message_bytes_def add.commute add.left_commute)
qed

lemma read_value_append [simp]:
  "v < 256 ^ n \<Longrightarrow> read_value little n (native_bytes little n v @ bs) = Some (v, bs)"
  by (simp add: read_value_def native_value_bytes)

lemma read_levels_append:
  "list_all Level_ok side \<Longrightarrow>
     read_levels little (length side) (concat (map (Level_bytes little) side) @ bs) = Some (side, bs)"
proof (induction side)
  case (Cons l side)
  have "i64_bits i < 256 ^ 8" for i using i64_bits_less [of i] by simp
  with Cons show ?case by (simp add: Level_bytes_def Level_ok_def i64_of_bits_bits)
qed simp

lemma read_side_append:
  "list_all Level_ok side \<Longrightarrow> length side * 16 < 2 ^ 64 \<Longrightarrow>
     read_side little (side_bytes little side @ bs) = Some (side, bs)"
  by (simp add: read_side_def side_bytes_def read_levels_append)

lemma read_message_append:
  assumes "Message_ok m" and "fits m"
  shows "read_message little (msg_symbol m) (message_bytes little m @ bs) = Some (m, bs)"
proof -
  have i: "i64_bits i < 256 ^ 8" for i using i64_bits_less [of i] by simp
  have c: "unat (checksum m) < 256 ^ 4" using unsigned_less [of "checksum m"] by simp
  have t: "Type_value (msg_type m) < 256 ^ 4" by (cases "msg_type m") simp_all
  have side: "length (buys m) * 16 < 2 ^ 64" "length (sells m) * 16 < 2 ^ 64"
    using assms(2) by (auto simp: fits_def)
  show ?thesis
    using assms(1) side i c t
    by (cases "msg_type m")
      (simp_all add: read_message_def message_bytes_def read_side_append Message_ok_def i64_of_bits_bits)
qed

section \<open>Properties\<close>

text \<open>
  C22. Serializing a message writes exactly the layout of the header comment: the
  buffer's first \<open>GetByteSize\<close> bytes read back as the message (its symbol comes
  from the file header), the bytes after them are untouched and the returned
  count is their number. A buffer too small by any amount is an exception.
\<close>

theorem serialize_round_trip:
  assumes "Message_ok m" and "fits m" and "length out < 2 ^ 64"
  shows "case Serialize little m out of
      Inl e \<Rightarrow> length out < unat (GetByteSize m) \<and>
        e = length_error ''l2::Message::Serialize: output buffer too small''
    | Inr (n, out') \<Rightarrow> unat (GetByteSize m) \<le> length out \<and> n = GetByteSize m \<and>
        length out' = length out \<and> drop (unat n) out' = drop (unat n) out \<and>
        read_message little (msg_symbol m) out' = Some (m, drop (unat n) out)"
  using assms read_message_append [OF assms(1,2), of little]
  by (simp add: Serialize_eq unat_GetByteSize [of m little])

theorem serialize_round_trip_witness:
  "case Serialize True \<lparr>msg_type = kSnapshot, checksum = 7, venue_time_ns = - 1, capture_time_ns = 5,
        msg_symbol = ''A'', buys = [\<lparr>price = 3, quantity = - 4\<rparr>], sells = []\<rparr> (replicate 60 0) of
      Inl e \<Rightarrow> False
    | Inr (n, out') \<Rightarrow> length out' = 60"
  using serialize_round_trip [of "\<lparr>msg_type = kSnapshot, checksum = 7, venue_time_ns = - 1,
      capture_time_ns = 5, msg_symbol = ''A'', buys = [\<lparr>price = 3, quantity = - 4\<rparr>], sells = []\<rparr>"
      "replicate 60 0" True]
  by (auto simp: Message_ok_def Level_ok_def fits_def i64_range GetByteSize_def
      split: sum.splits simp del: replicate_numeral)

end
