(* ===== verification/OrderedMap.thy ===== *)
theory OrderedMap
  imports Prelude
begin

text \<open>
  \<^verbatim>\<open>std::map\<close> and \<^verbatim>\<open>std::flat_map\<close> with a comparator: association lists kept
  strictly ordered by their keys. The locale states what a comparator promises;
  its lemmas are what the components that hold such maps rest on.
\<close>

section \<open>Operations\<close>

text \<open>\<^verbatim>\<open>insert_or_assign\<close>, \<^verbatim>\<open>erase\<close> and \<^verbatim>\<open>emplace\<close>, which keeps a key that is there. Lookup is \<open>map_of\<close>.\<close>

fun insert_or_assign :: "('k \<Rightarrow> 'k \<Rightarrow> bool) \<Rightarrow> 'k \<Rightarrow> 'v \<Rightarrow> ('k \<times> 'v) list \<Rightarrow> ('k \<times> 'v) list" where
  "insert_or_assign lt k v [] = [(k, v)]"
| "insert_or_assign lt k v ((k', v') # xs) =
     (if lt k k' then (k, v) # (k', v') # xs
      else if lt k' k then (k', v') # insert_or_assign lt k v xs
      else (k, v) # xs)"

fun erase :: "('k \<Rightarrow> 'k \<Rightarrow> bool) \<Rightarrow> 'k \<Rightarrow> ('k \<times> 'v) list \<Rightarrow> ('k \<times> 'v) list" where
  "erase lt k [] = []"
| "erase lt k ((k', v') # xs) =
     (if lt k k' then (k', v') # xs
      else if lt k' k then (k', v') # erase lt k xs
      else xs)"

definition emplace :: "('k \<Rightarrow> 'k \<Rightarrow> bool) \<Rightarrow> 'k \<Rightarrow> 'v \<Rightarrow> ('k \<times> 'v) list \<Rightarrow> ('k \<times> 'v) list" where
  "emplace lt k v m = (case map_of m k of None \<Rightarrow> insert_or_assign lt k v m | Some _ \<Rightarrow> m)"

definition ordered :: "('k \<Rightarrow> 'k \<Rightarrow> bool) \<Rightarrow> ('k \<times> 'v) list \<Rightarrow> bool" where
  "ordered lt m = sorted_wrt (\<lambda>a b. lt (fst a) (fst b)) m"

lemma ordered_Nil [simp]: "ordered lt []"
  by (simp add: ordered_def)

lemma ordered_Cons [simp]:
  "ordered lt (a # m) \<longleftrightarrow> (\<forall>b \<in> set m. lt (fst a) (fst b)) \<and> ordered lt m"
  by (simp add: ordered_def)

lemma ordered_take: "ordered lt m \<Longrightarrow> ordered lt (take n m)"
  by (simp add: ordered_def sorted_wrt_take)

lemma set_insert_or_assign_subset: "set (insert_or_assign lt k v m) \<subseteq> insert (k, v) (set m)"
  by (induction lt k v m rule: insert_or_assign.induct) auto

lemma set_erase_subset: "set (erase lt k m) \<subseteq> set m"
  by (induction lt k m rule: erase.induct) auto

section \<open>The comparator's contract\<close>

locale key_order =
  fixes lt :: "'k \<Rightarrow> 'k \<Rightarrow> bool"
  assumes irrefl: "\<not> lt k k"
    and trans: "lt a b \<Longrightarrow> lt b c \<Longrightarrow> lt a c"
    and total: "lt a b \<or> a = b \<or> lt b a"
begin

lemma asym: "lt a b \<Longrightarrow> \<not> lt b a"
  using irrefl trans by blast

lemma ordered_insert_or_assign [map_ops]:
  assumes "ordered lt m"
  shows "ordered lt (insert_or_assign lt k v m)"
  using assms
proof (induction m)
  case Nil
  then show ?case by simp
next
  case (Cons a m)
  obtain k' v' where a: "a = (k', v')" by fastforce
  consider "lt k k'" | "lt k' k" "\<not> lt k k'" | "k = k'" "\<not> lt k k'" using total [of k k'] irrefl by blast
  then show ?case
  proof cases
    case 1
    then show ?thesis using Cons.prems a by (auto intro: trans)
  next
    case 2
    then show ?thesis
      using Cons a set_insert_or_assign_subset [of lt k v m] by auto
  next
    case 3
    then show ?thesis using Cons.prems a by simp
  qed
qed

lemma ordered_erase [map_ops]:
  assumes "ordered lt m"
  shows "ordered lt (erase lt k m)"
  using assms
proof (induction m)
  case (Cons a m)
  then show ?case
    using set_erase_subset [of lt k m] by (cases a) auto
qed simp

lemma ordered_emplace [map_ops]: "ordered lt m \<Longrightarrow> ordered lt (emplace lt k v m)"
  by (simp add: emplace_def ordered_insert_or_assign split: option.split)

lemma map_of_insert_or_assign [map_ops]: "map_of (insert_or_assign lt k v m) = (map_of m)(k \<mapsto> v)"
proof (induction m)
  case (Cons a m)
  show ?case using Cons total [of k "fst a"] by (cases a) (auto simp: fun_upd_twist irrefl intro!: ext)
qed simp

lemma map_of_None_before: "ordered lt ((k', v') # m) \<Longrightarrow> lt k k' \<or> k = k' \<Longrightarrow> map_of m k = None"
  using trans irrefl by (fastforce simp: map_of_eq_None_iff)

lemma map_of_erase [map_ops]:
  assumes "ordered lt m"
  shows "map_of (erase lt k m) = (map_of m)(k := None)"
  using assms
proof (induction m)
  case (Cons a m)
  obtain k' v' where a: "a = (k', v')" by fastforce
  consider "lt k k'" | "lt k' k" "\<not> lt k k'" | "k = k'" using total by blast
  then show ?case
  proof cases
    case 1
    then have "k \<noteq> k'" using irrefl by blast
    with 1 show ?thesis
      using Cons.prems a map_of_None_before [of k' v' m k] by (auto intro!: ext)
  next
    case 2
    then have "k \<noteq> k'" using irrefl by blast
    with 2 show ?thesis using Cons a by (auto simp: fun_upd_twist)
  next
    case 3
    then show ?thesis
      using Cons.prems a map_of_None_before [of k' v' m k] irrefl by (auto intro!: ext)
  qed
qed simp

lemma map_of_emplace [map_ops]:
  "map_of (emplace lt k v m) = (if map_of m k = None then (map_of m)(k \<mapsto> v) else map_of m)"
  by (auto simp: emplace_def map_of_insert_or_assign split: option.split)

lemma ordered_distinct: "ordered lt m \<Longrightarrow> distinct (map fst m)"
proof (induction m)
  case (Cons a m)
  then show ?case using irrefl by auto
qed simp

lemma map_of_mem: "ordered lt m \<Longrightarrow> map_of m k = Some v \<longleftrightarrow> (k, v) \<in> set m"
  using ordered_distinct by (auto dest: map_of_SomeD)

text \<open>
  Two ordered maps have the same first \<open>d\<close> entries when each of the second's
  first \<open>d\<close> is in the first map and the first map has nothing else before them.
\<close>

lemma take_eqI:
  assumes "ordered lt xs" and "ordered lt ys"
    and "set (take d ys) \<subseteq> set xs"
    and "\<forall>x \<in> set xs. x \<in> set ys \<or> d \<le> length ys \<and> (\<forall>y \<in> set (take d ys). lt (fst y) (fst x))"
  shows "take d xs = take d ys"
  using assms
proof (induction d arbitrary: xs ys)
  case 0
  then show ?case by simp
next
  case (Suc d)
  show ?case
  proof (cases ys)
    case Nil
    with Suc.prems have "\<forall>x \<in> set xs. False" by auto
    with Nil show ?thesis by (cases xs) auto
  next
    case (Cons y ys')
    then obtain x xs' where xs: "xs = x # xs'" using Suc.prems(3) by (cases xs) auto
    have xy: "x = y"
    proof (rule ccontr)
      assume "x \<noteq> y"
      then have "lt (fst x) (fst y)" using Suc.prems(1,3) Cons xs by auto
      moreover have "lt (fst y) (fst x)" using Suc.prems(2,4) Cons xs \<open>x \<noteq> y\<close> by auto
      ultimately show False using asym by blast
    qed
    have "take d xs' = take d ys'"
    proof (rule Suc.IH)
      show "ordered lt xs'" "ordered lt ys'" using Suc.prems xs Cons by auto
      show "set (take d ys') \<subseteq> set xs'"
      proof
        fix z assume z: "z \<in> set (take d ys')"
        then have "lt (fst y) (fst z)" using Suc.prems(2) Cons by (auto dest: in_set_takeD)
        then have "z \<noteq> x" using xy irrefl by blast
        with z show "z \<in> set xs'" using Suc.prems(3) Cons xs by auto
      qed
      show "\<forall>x \<in> set xs'. x \<in> set ys' \<or> d \<le> length ys' \<and> (\<forall>y \<in> set (take d ys'). lt (fst y) (fst x))"
      proof
        fix z assume z: "z \<in> set xs'"
        then have "z \<noteq> y" using Suc.prems(1) xs xy irrefl by auto
        with z show "z \<in> set ys' \<or> d \<le> length ys' \<and> (\<forall>y \<in> set (take d ys'). lt (fst y) (fst z))"
          using Suc.prems(4) xs Cons by auto
      qed
    qed
    with xs Cons xy show ?thesis by simp
  qed
qed

text \<open>An ordered map is determined by its lookups.\<close>

lemma ordered_ext:
  assumes "ordered lt xs" and "ordered lt ys" and "map_of xs = map_of ys"
  shows "xs = ys"
proof -
  have s: "set xs = set ys"
    using map_of_mem [OF assms(1)] map_of_mem [OF assms(2)] assms(3) by auto
  then have "length xs = length ys"
    using ordered_distinct [OF assms(1)] ordered_distinct [OF assms(2)]
    by (metis distinct_card distinct_map)
  moreover have "take (length ys) xs = take (length ys) ys"
    using assms(1,2) s by (intro take_eqI) auto
  ultimately show ?thesis by simp
qed

end

section \<open>The comparators the code uses\<close>

text \<open>\<^verbatim>\<open>std::less\<close> on prices, \<^verbatim>\<open>std::greater\<close> on prices, \<^verbatim>\<open>std::less\<close> on strings and on identifiers.\<close>

interpretation price_less: key_order "(<) :: int \<Rightarrow> int \<Rightarrow> bool"
  by unfold_locales auto

interpretation price_greater: key_order "(>) :: int \<Rightarrow> int \<Rightarrow> bool"
  by unfold_locales auto

interpretation string_less: key_order "(<) :: string \<Rightarrow> string \<Rightarrow> bool"
  by unfold_locales auto

interpretation id_less: key_order "(<) :: u64 \<Rightarrow> u64 \<Rightarrow> bool"
  by unfold_locales auto

end
