(* ===== verification/L2Book.thy ===== *)
theory L2Book
  imports L2Message OrderedMap
begin

text \<open>
  l2/book.h and l2/book.cc: a pair's book at one depth. A side is a map from
  price to quantity, best price first: bids by \<^verbatim>\<open>std::greater\<close>, asks by
  \<^verbatim>\<open>std::less\<close>.
\<close>

section \<open>The code\<close>

type_synonym side = "(i64 \<times> i64) list"

record Book =
  bk_depth :: u32
  bk_bids :: side
  bk_asks :: side

definition Book_of_depth :: "u32 \<Rightarrow> Book" where
  "Book_of_depth depth = \<lparr>bk_depth = depth, bk_bids = [], bk_asks = []\<rparr>"

fun apply_level_loop :: "(i64 \<Rightarrow> i64 \<Rightarrow> bool) \<Rightarrow> Level list \<Rightarrow> side \<Rightarrow> side" where
  "apply_level_loop lt [] side = side"
| "apply_level_loop lt (level # levels) side =
     apply_level_loop lt levels
       (if quantity level = 0 then erase lt (price level) side
        else insert_or_assign lt (price level) (quantity level) side)"

definition ApplyLevels :: "(i64 \<Rightarrow> i64 \<Rightarrow> bool) \<Rightarrow> Level list \<Rightarrow> u32 \<Rightarrow> side \<Rightarrow> side" where
  "ApplyLevels lt levels depth side =
     (let side = apply_level_loop lt levels side
      in if depth \<noteq> kFullDepth \<and> length side > unat depth then take (unat depth) side else side)"

definition Book_Clear :: "Book \<Rightarrow> Book" where
  "Book_Clear b = b\<lparr>bk_bids := [], bk_asks := []\<rparr>"

definition Book_Apply :: "Message \<Rightarrow> Book \<Rightarrow> Book" where
  "Book_Apply message b =
     (let b = (if msg_type message = kSnapshot then Book_Clear b else b);
          b = b\<lparr>bk_bids := ApplyLevels (>) (buys message) (bk_depth b) (bk_bids b)\<rparr>
      in b\<lparr>bk_asks := ApplyLevels (<) (sells message) (bk_depth b) (bk_asks b)\<rparr>)"

section \<open>One side\<close>

text \<open>The levels a list of changes leaves, as a map: the last change of a price wins.\<close>

fun changed :: "Level list \<Rightarrow> (i64 \<rightharpoonup> i64) \<Rightarrow> (i64 \<rightharpoonup> i64)" where
  "changed [] m = m"
| "changed (l # ls) m =
     changed ls (m(price l := (if quantity l = 0 then None else Some (quantity l))))"

definition prices :: "Level list \<Rightarrow> i64 set" where
  "prices ls = price ` set ls"

lemma changed_other: "p \<notin> prices ls \<Longrightarrow> changed ls m p = m p"
  by (induction ls arbitrary: m) (auto simp: prices_def)

lemma changed_touched: "p \<in> prices ls \<Longrightarrow> changed ls m p = changed ls m' p"
proof (induction ls arbitrary: m m')
  case (Cons l ls)
  then show ?case
    by (cases "p \<in> prices ls") (auto simp: prices_def changed_other)
qed (simp add: prices_def)

text \<open>No quantity that is kept is zero, and the side fits its depth.\<close>

definition side_ok :: "(i64 \<Rightarrow> i64 \<Rightarrow> bool) \<Rightarrow> u32 \<Rightarrow> side \<Rightarrow> bool" where
  "side_ok lt depth side \<longleftrightarrow> ordered lt side \<and> (\<forall>(p, q) \<in> set side. q \<noteq> 0) \<and>
     (depth = kFullDepth \<or> length side \<le> unat depth)"

text \<open>The levels of a full side that a book of that depth holds.\<close>

definition top_levels :: "u32 \<Rightarrow> side \<Rightarrow> side" where
  "top_levels depth side = (if depth = kFullDepth then side else take (unat depth) side)"

text \<open>
  What a venue that maintains a book at that depth sends when its side goes from
  \<open>old\<close> to \<open>new\<close>: changes that are true of \<open>new\<close>, that cover every level that is
  new in the book, and every level of the book that is gone or changed, except
  those pushed out beyond the depth.
\<close>

definition side_change ::
    "(i64 \<Rightarrow> i64 \<Rightarrow> bool) \<Rightarrow> u32 \<Rightarrow> side \<Rightarrow> side \<Rightarrow> Level list \<Rightarrow> bool" where
  "side_change lt depth old new ls \<longleftrightarrow>
     (\<forall>p \<in> prices ls. changed ls Map.empty p = map_of new p) \<and>
     (\<forall>(p, q) \<in> set (top_levels depth new). p \<notin> prices ls \<longrightarrow> (p, q) \<in> set (top_levels depth old)) \<and>
     (\<forall>(p, q) \<in> set (top_levels depth old). p \<notin> prices ls \<longrightarrow> (p, q) \<in> set new \<or>
        depth \<noteq> kFullDepth \<and> unat depth \<le> length new \<and>
        (\<forall>(p', q') \<in> set (top_levels depth new). lt p' p))"

context key_order
begin

lemma ordered_level_step:
  fixes side :: "('k \<times> 'v) list"
  shows "ordered lt side \<Longrightarrow> ordered lt (erase lt k side) \<and> ordered lt (insert_or_assign lt k v side)"
  by (simp add: ordered_erase ordered_insert_or_assign)

end

text \<open>A book side's order is one of the two the book uses; both are key orders.\<close>

locale side_order = key_order lt for lt :: "i64 \<Rightarrow> i64 \<Rightarrow> bool"
begin

lemma loop_ordered: "ordered lt side \<Longrightarrow> ordered lt (apply_level_loop lt ls side)"
  by (induction ls arbitrary: side) (simp_all add: ordered_level_step)

lemma loop_map_of:
  "ordered lt side \<Longrightarrow> map_of (apply_level_loop lt ls side) = changed ls (map_of side)"
  by (induction ls arbitrary: side)
    (simp_all add: ordered_level_step map_of_erase map_of_insert_or_assign)

lemma loop_nonzero:
  "\<forall>(p, q) \<in> set side. q \<noteq> 0 \<Longrightarrow> \<forall>(p, q) \<in> set (apply_level_loop lt ls side). q \<noteq> 0"
proof (induction ls arbitrary: side)
  case (Cons l ls)
  have "\<forall>(p, q) \<in> set (if quantity l = 0 then erase lt (price l) side
      else insert_or_assign lt (price l) (quantity l) side). q \<noteq> 0"
    using Cons.prems set_erase_subset [of lt "price l" side]
      set_insert_or_assign_subset [of lt "price l" "quantity l" side] by auto
  with Cons.IH show ?case by simp
qed simp

lemma ApplyLevels_eq:
  "ApplyLevels lt ls depth side =
     (if depth = kFullDepth then apply_level_loop lt ls side
      else take (unat depth) (apply_level_loop lt ls side))"
  by (simp add: ApplyLevels_def Let_def)

lemma ApplyLevels_ok:
  assumes "ordered lt side" and "\<forall>(p, q) \<in> set side. q \<noteq> 0"
  shows "side_ok lt depth (ApplyLevels lt ls depth side)"
  using loop_ordered [OF assms(1), of ls] loop_nonzero [OF assms(2), of ls]
  by (auto simp: side_ok_def ApplyLevels_eq ordered_take dest: in_set_takeD)

lemma side_ok_Apply: "side_ok lt depth side \<Longrightarrow> side_ok lt depth (ApplyLevels lt ls depth side)"
  by (intro ApplyLevels_ok) (auto simp: side_ok_def)

lemma side_ok_Nil [simp]: "side_ok lt depth []"
  by (simp add: side_ok_def)

text \<open>
  The levels of the venue's side \<open>old\<close> that a book of that depth holds follow it
  to its next state \<open>new\<close> when the changes are true of \<open>new\<close> and cover what
  enters those levels and what leaves them other than by being pushed out.
\<close>

lemma ApplyLevels_tracks:
  assumes old: "ordered lt old" and new: "ordered lt new" and change: "side_change lt depth old new ls"
  shows "ApplyLevels lt ls depth (top_levels depth old) = top_levels depth new"
proof -
  let ?top = "top_levels depth old"
  let ?xs = "apply_level_loop lt ls ?top"
  have top: "ordered lt ?top" using old by (simp add: top_levels_def ordered_take)
  have xs: "ordered lt ?xs" using top by (rule loop_ordered)
  have mem: "(p, q) \<in> set ?xs \<longleftrightarrow>
      (if p \<in> prices ls then (p, q) \<in> set new else (p, q) \<in> set ?top)" for p q
  proof -
    have *: "changed ls (map_of ?top) p = (if p \<in> prices ls then map_of new p else map_of ?top p)"
      using change changed_touched [of p ls "map_of ?top" Map.empty] changed_other [of p ls "map_of ?top"]
      by (simp add: side_change_def)
    have "(p, q) \<in> set ?xs \<longleftrightarrow> changed ls (map_of ?top) p = Some q"
      by (simp add: map_of_mem [OF xs, symmetric] loop_map_of [OF top])
    then show ?thesis unfolding * by (simp add: map_of_mem [OF new] map_of_mem [OF top])
  qed
  show ?thesis
  proof (cases "depth = kFullDepth")
    case True
    have "(p, q) \<in> set new \<Longrightarrow> p \<notin> prices ls \<Longrightarrow> (p, q) \<in> set ?top"
      and "(p, q) \<in> set ?top \<Longrightarrow> p \<notin> prices ls \<Longrightarrow> (p, q) \<in> set new" for p q
      using change unfolding side_change_def top_levels_def if_P [OF True] by (auto simp: True)
    then have "x \<in> set ?xs \<longleftrightarrow> x \<in> set new" for x
      using mem [of "fst x" "snd x"] by (metis prod.collapse)
    then have "set ?xs = set new" by blast
    then have "?xs = new"
      using map_of_mem [OF xs] map_of_mem [OF new]
      by (intro ordered_ext [OF xs new] ext) (metis not_Some_eq)
    then show ?thesis by (simp add: ApplyLevels_eq True) (simp add: top_levels_def True)
  next
    case False
    let ?d = "unat depth"
    have "take ?d ?xs = take ?d new"
    proof (rule take_eqI [OF xs new])
      show "set (take ?d new) \<subseteq> set ?xs"
        using change mem False by (fastforce simp: side_change_def top_levels_def dest: in_set_takeD)
      show "\<forall>x \<in> set ?xs. x \<in> set new \<or> ?d \<le> length new \<and> (\<forall>y \<in> set (take ?d new). lt (fst y) (fst x))"
        using change mem False by (fastforce simp: side_change_def top_levels_def split: if_splits)
    qed
    then show ?thesis using False by (simp add: ApplyLevels_eq top_levels_def)
  qed
qed

end

interpretation bids: side_order "(>) :: i64 \<Rightarrow> i64 \<Rightarrow> bool"
  by unfold_locales

interpretation asks: side_order "(<) :: i64 \<Rightarrow> i64 \<Rightarrow> bool"
  by unfold_locales

section \<open>The book\<close>

definition Book_ok :: "Book \<Rightarrow> bool" where
  "Book_ok b \<longleftrightarrow> side_ok (>) (bk_depth b) (bk_bids b) \<and> side_ok (<) (bk_depth b) (bk_asks b)"

lemma Book_Apply_simps [simp]:
  "bk_depth (Book_Apply m b) = bk_depth b"
  "bk_bids (Book_Apply m b) = ApplyLevels (>) (buys m) (bk_depth b) (if msg_type m = kSnapshot then [] else bk_bids b)"
  "bk_asks (Book_Apply m b) = ApplyLevels (<) (sells m) (bk_depth b) (if msg_type m = kSnapshot then [] else bk_asks b)"
  by (simp_all add: Book_Apply_def Book_Clear_def Let_def)

lemma Book_of_depth_ok [simp]: "Book_ok (Book_of_depth depth)"
  by (simp add: Book_ok_def Book_of_depth_def)

lemma Book_Clear_ok: "Book_ok (Book_Clear b)"
  by (simp add: Book_ok_def Book_Clear_def)

lemma Book_Apply_ok: "Book_ok b \<Longrightarrow> Book_ok (Book_Apply m b)"
  by (simp add: Book_ok_def bids.side_ok_Apply asks.side_ok_Apply)

lemma bk_depth_of_depth [simp]: "bk_depth (Book_of_depth depth) = depth"
  by (simp add: Book_of_depth_def)

text \<open>The book a stream of messages leaves.\<close>

definition replay :: "u32 \<Rightarrow> Message list \<Rightarrow> Book" where
  "replay depth ms = fold Book_Apply ms (Book_of_depth depth)"

lemma depth_fold [simp]: "bk_depth (fold Book_Apply ms b) = bk_depth b"
  by (induction ms arbitrary: b) simp_all

lemma fold_ok: "Book_ok b \<Longrightarrow> Book_ok (fold Book_Apply ms b)"
  by (induction ms arbitrary: b) (simp_all add: Book_Apply_ok)

lemma snapshot_forgets:
  assumes "msg_type m = kSnapshot"
  shows "Book_Apply m b = Book_Apply m (Book_of_depth (bk_depth b))"
  using assms by (simp add: Book_Apply_def Book_Clear_def Book_of_depth_def Let_def)

text \<open>
  A venue's book, both sides in full, and the messages a subscription at a depth
  gets of it: a snapshot at some point, and changes from there on.
\<close>

definition full_book :: "Book \<Rightarrow> bool" where
  "full_book v \<longleftrightarrow> ordered (>) (bk_bids v) \<and> ordered (<) (bk_asks v)"

definition book_change :: "u32 \<Rightarrow> Book \<Rightarrow> Book \<Rightarrow> Message \<Rightarrow> bool" where
  "book_change depth v v' m \<longleftrightarrow>
     side_change (>) depth (bk_bids v) (bk_bids v') (buys m) \<and>
     side_change (<) depth (bk_asks v) (bk_asks v') (sells m)"

inductive venue_feed :: "u32 \<Rightarrow> Message list \<Rightarrow> Book \<Rightarrow> bool" for depth where
  snapshot: "full_book v \<Longrightarrow> msg_type m = kSnapshot \<Longrightarrow>
     book_change depth (Book_of_depth depth) v m \<Longrightarrow> venue_feed depth (before @ [m]) v"
| update: "venue_feed depth ms v \<Longrightarrow> full_book v' \<Longrightarrow> msg_type m = kUpdate \<Longrightarrow>
     book_change depth v v' m \<Longrightarrow> venue_feed depth (ms @ [m]) v'"

inductive_cases venue_feed_Nil [elim!]: "venue_feed depth [] v"

lemma venue_feed_full: "venue_feed depth ms v \<Longrightarrow> full_book v"
  by (induction rule: venue_feed.induct) simp_all

definition book_top :: "u32 \<Rightarrow> Book \<Rightarrow> Book" where
  "book_top depth v =
     \<lparr>bk_depth = depth, bk_bids = top_levels depth (bk_bids v), bk_asks = top_levels depth (bk_asks v)\<rparr>"

lemma top_levels_Nil [simp]: "top_levels depth [] = []"
  by (simp add: top_levels_def)

lemma Book_Apply_tracks:
  assumes "full_book v" and "full_book v'" and "book_change depth v v' m"
    and "msg_type m = kSnapshot \<Longrightarrow> v = Book_of_depth depth"
    and "bk_depth b = depth" and "msg_type m = kUpdate \<Longrightarrow> b = book_top depth v"
  shows "Book_Apply m b = book_top depth v'"
proof (rule Book.equality)
  have sides: "(if msg_type m = kSnapshot then [] else bk_bids b) = top_levels depth (bk_bids v)"
    "(if msg_type m = kSnapshot then [] else bk_asks b) = top_levels depth (bk_asks v)"
    using assms(4,6) by (cases "msg_type m"; simp add: Book_of_depth_def book_top_def)+
  show "bk_bids (Book_Apply m b) = bk_bids (book_top depth v')"
    "bk_asks (Book_Apply m b) = bk_asks (book_top depth v')"
    unfolding Book_Apply_simps sides assms(5) using assms(1-3)
    by (simp_all add: book_top_def full_book_def book_change_def bids.ApplyLevels_tracks
        asks.ApplyLevels_tracks)
qed (simp_all add: assms(5) book_top_def)

lemma full_book_empty [simp]: "full_book (Book_of_depth depth)"
  by (simp add: full_book_def Book_of_depth_def)

section \<open>Properties\<close>

text \<open>
  Whatever messages it has seen, a book holds each side in price order, best
  first and every price once, holds no zero quantity and at most its depth (any
  number at the full depth), and a snapshot makes it depend on nothing before it.
\<close>

theorem book_replay_invariant:
  assumes "msg_type m = kSnapshot"
  shows "Book_ok (replay depth (ms @ m # ms')) \<and>
    replay depth (ms @ m # ms') = replay depth (m # ms')"
  using snapshot_forgets [OF assms, of "fold Book_Apply ms (Book_of_depth depth)"]
    depth_fold [of ms "Book_of_depth depth"]
  by (simp add: replay_def fold_ok Book_Apply_ok)

theorem book_replay_invariant_witness:
  "let m = \<lparr>msg_type = kSnapshot, checksum = 0, venue_time_ns = 0, capture_time_ns = 0, msg_symbol = [],
         buys = [\<lparr>price = 5, quantity = 1\<rparr>, \<lparr>price = 7, quantity = 0\<rparr>, \<lparr>price = 9, quantity = 2\<rparr>],
         sells = []\<rparr>
   in Book_ok (replay 1 ([m] @ m # [])) \<and> bk_bids (replay 1 [m, m]) = [(9, 2)]"
proof -
  let ?m = "\<lparr>msg_type = kSnapshot, checksum = 0, venue_time_ns = 0, capture_time_ns = 0, msg_symbol = [],
         buys = [\<lparr>price = 5, quantity = 1\<rparr>, \<lparr>price = 7, quantity = 0\<rparr>, \<lparr>price = 9, quantity = 2\<rparr>],
         sells = []\<rparr>"
  have "bk_bids (replay 1 [?m, ?m]) = [(9, 2)]"
    by (simp add: replay_def ApplyLevels_def kFullDepth_def Book_of_depth_def)
  then show ?thesis
    using conjunct1 [OF book_replay_invariant [of ?m 1 "[?m]" "[]"]] by (simp add: Let_def)
qed

text \<open>
  C10. A book of limited depth is the top of the venue's: from a snapshot on, if
  every message is true of the venue's next book and covers what enters and
  leaves its first levels except what is pushed out, then after every message
  the book equals the venue's best levels up to its depth (the whole venue book
  at the full depth). This is what dropping the levels beyond the depth is for.
\<close>

theorem book_tracks_venue:
  assumes "venue_feed depth ms v"
  shows "replay depth ms = book_top depth v"
  using assms
proof (induction rule: venue_feed.induct)
  case (snapshot v m before)
  then show ?case
    by (auto simp: replay_def Book_of_depth_def intro!: Book_Apply_tracks [OF full_book_empty])
next
  case (update ms v v' m)
  then have "full_book v" by (auto dest: venue_feed_full)
  with update have "Book_Apply m (book_top depth v) = book_top depth v'"
    by (intro Book_Apply_tracks) (auto simp: book_top_def)
  with update show ?case by (simp add: replay_def)
qed

theorem book_tracks_venue_witness:
  "let msg = \<lambda>t b s. \<lparr>msg_type = t, checksum = 0, venue_time_ns = 0, capture_time_ns = 0, msg_symbol = [],
         buys = map (\<lambda>(p, q). \<lparr>price = p, quantity = q\<rparr>) b, sells = map (\<lambda>(p, q). \<lparr>price = p, quantity = q\<rparr>) s\<rparr>
   in replay 2 [msg kSnapshot [(9, 1), (8, 1)] [(10, 4)], msg kUpdate [(9, 0), (7, 3)] [(11, 1)]] =
      \<lparr>bk_depth = 2, bk_bids = [(8, 1), (7, 3)], bk_asks = [(10, 4), (11, 1)]\<rparr>"
proof -
  define msg where "msg = (\<lambda>t b s. \<lparr>msg_type = t, checksum = 0, venue_time_ns = 0, capture_time_ns = 0,
    msg_symbol = [], buys = map (\<lambda>(p, q). \<lparr>price = p, quantity = q\<rparr>) b,
    sells = map (\<lambda>(p, q). \<lparr>price = p, quantity = q\<rparr>) s\<rparr>)"
  let ?v = "\<lparr>bk_depth = 0, bk_bids = [(9, 1), (8, 1), (7, 3)], bk_asks = [(10, 4)]\<rparr>"
  let ?w = "\<lparr>bk_depth = 0, bk_bids = [(8, 1), (7, 3)], bk_asks = [(10, 4), (11, 1), (12, 5)]\<rparr>"
  note defs = full_book_def book_change_def side_change_def prices_def top_levels_def kFullDepth_def
    msg_def Book_of_depth_def
  have "venue_feed 2 ([] @ [msg kSnapshot [(9, 1), (8, 1)] [(10, 4)]]) ?v"
    by (rule venue_feed.snapshot) (simp_all add: defs)
  then have "venue_feed 2 (([] @ [msg kSnapshot [(9, 1), (8, 1)] [(10, 4)]]) @
      [msg kUpdate [(9, 0), (7, 3)] [(11, 1)]]) ?w"
    by (rule venue_feed.update) (simp_all add: defs)
  from book_tracks_venue [OF this] show ?thesis
    unfolding Let_def msg_def [symmetric] by (simp add: book_top_def top_levels_def kFullDepth_def)
qed

end
