(* ===== verification/L2FileHeader.thy ===== *)
theory L2FileHeader
  imports L2Message
begin

text \<open>
  l2/file_header.h and l2/file_header.cc: the 64 byte preamble of a recording,
  written as the struct's raw bytes (it has no padding), and a reader of it.
\<close>

section \<open>The code\<close>

type_synonym Text = string

record FileHeader =
  fh_magic :: string
  fh_format_version :: u32
  fh_depth :: u32
  fh_price_decimals :: u32
  fh_qty_decimals :: u32
  fh_start_time_ns :: i64
  fh_venue :: Text
  fh_symbol :: Text

definition kMagic :: string where
  "kMagic = ''KRKNL2'' @ [CHR 0x00, CHR 0x00]"

definition kFormatVersion :: u32 where "kFormatVersion = 1"

definition kTextSize :: nat where "kTextSize = 16"

definition ToFixedText :: "string \<Rightarrow> Text" where
  "ToFixedText v =
     (let n = min (length v) kTextSize
      in take n v @ replicate (kTextSize - n) (CHR 0x00))"

definition MakeFileHeader :: "string \<Rightarrow> BookSpec \<Rightarrow> PairPrecision \<Rightarrow> i64 \<Rightarrow> FileHeader" where
  "MakeFileHeader venue book precision start_time_ns =
     \<lparr>fh_magic = kMagic,
      fh_format_version = kFormatVersion,
      fh_depth = bs_depth book,
      fh_price_decimals = price_decimals precision,
      fh_qty_decimals = qty_decimals precision,
      fh_start_time_ns = start_time_ns,
      fh_venue = ToFixedText venue,
      fh_symbol = ToFixedText (bs_symbol book)\<rparr>"

text \<open>The header as \<^verbatim>\<open>reinterpret_cast<const char*>(&header_)\<close> shows it.\<close>

definition header_bytes :: "bool \<Rightarrow> FileHeader \<Rightarrow> byte list" where
  "header_bytes little h =
     map of_char (fh_magic h) @ native_bytes little 4 (unat (fh_format_version h)) @
     native_bytes little 4 (unat (fh_depth h)) @ native_bytes little 4 (unat (fh_price_decimals h)) @
     native_bytes little 4 (unat (fh_qty_decimals h)) @
     native_bytes little 8 (i64_bits (fh_start_time_ns h)) @
     map of_char (fh_venue h) @ map of_char (fh_symbol h)"

section \<open>A reader\<close>

definition read_text :: "byte list \<Rightarrow> string" where
  "read_text bs = takeWhile (\<lambda>c. c \<noteq> CHR 0x00) (map (\<lambda>b. char_of (unat b)) bs)"

text \<open>
  The fields at the offsets of the format, refused unless the magic (KRKNL2, zero
  padded) and the version, 1, are right.
\<close>

definition read_header :: "bool \<Rightarrow> byte list \<Rightarrow> (PairPrecision \<times> BookSpec \<times> i64 \<times> string) option" where
  "read_header little bs =
     (if length bs < 64 \<or> take 8 bs \<noteq> [0x4B, 0x52, 0x4B, 0x4E, 0x4C, 0x32, 0, 0] \<or>
         native_value little (take 4 (drop 8 bs)) \<noteq> 1
      then None
      else let v = (\<lambda>off n. native_value little (take n (drop off bs)))
           in Some (\<lparr>price_decimals = of_nat (v 16 4), qty_decimals = of_nat (v 20 4)\<rparr>,
                    \<lparr>bs_symbol = read_text (take 16 (drop 48 bs)), bs_depth = of_nat (v 12 4)\<rparr>,
                    i64_of_bits (v 24 8),
                    read_text (take 16 (drop 32 bs))))"

section \<open>Lemmas\<close>

lemma length_ToFixedText [simp]: "length (ToFixedText v) = 16"
  by (simp add: ToFixedText_def kTextSize_def Let_def del: replicate_numeral)

lemma length_kMagic [simp]: "length kMagic = 8"
  by (simp add: kMagic_def)

lemma length_header_bytes:
  "length (header_bytes little (MakeFileHeader venue book precision t)) = 64"
  by (simp add: header_bytes_def MakeFileHeader_def)

lemma char_of_byte: "char_of (unat (of_char c :: byte)) = c"
proof -
  have "unat (of_char c :: byte) = of_char c"
  proof -
    have "(of_char c :: byte) = of_nat (of_char c)" by (cases c) (simp add: of_char_def)
    moreover have "(of_char c :: nat) < 256" using nat_of_char_less_256 [of c] by simp
    ultimately show ?thesis by (simp add: unat_of_nat)
  qed
  then show ?thesis by simp
qed

lemma read_text_map: "read_text (map of_char xs) = takeWhile (\<lambda>c. c \<noteq> CHR 0x00) xs"
proof -
  have "map (\<lambda>b :: byte. char_of (unat b)) (map of_char xs) = xs"
    by (induction xs) (simp_all add: char_of_byte)
  then show ?thesis by (simp only: read_text_def)
qed

text \<open>What a text field of 16 characters gives back: a name ends at a NUL or where the field is full.\<close>

definition header_text :: "string \<Rightarrow> string" where
  "header_text v = takeWhile (\<lambda>c. c \<noteq> CHR 0x00) (take 16 v)"

lemma header_text_whole: "length v \<le> 16 \<Longrightarrow> CHR 0x00 \<notin> set v \<Longrightarrow> header_text v = v"
  by (auto simp: header_text_def takeWhile_eq_all_conv)

lemma read_text_fixed: "read_text (map of_char (ToFixedText v)) = header_text v"
proof -
  have "takeWhile (\<lambda>c. c \<noteq> CHR 0x00) (xs @ replicate k (CHR 0x00)) = takeWhile (\<lambda>c. c \<noteq> CHR 0x00) xs" for xs k
    by (induction xs) (cases k, simp_all)
  from this [of "take (min (length v) 16) v"] show ?thesis
    by (simp only: read_text_map ToFixedText_def kTextSize_def Let_def header_text_def)
      (simp add: min_def del: replicate_numeral)
qed

lemma kMagic_bytes: "map of_char kMagic = [0x4B, 0x52, 0x4B, 0x4E, 0x4C, 0x32, 0, 0 :: byte]"
  by (simp add: kMagic_def)

section \<open>Properties\<close>

text \<open>
  C35. What a recording says of itself: its first 64 bytes read back as the depth,
  the decimals of price and quantity and the start time it was made from, and, of
  the venue's and the symbol's name, as much as the text fields hold: the first 16
  characters, up to a NUL if there is one among them. A name of at most 16
  characters without NUL so reads back whole; of a longer symbol, which the
  venues' checks allow up to 32 characters, the rest is lost.
\<close>

theorem header_round_trip:
  assumes "in_i64 t"
  shows "length (header_bytes little (MakeFileHeader venue book precision t)) = 64 \<and>
    read_header little (header_bytes little (MakeFileHeader venue book precision t) @ records) =
      Some (precision, \<lparr>bs_symbol = header_text (bs_symbol book), bs_depth = bs_depth book\<rparr>, t, header_text venue) \<and>
    (length venue \<le> 16 \<longrightarrow> CHR 0x00 \<notin> set venue \<longrightarrow> header_text venue = venue) \<and>
    (length (bs_symbol book) \<le> 16 \<longrightarrow> CHR 0x00 \<notin> set (bs_symbol book) \<longrightarrow>
       header_text (bs_symbol book) = bs_symbol book)"
proof -
  let ?h = "MakeFileHeader venue book precision t"
  define m where "m = [0x4B, 0x52, 0x4B, 0x4E, 0x4C, 0x32, 0, 0 :: byte]"
  define f where "f = native_bytes little 4 (unat kFormatVersion)"
  define d where "d = native_bytes little 4 (unat (bs_depth book))"
  define p where "p = native_bytes little 4 (unat (price_decimals precision))"
  define q where "q = native_bytes little 4 (unat (qty_decimals precision))"
  define s where "s = native_bytes little 8 (i64_bits t)"
  define v where "v = map (of_char :: char \<Rightarrow> byte) (ToFixedText venue)"
  define y where "y = map (of_char :: char \<Rightarrow> byte) (ToFixedText (bs_symbol book))"
  note defs = m_def f_def d_def p_def q_def s_def v_def y_def
  have l: "length m = 8" "length f = 4" "length d = 4" "length p = 4" "length q = 4" "length s = 8"
    "length v = 16" "length y = 16" by (simp_all add: defs)
  have h: "header_bytes little ?h @ records = m @ f @ d @ p @ q @ s @ v @ y @ records"
    by (simp add: header_bytes_def MakeFileHeader_def defs kMagic_bytes)
  have u: "unat (w :: u32) < 256 ^ 4" for w using unsigned_less [of w] by simp
  have b: "i64_bits t < 256 ^ 8" using i64_bits_less [of t] by simp
  have nums: "native_value little f = 1" "native_value little d = unat (bs_depth book)"
    "native_value little p = unat (price_decimals precision)"
    "native_value little q = unat (qty_decimals precision)" "native_value little s = i64_bits t"
    unfolding defs native_value_bytes [OF u] native_value_bytes [OF b] by (simp_all add: kFormatVersion_def)
  have texts: "read_text v = header_text venue" "read_text y = header_text (bs_symbol book)"
    by (simp_all add: defs read_text_fixed)
  show ?thesis
    unfolding h read_header_def using l nums texts assms header_text_whole
    by (simp add: length_header_bytes m_def [symmetric] i64_of_bits_bits Let_def)
qed

theorem header_round_trip_witness:
  "read_header False (header_bytes False (MakeFileHeader ''kraken'' \<lparr>bs_symbol = ''BTC/USD'', bs_depth = 10\<rparr>
       \<lparr>price_decimals = 1, qty_decimals = 8\<rparr> 17)) =
     Some (\<lparr>price_decimals = 1, qty_decimals = 8\<rparr>, \<lparr>bs_symbol = ''BTC/USD'', bs_depth = 10\<rparr>, 17, ''kraken'')"
  using header_round_trip [where t = 17 and little = False and venue = "''kraken''" and records = "[]" and
      book = "\<lparr>bs_symbol = ''BTC/USD'', bs_depth = 10\<rparr>" and precision = "\<lparr>price_decimals = 1, qty_decimals = 8\<rparr>"]
  by (simp add: i64_range header_text_whole)

end
