(* ===== verification/L2FileWriter.thy ===== *)
theory L2FileWriter
  imports L2FileHeader "HOL-Library.AList"
begin

text \<open>
  l2/file_writer.h and l2/file_writer.cc: the recordings of one pair. The
  directory the writer runs in is a map from names to contents. What the code
  takes from outside (the clocks, whether an open, a write or a rename succeeds)
  is an argument of each operation, one record \<open>io\<close> per queue entry; a failed
  write names how many bytes reached the file before it. The open file is known by
  its name, which it keeps while it is open. The queue itself is
  in Spsc; here the writer's thread consumes a list of entries.
\<close>

section \<open>The directory\<close>

type_synonym files = "(string \<times> byte list) list"

abbreviation file_exists :: "files \<Rightarrow> string \<Rightarrow> bool" where
  "file_exists fs p \<equiv> map_of fs p \<noteq> None"

text \<open>\<^verbatim>\<open>std::ofstream::open\<close> truncates the file, a write appends at its end.\<close>

definition open_file :: "string \<Rightarrow> files \<Rightarrow> files" where
  "open_file p fs = AList.update p [] fs"

definition write_file :: "string \<Rightarrow> byte list \<Rightarrow> nat option \<Rightarrow> files \<Rightarrow> files" where
  "write_file p bs failed_after fs =
     AList.update p ((case map_of fs p of None \<Rightarrow> [] | Some old \<Rightarrow> old) @
       (case failed_after of None \<Rightarrow> bs | Some n \<Rightarrow> take n bs)) fs"

definition rename_file :: "string \<Rightarrow> string \<Rightarrow> files \<Rightarrow> files" where
  "rename_file p q fs = AList.update q ((case map_of fs p of None \<Rightarrow> [] | Some old \<Rightarrow> old)) (AList.delete p fs)"

record io =
  unix_nanos_now :: i64
  unix_time_now :: i64
  open_ok :: bool
  header_fails_after :: "nat option"
  write_fails_after :: "nat option"
  rename_ok :: bool

section \<open>The code\<close>

definition kMaxQueuedMessages :: nat where "kMaxQueuedMessages = 256"

record FileWriter =
  symbol_stem :: string
  fw_header :: FileHeader
  file_stem :: string
  fw_path :: string
  output_open :: bool
  messages_in_file :: u64
  buffer :: "byte list"
  fw_failed :: bool

text \<open>\<^verbatim>\<open>/\<close> of i64: towards zero.\<close>

definition i64_quot :: "i64 \<Rightarrow> i64 \<Rightarrow> i64" where
  "i64_quot a b = (if a < 0 then - (- a div b) else a div b)"

definition numbered_path :: "string \<Rightarrow> i64 \<Rightarrow> nat \<Rightarrow> string" where
  "numbered_path stem end_s n =
     stem @ ''-'' @ int_to_dec end_s @ ''-'' @ nat_to_dec n @ ''.bin''"

lemma numbered_path_inj [simp]: "numbered_path stem e m = numbered_path stem e n \<longleftrightarrow> m = n"
  by (simp add: numbered_path_def)

lemma finite_taken: "finite {m. n \<le> m \<and> file_exists fs (numbered_path stem e m)}"
proof (rule finite_subset)
  show "finite (numbered_path stem e -` dom (map_of fs))"
    by (rule finite_vimageI) (auto simp: finite_dom_map_of inj_def)
qed auto

text \<open>The loop ends: the names it tries are all different and the directory is finite.\<close>

function FinalPath_loop :: "files \<Rightarrow> string \<Rightarrow> i64 \<Rightarrow> nat \<Rightarrow> string" where
  "FinalPath_loop fs stem end_s n =
     (if file_exists fs (numbered_path stem end_s n) then FinalPath_loop fs stem end_s (Suc n)
      else numbered_path stem end_s n)"
  by pat_completeness auto

termination
proof (relation "measure (\<lambda>(fs, stem, e, n). card {m. n \<le> m \<and> file_exists fs (numbered_path stem e m)})")
  fix fs stem e n
  assume "file_exists fs (numbered_path stem e n)"
  then have "{m. n \<le> m \<and> file_exists fs (numbered_path stem e m)} =
      insert n {m. Suc n \<le> m \<and> file_exists fs (numbered_path stem e m)}"
    by (auto simp: Suc_le_eq order_le_less)
  then have "card {m. n \<le> m \<and> file_exists fs (numbered_path stem e m)} =
      Suc (card {m. Suc n \<le> m \<and> file_exists fs (numbered_path stem e m)})"
    using finite_taken [of "Suc n" fs stem e] by simp
  then show "((fs, stem, e, Suc n), fs, stem, e, n) \<in>
      measure (\<lambda>(fs, stem, e, n). card {m. n \<le> m \<and> file_exists fs (numbered_path stem e m)})"
    by simp
qed simp

declare FinalPath_loop.simps [simp del]

definition FinalPath :: "files \<Rightarrow> string \<Rightarrow> i64 \<Rightarrow> string" where
  "FinalPath fs stem end_s =
     (let path = stem @ ''-'' @ int_to_dec end_s @ ''.bin''
      in if file_exists fs path then FinalPath_loop fs stem end_s 1 else path)"

text \<open>
  The operations return the writer and the directory they leave, also when they
  throw. \<^verbatim>\<open>std::filesystem::rename\<close> throws a \<^verbatim>\<open>filesystem_error\<close>.
\<close>

type_synonym outcome = "FileWriter \<times> files \<times> unit result"

definition FileWriter_Open :: "io \<Rightarrow> FileWriter \<Rightarrow> files \<Rightarrow> outcome" where
  "FileWriter_Open io w fs =
     (let now = unix_nanos_now io;
          stem = symbol_stem w @ ''-'' @ int_to_dec (i64_quot now 1000000000);
          path = stem @ ''.bin'';
          w = w\<lparr>fw_header := (fw_header w)\<lparr>fh_start_time_ns := now\<rparr>, file_stem := stem, fw_path := path\<rparr>
      in if \<not> open_ok io then (w, fs, Inl (runtime_error (''Cannot open '' @ path)))
         else
           let w = w\<lparr>output_open := True\<rparr>;
               fs = write_file path (header_bytes True (fw_header w)) (header_fails_after io) (open_file path fs)
           in if header_fails_after io \<noteq> None
              then (w, fs, Inl (runtime_error (''Cannot write header to '' @ path)))
              else (w\<lparr>messages_in_file := 0\<rparr>, fs, Inr ()))"

definition FileWriter_Write :: "io \<Rightarrow> Message \<Rightarrow> FileWriter \<Rightarrow> files \<Rightarrow> outcome" where
  "FileWriter_Write io message w fs =
     (let size = unat (GetByteSize message);
          resized = take size (buffer w) @ replicate (size - length (buffer w)) 0
      in case Serialize True message resized of
           Inl e \<Rightarrow> (w\<lparr>buffer := resized\<rparr>, fs, Inl e)
         | Inr (n, out) \<Rightarrow>
             let w = w\<lparr>buffer := out\<rparr>;
                 fs = write_file (fw_path w) (take (unat n) out) (write_fails_after io) fs
             in if write_fails_after io \<noteq> None
                then (w, fs, Inl (runtime_error (''Cannot write to '' @ fw_path w)))
                else (w\<lparr>messages_in_file := messages_in_file w + 1\<rparr>, fs, Inr ()))"

definition FileWriter_Close :: "io \<Rightarrow> FileWriter \<Rightarrow> files \<Rightarrow> outcome" where
  "FileWriter_Close io w fs =
     (if \<not> output_open w then (w, fs, Inr ())
      else let w = w\<lparr>output_open := False\<rparr>;
               final_path = FinalPath fs (file_stem w) (unix_time_now io)
           in if \<not> rename_ok io then (w, fs, Inl (runtime_error ''filesystem error: cannot rename''))
              else (w, rename_file (fw_path w) final_path fs, Inr ()))"

definition FileWriter_Consume :: "io \<Rightarrow> Message option \<Rightarrow> FileWriter \<Rightarrow> files \<Rightarrow> outcome" where
  "FileWriter_Consume io entry w fs =
     (case entry of
        None \<Rightarrow> if messages_in_file w > 0 then FileWriter_Close io w fs else (w, fs, Inr ())
      | Some message \<Rightarrow>
          if \<not> output_open w
          then (case FileWriter_Open io w fs of
                  (w, fs, Inl e) \<Rightarrow> (w, fs, Inl e)
                | (w, fs, Inr _) \<Rightarrow> FileWriter_Write io message w fs)
          else FileWriter_Write io message w fs)"

text \<open>The constructor, the thread's \<^verbatim>\<open>core::Drain\<close> over what it consumes, and the destructor.\<close>

definition FileWriter_create :: "io \<Rightarrow> string \<Rightarrow> BookSpec \<Rightarrow> PairPrecision \<Rightarrow> files \<Rightarrow> outcome" where
  "FileWriter_create io venue book precision fs =
     FileWriter_Open io
       \<lparr>symbol_stem = filter (\<lambda>c. c \<noteq> CHR ''/'') (bs_symbol book),
        fw_header = MakeFileHeader venue book precision 0,
        file_stem = [], fw_path = [], output_open = False, messages_in_file = 0, buffer = [],
        fw_failed = False\<rparr> fs"

fun FileWriter_thread :: "(io \<times> Message option) list \<Rightarrow> FileWriter \<Rightarrow> files \<Rightarrow> FileWriter \<times> files" where
  "FileWriter_thread [] w fs = (w, fs)"
| "FileWriter_thread ((io, entry) # rest) w fs =
     (case FileWriter_Consume io entry w fs of
        (w, fs, Inr _) \<Rightarrow> FileWriter_thread rest w fs
      | (w, fs, Inl e) \<Rightarrow> (w\<lparr>fw_failed := True\<rparr>, fs))"

definition FileWriter_destroy :: "io \<Rightarrow> FileWriter \<Rightarrow> files \<Rightarrow> FileWriter \<times> files" where
  "FileWriter_destroy io w fs = (case FileWriter_Close io w fs of (w, fs, _) \<Rightarrow> (w, fs))"

section \<open>Names\<close>

lemma FinalPath_loop_free: "\<not> file_exists fs (FinalPath_loop fs stem e n)"
  by (induction fs stem e n rule: FinalPath_loop.induct) (subst FinalPath_loop.simps, auto)

lemma FinalPath_free: "map_of fs (FinalPath fs stem e) = None"
  using FinalPath_loop_free [of fs stem e 1] by (auto simp: FinalPath_def Let_def)

lemma FinalPath_loop_numbered: "\<exists>m. FinalPath_loop fs stem e n = numbered_path stem e m"
  by (induction fs stem e n rule: FinalPath_loop.induct) (subst FinalPath_loop.simps, auto)

text \<open>A closed recording's name starts like this; the name of one being written never does.\<close>

definition recording_path :: "string \<Rightarrow> nat \<Rightarrow> string" where
  "recording_path stem seconds = stem @ ''-'' @ nat_to_dec seconds @ ''.bin''"

definition closed_path :: "string \<Rightarrow> string \<Rightarrow> bool" where
  "closed_path stem p \<longleftrightarrow> (\<exists>seconds rest. p = stem @ ''-'' @ nat_to_dec seconds @ CHR ''-'' # rest)"

lemma FinalPath_closed:
  "closed_path stem (FinalPath fs (stem @ ''-'' @ nat_to_dec seconds) e)"
  using FinalPath_loop_numbered [of fs "stem @ ''-'' @ nat_to_dec seconds" e 1]
  by (auto simp: closed_path_def FinalPath_def Let_def numbered_path_def)

lemma takeWhile_digits_then:
  "\<not> is_digit c \<Longrightarrow> takeWhile is_digit (nat_to_dec n @ c # rest) = nat_to_dec n"
  using nat_to_dec_digits [of n] by (simp add: takeWhile_tail)

lemma recording_path_eq: "stem @ CHR ''-'' # nat_to_dec n @ ''.bin'' = recording_path stem n"
  by (simp add: recording_path_def)

lemma recording_not_closed: "\<not> closed_path stem (recording_path stem n)"
proof
  assume "closed_path stem (recording_path stem n)"
  then obtain s rest where eq: "nat_to_dec n @ ''.bin'' = nat_to_dec s @ CHR ''-'' # rest"
    by (auto simp: closed_path_def recording_path_def)
  then have "nat_to_dec n = nat_to_dec s"
    using takeWhile_digits_then [of "CHR ''.''" n "''bin''"] takeWhile_digits_then [of "CHR ''-''" s rest] by simp
  with eq show False by simp
qed

section \<open>What a recording holds\<close>

text \<open>The messages of each unbroken stretch; \<open>cur\<close> is what the open file holds so far.\<close>

fun unbroken :: "Message list option \<Rightarrow> Message option list \<Rightarrow> Message list list" where
  "unbroken cur [] = (case cur of None \<Rightarrow> [] | Some ms \<Rightarrow> [ms])"
| "unbroken cur (Some m # es) = unbroken (Some ((case cur of None \<Rightarrow> [] | Some ms \<Rightarrow> ms) @ [m])) es"
| "unbroken None (None # es) = unbroken None es"
| "unbroken (Some ms) (None # es) =
     (if ms = [] then unbroken (Some []) es else ms # unbroken None es)"

definition recording :: "FileHeader \<Rightarrow> i64 \<Rightarrow> Message list \<Rightarrow> byte list" where
  "recording header start ms =
     header_bytes True (header\<lparr>fh_start_time_ns := start\<rparr>) @ concat (map (message_bytes True) ms)"

definition io_ok :: "io \<Rightarrow> bool" where
  "io_ok io \<longleftrightarrow> 0 \<le> unix_nanos_now io \<and> open_ok io \<and> header_fails_after io = None \<and>
     write_fails_after io = None \<and> rename_ok io"

text \<open>The open file holds \<open>ms\<close> under its recording name, or no file is open.\<close>

definition writer_holds ::
    "string \<Rightarrow> FileHeader \<Rightarrow> FileWriter \<Rightarrow> files \<Rightarrow> (i64 \<times> Message list) option \<Rightarrow> bool" where
  "writer_holds stem header w fs cur \<longleftrightarrow>
     symbol_stem w = stem \<and> (\<exists>t. fw_header w = header\<lparr>fh_start_time_ns := t\<rparr>) \<and> \<not> fw_failed w \<and>
     (case cur of
        None \<Rightarrow> \<not> output_open w
      | Some (start, ms) \<Rightarrow> output_open w \<and>
          (\<exists>seconds. file_stem w = stem @ ''-'' @ nat_to_dec seconds \<and>
             fw_path w = recording_path stem seconds) \<and>
          map_of fs (fw_path w) = Some (recording header start ms) \<and>
          messages_in_file w = of_nat (length ms))"

text \<open>Every file but those with a recording name of this pair is as it was.\<close>

definition keeps_others :: "string \<Rightarrow> files \<Rightarrow> files \<Rightarrow> bool" where
  "keeps_others stem fs fs' \<longleftrightarrow>
     (\<forall>p. p \<notin> range (recording_path stem) \<longrightarrow> map_of fs p \<noteq> None \<longrightarrow> map_of fs' p = map_of fs p)"

lemma keeps_others_refl [simp]: "keeps_others stem fs fs"
  by (simp add: keeps_others_def)

lemma keeps_others_trans: "keeps_others stem fs fs' \<Longrightarrow> keeps_others stem fs' fs'' \<Longrightarrow> keeps_others stem fs fs''"
  by (simp add: keeps_others_def)

lemma keeps_others_recording:
  "keeps_others stem fs (AList.update (recording_path stem s) v fs')" if "keeps_others stem fs fs'"
  using that by (auto simp: keeps_others_def update_conv')

lemma Open_holds:
  assumes "io_ok io" and "symbol_stem w = stem" and "\<exists>t. fw_header w = header\<lparr>fh_start_time_ns := t\<rparr>"
    and "\<not> fw_failed w" and "FileWriter_Open io w fs = (w', fs', r)"
  shows "r = Inr () \<and> writer_holds stem header w' fs' (Some (unix_nanos_now io, [])) \<and> keeps_others stem fs fs'"
proof -
  have "i64_quot (unix_nanos_now io) 1000000000 = int (nat (unix_nanos_now io div 1000000000))"
    using assms(1) by (simp add: i64_quot_def io_ok_def pos_imp_zdiv_nonneg_iff)
  then have stem: "int_to_dec (i64_quot (unix_nanos_now io) 1000000000) =
      nat_to_dec (nat (unix_nanos_now io div 1000000000))"
    by (simp add: int_to_dec_def)
  then show ?thesis
    using assms
    by (auto simp: FileWriter_Open_def Let_def io_ok_def writer_holds_def recording_path_eq
        recording_def write_file_def open_file_def update_conv' intro!: keeps_others_recording)
qed

lemma Write_holds:
  assumes "io_ok io" and "writer_holds stem header w fs (Some (start, ms))" and "fits m"
    and "FileWriter_Write io m w fs = (w', fs', r)"
  shows "r = Inr () \<and> writer_holds stem header w' fs' (Some (start, ms @ [m])) \<and> keeps_others stem fs fs'"
proof -
  define resized where "resized = take (unat (GetByteSize m)) (buffer w) @
    replicate (unat (GetByteSize m) - length (buffer w)) 0"
  have "length resized = unat (GetByteSize m)" by (simp add: resized_def min_def)
  moreover have "unat (GetByteSize m) < 2 ^ 64" using unsigned_less [of "GetByteSize m"] by simp
  ultimately have "Serialize True m resized = Inr (GetByteSize m, message_bytes True m)"
    using assms(3) by (simp add: Serialize_eq unat_GetByteSize [of m True])
  with assms(4) [unfolded FileWriter_Write_def Let_def, folded resized_def] have w': "w' = w\<lparr>buffer := message_bytes True m, messages_in_file := messages_in_file w + 1\<rparr>"
    and fs': "fs' = write_file (fw_path w) (message_bytes True m) None fs" and r: "r = Inr ()"
    using assms(1,3)
    by (auto simp: io_ok_def unat_GetByteSize [of m True])
  obtain s where "fw_path w = recording_path stem s" using assms(2) by (auto simp: writer_holds_def)
  then have "keeps_others stem fs fs'" by (simp add: fs' write_file_def keeps_others_recording)
  then show ?thesis
    using assms(2) by (auto simp: r w' fs' writer_holds_def write_file_def update_conv' recording_def)
qed

lemma Close_holds:
  assumes "io_ok io" and "writer_holds stem header w fs (Some (start, ms))"
    and "FileWriter_Close io w fs = (w', fs', r)"
  shows "r = Inr () \<and> writer_holds stem header w' fs' None \<and> keeps_others stem fs fs' \<and>
    (\<exists>p. closed_path stem p \<and> map_of fs p = None \<and> map_of fs' p = Some (recording header start ms))"
proof -
  obtain s where s: "file_stem w = stem @ ''-'' @ nat_to_dec s" "fw_path w = recording_path stem s"
    using assms(2) by (auto simp: writer_holds_def)
  let ?p = "FinalPath fs (file_stem w) (unix_time_now io)"
  have free: "map_of fs ?p = None" by (rule FinalPath_free)
  have closed: "closed_path stem ?p" unfolding s by (rule FinalPath_closed)
  have fs': "fs' = rename_file (fw_path w) ?p fs" and w': "w' = w\<lparr>output_open := False\<rparr>" and r: "r = Inr ()"
    using assms by (auto simp: FileWriter_Close_def io_ok_def writer_holds_def Let_def)
  have "keeps_others stem fs fs'"
    using free by (auto simp: keeps_others_def fs' rename_file_def update_conv' delete_conv' s)
  moreover have "map_of fs' ?p = Some (recording header start ms)"
    using assms(2) by (simp add: fs' rename_file_def update_conv' writer_holds_def)
  ultimately show ?thesis
    using assms(2) free closed by (auto simp: r w' writer_holds_def)
qed

definition entry_ok :: "io \<times> Message option \<Rightarrow> bool" where
  "entry_ok e \<longleftrightarrow> io_ok (fst e) \<and> (\<forall>m. snd e = Some m \<longrightarrow> fits m)"

lemma Consume_message:
  assumes "writer_holds stem header w fs cur" and "entry_ok (io, Some m)"
    and "FileWriter_Consume io (Some m) w fs = (w', fs', r)"
  shows "r = Inr () \<and> keeps_others stem fs fs' \<and>
    writer_holds stem header w' fs' (Some (case cur of None \<Rightarrow> (unix_nanos_now io, [m]) | Some (t, ms) \<Rightarrow> (t, ms @ [m])))"
proof (cases cur)
  case None
  obtain w1 fs1 r1 where o: "FileWriter_Open io w fs = (w1, fs1, r1)" by (metis prod_cases3)
  from Open_holds [OF _ _ _ _ o, of stem header] have 1: "r1 = Inr ()" "keeps_others stem fs fs1"
    "writer_holds stem header w1 fs1 (Some (unix_nanos_now io, []))"
    using assms None by (auto simp: writer_holds_def entry_ok_def)
  then have "FileWriter_Write io m w1 fs1 = (w', fs', r)"
    using assms None o by (simp add: FileWriter_Consume_def writer_holds_def)
  from Write_holds [OF _ 1(3) _ this] 1 show ?thesis
    using assms(2) None by (auto simp: entry_ok_def intro: keeps_others_trans)
next
  case (Some c)
  then have "FileWriter_Write io m w fs = (w', fs', r)"
    using assms by (auto simp: FileWriter_Consume_def writer_holds_def split: prod.splits)
  from Write_holds [OF _ _ _ this, of stem header] show ?thesis
    using assms Some by (auto simp: entry_ok_def split: prod.splits)
qed

lemma Consume_gap:
  assumes "writer_holds stem header w fs cur" and "entry_ok (io, None)"
    and "\<forall>t ms. cur = Some (t, ms) \<longrightarrow> length ms < 2 ^ 64"
    and "FileWriter_Consume io None w fs = (w', fs', r)"
  shows "r = Inr () \<and> keeps_others stem fs fs' \<and>
    (case cur of
       Some (t, m # ms) \<Rightarrow> writer_holds stem header w' fs' None \<and>
         (\<exists>p. closed_path stem p \<and> map_of fs p = None \<and> map_of fs' p = Some (recording header t (m # ms)))
     | _ \<Rightarrow> writer_holds stem header w' fs' cur)"
proof (cases cur)
  case None
  then show ?thesis
    using assms by (auto simp: FileWriter_Consume_def FileWriter_Close_def writer_holds_def split: if_splits)
next
  case (Some c)
  obtain t ms where c: "c = (t, ms)" by fastforce
  have m: "messages_in_file w = of_nat (length ms)" using assms(1) Some c by (simp add: writer_holds_def)
  have "messages_in_file w > 0 \<longleftrightarrow> ms \<noteq> []"
    using assms(3) Some c unat_of_nat_u64 [of "length ms"]
    by (simp add: m word_less_nat_alt)
  then show ?thesis
    using assms Some c Close_holds [of io stem header w fs t ms w' fs' r]
    by (cases ms) (auto simp: FileWriter_Consume_def entry_ok_def)
qed

text \<open>
  Recordings closed between two states of the directory: name, start time and
  messages of each, none under a name that was taken.
\<close>

definition closed_as ::
    "string \<Rightarrow> FileHeader \<Rightarrow> i64 set \<Rightarrow> files \<Rightarrow> files \<Rightarrow> (string \<times> i64 \<times> Message list) list \<Rightarrow> bool" where
  "closed_as stem header starts fs fs' rs \<longleftrightarrow> distinct (map fst rs) \<and>
     (\<forall>(p, start, ms) \<in> set rs. closed_path stem p \<and> start \<in> starts \<and> map_of fs p = None \<and>
        map_of fs' p = Some (recording header start ms))"

lemma keeps_closed:
  "keeps_others stem fs fs' \<Longrightarrow> closed_path stem p \<Longrightarrow> map_of fs p \<noteq> None \<Longrightarrow> map_of fs' p = map_of fs p"
  by (metis keeps_others_def rangeE recording_not_closed)

lemma closed_as_keeps:
  assumes "keeps_others stem fs fs'" and "closed_as stem header starts fs' fs'' rs"
  shows "closed_as stem header starts fs fs'' rs"
  using assms keeps_closed [OF assms(1)] by (fastforce simp: closed_as_def)

lemma closed_as_Cons:
  assumes "closed_path stem p" and "start \<in> starts" and "map_of fs p = None"
    and "map_of fs' p = Some (recording header start ms)"
    and "keeps_others stem fs fs'" and "keeps_others stem fs' fs''"
    and "closed_as stem header starts fs' fs'' rs"
  shows "closed_as stem header starts fs fs'' ((p, start, ms) # rs)"
proof -
  have "p \<notin> fst ` set rs" using assms(4,7) by (auto simp: closed_as_def)
  moreover have "map_of fs'' p = Some (recording header start ms)"
    using keeps_closed [OF assms(6,1)] assms(4) by simp
  ultimately show ?thesis
    using closed_as_keeps [OF assms(5,7)] assms(1-3) by (auto simp: closed_as_def)
qed

lemma thread_holds:
  assumes "writer_holds stem header w fs cur" and "list_all entry_ok es" and "io_ok io_end"
    and "(case cur of None \<Rightarrow> 0 | Some (t, ms) \<Rightarrow> length ms) + length es < 2 ^ 64"
    and "\<forall>t ms. cur = Some (t, ms) \<longrightarrow> t \<in> starts" and "(\<lambda>e. unix_nanos_now (fst e)) ` set es \<subseteq> starts"
    and "FileWriter_thread es w fs = (w1, fs1)" and "FileWriter_destroy io_end w1 fs1 = (w2, fs2)"
  shows "\<not> fw_failed w2 \<and> keeps_others stem fs fs2 \<and>
    (\<exists>rs. map (\<lambda>(p, t, ms). ms) rs = unbroken (map_option snd cur) (map snd es) \<and>
       closed_as stem header starts fs fs2 rs)"
  using assms(1,2,4-7)
proof (induction es arbitrary: w fs cur)
  case Nil
  then have 1: "w1 = w" "fs1 = fs" by auto
  obtain r where c: "FileWriter_Close io_end w fs = (w2, fs2, r)"
    using assms(8) 1 by (auto simp: FileWriter_destroy_def split: prod.splits)
  show ?case
  proof (cases cur)
    case None
    with Nil c have "w2 = w" "fs2 = fs" by (auto simp: FileWriter_Close_def writer_holds_def)
    with Nil None show ?thesis by (auto simp: writer_holds_def closed_as_def)
  next
    case (Some t_ms)
    then obtain t ms where cur: "cur = Some (t, ms)" by (cases t_ms) simp
    from Close_holds [OF assms(3) Nil(1) [unfolded cur] c] obtain p where
      p: "closed_path stem p" "map_of fs p = None" "map_of fs2 p = Some (recording header t ms)"
      and k: "keeps_others stem fs fs2" and h: "writer_holds stem header w2 fs2 None" by blast
    have "closed_as stem header starts fs fs2 [(p, t, ms)]"
      using p Nil.prems(4) cur by (simp add: closed_as_def)
    then show ?thesis using h k cur by (auto simp: writer_holds_def intro!: exI [of _ "[(p, t, ms)]"])
  qed
next
  case (Cons e es)
  obtain io entry where e: "e = (io, entry)" by fastforce
  obtain w' fs' r where c: "FileWriter_Consume io entry w fs = (w', fs', r)" by (metis prod_cases3)
  have ok: "entry_ok (io, entry)" using Cons.prems e by simp
  have es: "list_all entry_ok es" "unix_nanos_now io \<in> starts" "(\<lambda>e. unix_nanos_now (fst e)) ` set es \<subseteq> starts"
    using Cons.prems(2,5) e by auto
  have rest: "r = Inr () \<Longrightarrow> FileWriter_thread es w' fs' = (w1, fs1)" using Cons.prems e c by simp
  show ?case
  proof (cases entry)
    case (Some m)
    let ?cur = "Some (case cur of None \<Rightarrow> (unix_nanos_now io, [m]) | Some (t, ms) \<Rightarrow> (t, ms @ [m]))"
    from Consume_message [OF Cons.prems(1) ok [unfolded Some] c [unfolded Some]]
    have 1: "r = Inr ()" "keeps_others stem fs fs'" "writer_holds stem header w' fs' ?cur" by simp_all
    have "(case ?cur of None \<Rightarrow> 0 | Some (t, ms) \<Rightarrow> length ms) + length es < 2 ^ 64"
      "\<forall>t ms. ?cur = Some (t, ms) \<longrightarrow> t \<in> starts"
      using Cons.prems(3,4) es by (auto split: option.splits)
    from Cons.IH [OF 1(3) es(1) this es(3) rest [OF 1(1)]] 1(2) show ?thesis
      using Some e by (auto intro: keeps_others_trans closed_as_keeps split: option.splits)
  next
    case None
    have bound: "\<forall>t ms. cur = Some (t, ms) \<longrightarrow> length ms < 2 ^ 64" using Cons.prems(3) by auto
    note step = Consume_gap [OF Cons.prems(1) ok [unfolded None] bound c [unfolded None]]
    show ?thesis
    proof (cases "\<exists>t m ms. cur = Some (t, m # ms)")
      case True
      then obtain t m ms where cur: "cur = Some (t, m # ms)" by blast
      from step obtain p where p: "closed_path stem p" "map_of fs p = None"
        "map_of fs' p = Some (recording header t (m # ms))"
        and 1: "r = Inr ()" "keeps_others stem fs fs'" "writer_holds stem header w' fs' None"
        by (auto simp: cur)
      have "(case None of None \<Rightarrow> 0 | Some (t :: i64, ms) \<Rightarrow> length ms) + length es < 2 ^ 64"
        "\<forall>t ms. None = Some (t, ms) \<longrightarrow> t \<in> starts" using Cons.prems(3) cur by auto
      from Cons.IH [OF 1(3) es(1) this es(3) rest [OF 1(1)]] obtain rs where
        rs: "map (\<lambda>(p, t, ms). ms) rs = unbroken None (map snd es)"
          "closed_as stem header starts fs' fs2 rs" and k: "\<not> fw_failed w2" "keeps_others stem fs' fs2"
        by auto
      have "closed_as stem header starts fs fs2 ((p, t, m # ms) # rs)"
        using p 1(2) k(2) rs(2) Cons.prems(4) cur by (intro closed_as_Cons) auto
      then show ?thesis
        using rs(1) k keeps_others_trans [OF 1(2) k(2)] cur None e
        by (auto intro!: exI [of _ "(p, t, m # ms) # rs"])
    next
      case False
      then have "cur = None \<or> (\<exists>t. cur = Some (t, []))"
        by (metis neq_Nil_conv option.exhaust surj_pair)
      then have 1: "r = Inr ()" "keeps_others stem fs fs'" "writer_holds stem header w' fs' cur"
        using step by auto
      have "(case cur of None \<Rightarrow> 0 | Some (t, ms) \<Rightarrow> length ms) + length es < 2 ^ 64"
        using Cons.prems(3) by simp
      from Cons.IH [OF 1(3) es(1) this Cons.prems(4) es(3) rest [OF 1(1)]]
      have "\<not> fw_failed w2 \<and> keeps_others stem fs fs2 \<and>
          (\<exists>rs. map (\<lambda>(p, t, ms). ms) rs = unbroken (map_option snd cur) (map snd es) \<and>
            closed_as stem header starts fs fs2 rs)"
        using 1(2) by (auto intro: keeps_others_trans closed_as_keeps)
      moreover have "unbroken (map_option snd cur) (map snd (e # es)) = unbroken (map_option snd cur) (map snd es)"
        using False None e by (cases cur; cases "snd (the cur)") auto
      ultimately show ?thesis by simp
    qed
  qed
qed

text \<open>With failing operations, too, only files under recording names change.\<close>

definition writer_paths :: "string \<Rightarrow> FileWriter \<Rightarrow> bool" where
  "writer_paths stem w \<longleftrightarrow> symbol_stem w = stem \<and>
     (output_open w \<longrightarrow> (\<exists>seconds. file_stem w = stem @ ''-'' @ nat_to_dec seconds \<and>
        fw_path w = recording_path stem seconds))"

lemma Open_keeps:
  assumes "0 \<le> unix_nanos_now io" and "symbol_stem w = stem" and "\<not> output_open w"
    and "FileWriter_Open io w fs = (w', fs', r)"
  shows "writer_paths stem w' \<and> keeps_others stem fs fs'"
proof -
  have "i64_quot (unix_nanos_now io) 1000000000 = int (nat (unix_nanos_now io div 1000000000))"
    using assms(1) by (simp add: i64_quot_def pos_imp_zdiv_nonneg_iff)
  then have stem: "int_to_dec (i64_quot (unix_nanos_now io) 1000000000) =
      nat_to_dec (nat (unix_nanos_now io div 1000000000))"
    by (simp add: int_to_dec_def)
  then show ?thesis
    using assms
    by (auto simp: FileWriter_Open_def Let_def writer_paths_def recording_path_eq write_file_def open_file_def
        intro!: keeps_others_recording split: if_splits)
qed

lemma Write_keeps:
  assumes "writer_paths stem w" and "output_open w" and "FileWriter_Write io m w fs = (w', fs', r)"
  shows "writer_paths stem w' \<and> keeps_others stem fs fs'"
  using assms
  by (auto simp: FileWriter_Write_def Let_def writer_paths_def write_file_def
      intro!: keeps_others_recording split: if_splits sum.splits prod.splits)

lemma Close_keeps:
  assumes "writer_paths stem w" and "FileWriter_Close io w fs = (w', fs', r)"
  shows "writer_paths stem w' \<and> keeps_others stem fs fs'"
  using assms FinalPath_free [of fs "file_stem w" "unix_time_now io"]
  by (auto simp: FileWriter_Close_def Let_def writer_paths_def keeps_others_def rename_file_def
      update_conv' delete_conv' split: if_splits)

lemma Consume_keeps:
  assumes "writer_paths stem w" and "0 \<le> unix_nanos_now io"
    and "FileWriter_Consume io entry w fs = (w', fs', r)"
  shows "writer_paths stem w' \<and> keeps_others stem fs fs'"
proof (cases entry)
  case None
  then show ?thesis
    using assms Close_keeps [OF assms(1)] by (auto simp: FileWriter_Consume_def split: if_splits)
next
  case (Some m)
  show ?thesis
  proof (cases "output_open w")
    case True
    with Some assms have "FileWriter_Write io m w fs = (w', fs', r)" by (simp add: FileWriter_Consume_def)
    from Write_keeps [OF assms(1) True this] show ?thesis .
  next
    case False
    obtain w1 fs1 r1 where o: "FileWriter_Open io w fs = (w1, fs1, r1)" by (metis prod_cases3)
    have 1: "writer_paths stem w1" "keeps_others stem fs fs1"
      using Open_keeps [OF assms(2) _ False o] assms(1) by (auto simp: writer_paths_def)
    have opened: "r1 = Inr u \<Longrightarrow> output_open w1" for u
      using o by (auto simp: FileWriter_Open_def Let_def split: if_splits)
    show ?thesis
    proof (cases r1)
      case (Inl e)
      with 1 o assms(3) Some False show ?thesis by (simp add: FileWriter_Consume_def)
    next
      case (Inr u)
      with o assms(3) Some False have "FileWriter_Write io m w1 fs1 = (w', fs', r)"
        by (simp add: FileWriter_Consume_def)
      from Write_keeps [OF 1(1) opened [OF Inr] this] 1(2) show ?thesis
        by (auto intro: keeps_others_trans)
    qed
  qed
qed

lemma writer_paths_failed [simp]: "writer_paths stem (w\<lparr>fw_failed := b\<rparr>) = writer_paths stem w"
  by (simp add: writer_paths_def)

lemma thread_keeps:
  assumes "writer_paths stem w" and "\<forall>(io, _) \<in> set es. 0 \<le> unix_nanos_now io"
    and "FileWriter_thread es w fs = (w', fs')"
  shows "writer_paths stem w' \<and> keeps_others stem fs fs'"
  using assms
proof (induction es arbitrary: w fs)
  case (Cons e es)
  obtain io entry where e: "e = (io, entry)" by fastforce
  obtain w1 fs1 r where c: "FileWriter_Consume io entry w fs = (w1, fs1, r)" by (metis prod_cases3)
  have 1: "writer_paths stem w1" "keeps_others stem fs fs1"
    using Consume_keeps [OF Cons.prems(1) _ c] Cons.prems(2) e by auto
  then show ?case
    using Cons.prems Cons.IH [OF 1(1)] c e by (cases r) (auto intro: keeps_others_trans)
qed auto

lemma unbroken_concat:
  "concat (unbroken cur es) = (case cur of None \<Rightarrow> [] | Some ms \<Rightarrow> ms) @ List.map_filter id es"
  by (induction cur es rule: unbroken.induct) (auto simp: map_filter_simps split: option.splits)

text \<open>
  The open file always stands in the directory under its recording name: a file is
  renamed only after it was closed, so no write can reach a recording that was closed.
  (This is also why the model may know the open file by its name.)
\<close>

definition handle_ok :: "FileWriter \<Rightarrow> files \<Rightarrow> bool" where
  "handle_ok w fs \<longleftrightarrow> (output_open w \<longrightarrow> file_exists fs (fw_path w))"

lemma write_file_exists [simp]: "file_exists (write_file p bs n fs) p"
  by (simp add: write_file_def update_conv')

lemma Open_handle:
  "FileWriter_Open io w fs = (w', fs', r) \<Longrightarrow> \<not> output_open w \<Longrightarrow> handle_ok w' fs'"
  by (auto simp: FileWriter_Open_def Let_def handle_ok_def write_file_def update_conv' split: if_splits)

lemma Write_handle: "FileWriter_Write io m w fs = (w', fs', r) \<Longrightarrow> handle_ok w fs \<Longrightarrow> handle_ok w' fs'"
  by (auto simp: FileWriter_Write_def Let_def handle_ok_def write_file_def update_conv' split: if_splits sum.splits prod.splits)

lemma Close_handle: "FileWriter_Close io w fs = (w', fs', r) \<Longrightarrow> \<not> output_open w' \<and> handle_ok w' fs'"
  by (auto simp: FileWriter_Close_def Let_def handle_ok_def split: if_splits)

lemma Consume_handle:
  assumes "FileWriter_Consume io entry w fs = (w', fs', r)" and "handle_ok w fs"
  shows "handle_ok w' fs'"
  using assms Open_handle [of io w fs] Write_handle Close_handle
  by (fastforce simp: FileWriter_Consume_def split: option.splits if_splits prod.splits sum.splits)

lemma thread_handle: "FileWriter_thread es w fs = (w', fs') \<Longrightarrow> handle_ok w fs \<Longrightarrow> handle_ok w' fs'"
proof (induction es arbitrary: w fs)
  case (Cons e es)
  then show ?case
    using Consume_handle
    by (cases e) (fastforce simp: handle_ok_def split: prod.splits sum.splits)
qed auto

text \<open>Closing keeps the bytes: they stand under a new name, or still under the recording name.\<close>

lemma Close_moves:
  assumes "writer_paths stem w" and "handle_ok w fs" and "output_open w"
    and "FileWriter_Close io w fs = (w', fs', r)"
  shows "if rename_ok io
    then \<exists>p. closed_path stem p \<and> map_of fs p = None \<and> map_of fs' p = map_of fs (fw_path w)
    else fs' = fs"
proof (cases "rename_ok io")
  case True
  obtain bytes where bytes: "map_of fs (fw_path w) = Some bytes"
    using assms(2,3) by (auto simp: handle_ok_def)
  have "fs' = rename_file (fw_path w) (FinalPath fs (file_stem w) (unix_time_now io)) fs"
    using assms(3,4) True by (simp add: FileWriter_Close_def Let_def)
  moreover have "closed_path stem (FinalPath fs (file_stem w) (unix_time_now io))"
    using assms(1,3) FinalPath_closed by (auto simp: writer_paths_def)
  moreover note FinalPath_free [of fs "file_stem w" "unix_time_now io"]
  ultimately show ?thesis
    using True bytes
    by (auto simp: rename_file_def update_conv' intro!: exI [of _ "FinalPath fs (file_stem w) (unix_time_now io)"])
qed (use assms in \<open>auto simp: FileWriter_Close_def Let_def\<close>)

section \<open>Properties\<close>

text \<open>
  When its input and output work, a writer's recordings are exactly the
  unbroken stretches of what it was given: after the destructor, there is one
  closed file per stretch, with a header naming the venue, the book and the
  precision and a start time read from the clock, followed by the stretch's
  messages serialized in order. Their names are all different and were free, and
  every other file, recordings of earlier runs included, is what it was (files
  under a recording name of the same pair, which a killed process may leave,
  excepted).
\<close>

theorem recordings_are_stretches:
  assumes "io_ok io0" and "io_ok io_end" and "list_all entry_ok es" and "length es < 2 ^ 64"
    and "FileWriter_create io0 venue book precision fs0 = (w, fs, r)"
    and "FileWriter_thread es w fs = (w1, fs1)" and "FileWriter_destroy io_end w1 fs1 = (w2, fs2)"
  shows "\<exists>rs. map (\<lambda>(p, start, ms). ms) rs = unbroken (Some []) (map snd es) \<and>
    closed_as (symbol_stem w) (MakeFileHeader venue book precision 0)
      (unix_nanos_now ` insert io0 (fst ` set es)) fs0 fs2 rs \<and>
    keeps_others (symbol_stem w) fs0 fs2 \<and> r = Inr () \<and> \<not> fw_failed w2"
proof -
  let ?h = "MakeFileHeader venue book precision 0"
  let ?stem = "filter (\<lambda>c. c \<noteq> CHR ''/'') (bs_symbol book)"
  have 1: "r = Inr ()" "writer_holds ?stem ?h w fs (Some (unix_nanos_now io0, []))" "keeps_others ?stem fs0 fs"
    using Open_holds [OF assms(1) _ _ _ assms(5) [unfolded FileWriter_create_def], of ?stem ?h]
    by (auto intro!: exI [of _ 0] simp: MakeFileHeader_def)
  then have stem: "symbol_stem w = ?stem" by (simp add: writer_holds_def)
  show ?thesis
    unfolding stem
    using thread_holds [OF 1(2) assms(3,2) _ _ _ assms(6,7), of "unix_nanos_now ` insert io0 (fst ` set es)"]
      assms(4) 1(1,3)
    by (auto intro: keeps_others_trans closed_as_keeps)
qed

theorem recordings_are_stretches_witness:
  "let io = \<lparr>unix_nanos_now = 5, unix_time_now = 0, open_ok = True, header_fails_after = None,
         write_fails_after = None, rename_ok = True\<rparr>;
       m = \<lparr>msg_type = kSnapshot, checksum = 0, venue_time_ns = 0, capture_time_ns = 0, msg_symbol = ''A/B'',
         buys = [], sells = []\<rparr>;
       (w, fs, r) = FileWriter_create io ''kraken'' \<lparr>bs_symbol = ''A/B'', bs_depth = 10\<rparr>
         \<lparr>price_decimals = 1, qty_decimals = 8\<rparr> [];
       (w, fs) = FileWriter_thread [(io, None), (io, Some m), (io, None), (io, Some m), (io, Some m)] w fs;
       (w, fs) = FileWriter_destroy io w fs
   in \<exists>rs. map (\<lambda>(p, start, ms). ms) rs = [[m], [m, m]] \<and> distinct (map fst rs) \<and>
        (\<forall>(p, start, ms) \<in> set rs. start = (5 :: i64) \<and> map_of fs p \<noteq> None)"
proof -
  let ?io = "\<lparr>unix_nanos_now = 5, unix_time_now = 0, open_ok = True, header_fails_after = None,
         write_fails_after = None, rename_ok = True\<rparr>"
  let ?m = "\<lparr>msg_type = kSnapshot, checksum = 0, venue_time_ns = 0, capture_time_ns = 0, msg_symbol = ''A/B'',
         buys = [], sells = []\<rparr>"
  let ?es = "[(?io, None), (?io, Some ?m), (?io, None), (?io, Some ?m), (?io, Some ?m)]"
  obtain w fs r where c: "FileWriter_create ?io ''kraken'' \<lparr>bs_symbol = ''A/B'', bs_depth = 10\<rparr>
      \<lparr>price_decimals = 1, qty_decimals = 8\<rparr> [] = (w, fs, r)" by (metis prod_cases3)
  obtain w1 fs1 where t: "FileWriter_thread ?es w fs = (w1, fs1)" by fastforce
  obtain w2 fs2 where d: "FileWriter_destroy ?io w1 fs1 = (w2, fs2)" by fastforce
  have "io_ok ?io" "list_all entry_ok ?es" "length ?es < 2 ^ 64"
    by (simp_all add: io_ok_def entry_ok_def fits_def)
  from recordings_are_stretches [OF this(1) this(1) this(2) this(3) c t d] obtain rs where
    rs: "map (\<lambda>(p, start, ms). ms) rs = unbroken (Some []) (map snd ?es)" and
    closed: "closed_as (symbol_stem w) (MakeFileHeader ''kraken'' \<lparr>bs_symbol = ''A/B'', bs_depth = 10\<rparr>
      \<lparr>price_decimals = 1, qty_decimals = 8\<rparr> 0) (unix_nanos_now ` insert ?io (fst ` set ?es)) [] fs2 rs"
    by blast
  have "map (\<lambda>(p, start, ms). ms) rs = [[?m], [?m, ?m]]" unfolding rs by simp
  moreover have "distinct (map fst rs)" using closed by (simp add: closed_as_def)
  moreover have "\<forall>(p, start, ms) \<in> set rs. start = (5 :: i64) \<and> map_of fs2 p \<noteq> None"
    using closed by (fastforce simp: closed_as_def)
  ultimately have "\<exists>rs. map (\<lambda>(p, start, ms). ms) rs = [[?m], [?m, ?m]] \<and> distinct (map fst rs) \<and>
      (\<forall>(p, start, ms) \<in> set rs. start = (5 :: i64) \<and> map_of fs2 p \<noteq> None)"
    by - (rule exI [of _ rs], intro conjI)
  then show ?thesis by (simp only: c t d Let_def prod.case)
qed

text \<open>
  C29. No recording is ever lost or altered, whatever fails: for every outcome of the
  opens, writes and renames, and at any moment of the writer's life (after the
  constructor and the entries \<open>es1\<close>), every closed recording of the pair, whether it was
  there before or this writer closed it, and every file of another name is to the end
  (through the entries \<open>es2\<close> and the destructor) exactly what it is then. The file that
  is open stands under its recording name, so that no write reaches one closed before;
  the destructor leaves none open, and the bytes of the one it closes stand under a
  closed name that was free, or, if the rename fails, where they were. (The clock is
  after 1970.)
\<close>

theorem closed_recordings_stay:
  assumes "0 \<le> unix_nanos_now io0" and "\<forall>(io, _) \<in> set (es1 @ es2). 0 \<le> unix_nanos_now io"
    and "FileWriter_create io0 venue book precision fs0 = (w, fs, r)"
    and "FileWriter_thread es1 w fs = (w1, fs1)" and "FileWriter_thread es2 w1 fs1 = (w2, fs2)"
    and "FileWriter_destroy io_end w2 fs2 = (w3, fs3)"
  shows "keeps_others (symbol_stem w) fs0 fs1 \<and> keeps_others (symbol_stem w) fs1 fs3 \<and>
    (\<forall>p content. closed_path (symbol_stem w) p \<longrightarrow> map_of fs0 p = Some content \<longrightarrow> map_of fs1 p = Some content) \<and>
    (\<forall>p content. closed_path (symbol_stem w) p \<longrightarrow> map_of fs1 p = Some content \<longrightarrow> map_of fs3 p = Some content) \<and>
    (output_open w1 \<longrightarrow> map_of fs1 (fw_path w1) \<noteq> None \<and> \<not> closed_path (symbol_stem w) (fw_path w1)) \<and>
    \<not> output_open w3 \<and>
    (output_open w2 \<longrightarrow>
      (if rename_ok io_end
       then \<exists>p. closed_path (symbol_stem w) p \<and> map_of fs2 p = None \<and> map_of fs3 p = map_of fs2 (fw_path w2)
       else fs3 = fs2))"
proof -
  let ?stem = "symbol_stem w"
  have "writer_paths (filter (\<lambda>c. c \<noteq> CHR ''/'') (bs_symbol book)) w \<and>
      keeps_others (filter (\<lambda>c. c \<noteq> CHR ''/'') (bs_symbol book)) fs0 fs"
    using assms(3) unfolding FileWriter_create_def by (rule Open_keeps [OF assms(1), rotated 2]) simp_all
  then have 1: "writer_paths ?stem w" "keeps_others ?stem fs0 fs" by (auto simp: writer_paths_def)
  have h: "handle_ok w fs"
    using assms(3) unfolding FileWriter_create_def by (rule Open_handle) simp
  have 2: "writer_paths ?stem w1" "keeps_others ?stem fs fs1"
    using thread_keeps [OF 1(1) _ assms(4)] assms(2) by auto
  have 3: "writer_paths ?stem w2" "keeps_others ?stem fs1 fs2"
    using thread_keeps [OF 2(1) _ assms(5)] assms(2) by auto
  have h1: "handle_ok w1 fs1" by (rule thread_handle [OF assms(4) h])
  have h2: "handle_ok w2 fs2" by (rule thread_handle [OF assms(5) h1])
  obtain r' where c: "FileWriter_Close io_end w2 fs2 = (w3, fs3, r')"
    using assms(6) by (auto simp: FileWriter_destroy_def split: prod.splits)
  have before: "keeps_others ?stem fs0 fs1" by (rule keeps_others_trans [OF 1(2) 2(2)])
  have after: "keeps_others ?stem fs1 fs3"
    using Close_keeps [OF 3(1) c] 3(2) keeps_others_trans by blast
  have "output_open w1 \<longrightarrow> map_of fs1 (fw_path w1) \<noteq> None \<and> \<not> closed_path ?stem (fw_path w1)"
    using h1 2(1) recording_not_closed by (auto simp: handle_ok_def writer_paths_def)
  then show ?thesis
    using before after keeps_closed [OF before] keeps_closed [OF after] Close_handle [OF c]
      Close_moves [OF 3(1) h2 _ c]
    by (simp add: if_split)
qed

text \<open>This writer closes a recording, then its next open fails: the closed one stays.\<close>

theorem closed_recordings_stay_witness:
  "let io = \<lparr>unix_nanos_now = 5, unix_time_now = 0, open_ok = True, header_fails_after = None,
         write_fails_after = None, rename_ok = True\<rparr>;
       m = \<lparr>msg_type = kSnapshot, checksum = 0, venue_time_ns = 0, capture_time_ns = 0, msg_symbol = ''A/B'',
         buys = [], sells = []\<rparr>;
       (w, fs, r) = FileWriter_create io ''kraken'' \<lparr>bs_symbol = ''A/B'', bs_depth = 10\<rparr>
         \<lparr>price_decimals = 1, qty_decimals = 8\<rparr> [(''AB-0-0.bin'', [1])];
       (w1, fs1) = FileWriter_thread [(io, Some m), (io, None)] w fs;
       (w2, fs2) = FileWriter_thread [(io\<lparr>open_ok := False\<rparr>, Some m)] w1 fs1;
       (w3, fs3) = FileWriter_destroy (io\<lparr>rename_ok := False\<rparr>) w2 fs2
   in map_of fs3 ''AB-0-0.bin'' = Some [1] \<and>
     (\<exists>p. closed_path ''AB'' p \<and> map_of fs3 p = Some (recording (MakeFileHeader ''kraken''
        \<lparr>bs_symbol = ''A/B'', bs_depth = 10\<rparr> \<lparr>price_decimals = 1, qty_decimals = 8\<rparr> 0) 5 [m]))"
proof -
  let ?io = "\<lparr>unix_nanos_now = 5, unix_time_now = 0, open_ok = True, header_fails_after = None,
         write_fails_after = None, rename_ok = True\<rparr>"
  let ?m = "\<lparr>msg_type = kSnapshot, checksum = 0, venue_time_ns = 0, capture_time_ns = 0, msg_symbol = ''A/B'',
         buys = [], sells = []\<rparr>"
  let ?h = "MakeFileHeader ''kraken'' \<lparr>bs_symbol = ''A/B'', bs_depth = 10\<rparr> \<lparr>price_decimals = 1, qty_decimals = 8\<rparr> 0"
  let ?es1 = "[(?io, Some ?m), (?io, None)]" and ?es2 = "[(?io\<lparr>open_ok := False\<rparr>, Some ?m)]"
  obtain w fs r where c: "FileWriter_create ?io ''kraken'' \<lparr>bs_symbol = ''A/B'', bs_depth = 10\<rparr>
      \<lparr>price_decimals = 1, qty_decimals = 8\<rparr> [(''AB-0-0.bin'', [1])] = (w, fs, r)" by (metis prod_cases3)
  obtain w1 fs1 where t1: "FileWriter_thread ?es1 w fs = (w1, fs1)" by fastforce
  obtain w2 fs2 where t2: "FileWriter_thread ?es2 w1 fs1 = (w2, fs2)" by fastforce
  obtain w3 fs3 where d: "FileWriter_destroy (?io\<lparr>rename_ok := False\<rparr>) w2 fs2 = (w3, fs3)" by fastforce
  have stem: "symbol_stem w = ''AB''"
    using c by (auto simp: FileWriter_create_def FileWriter_Open_def Let_def)
  have old: "closed_path ''AB'' ''AB-0-0.bin''"
    unfolding closed_path_def
    by (rule exI [of _ 0], rule exI [of _ "''0.bin''"]) (simp add: nat_to_dec.simps)
  have ok: "io_ok ?io" "entry_ok (?io, Some ?m)" "entry_ok (?io, None)"
    by (simp_all add: io_ok_def entry_ok_def fits_def)
  have "writer_holds ''AB'' ?h w fs (Some (5, []))"
    using Open_holds [OF ok(1) _ _ _ c [unfolded FileWriter_create_def], of "''AB''" ?h]
    by (auto intro!: exI [of _ 0] simp: MakeFileHeader_def)
  moreover obtain wa fsa ra where a: "FileWriter_Consume ?io (Some ?m) w fs = (wa, fsa, ra)" by (metis prod_cases3)
  ultimately have held: "ra = Inr ()" "writer_holds ''AB'' ?h wa fsa (Some (5, [?m]))"
    using Consume_message [OF _ ok(2) a, of "''AB''" ?h "Some (5, [])"] by simp_all
  obtain wb fsb rb where b: "FileWriter_Consume ?io None wa fsa = (wb, fsb, rb)" by (metis prod_cases3)
  have "rb = Inr ()" "\<exists>p. closed_path ''AB'' p \<and> map_of fsb p = Some (recording ?h 5 [?m])"
    using Consume_gap [OF held(2) ok(3) _ b] by auto
  moreover from this have "fsb = fs1" using t1 by (simp add: a b held(1))
  ultimately obtain p where p: "closed_path ''AB'' p" "map_of fs1 p = Some (recording ?h 5 [?m])" by blast
  note stay = closed_recordings_stay [OF _ _ c t1 t2 d, unfolded stem]
  have "map_of fs3 p = Some (recording ?h 5 [?m]) \<and> map_of fs3 ''AB-0-0.bin'' = Some [1]"
    using stay p old by simp
  with p(1) have "map_of fs3 ''AB-0-0.bin'' = Some [1] \<and>
      (\<exists>p. closed_path ''AB'' p \<and> map_of fs3 p = Some (recording ?h 5 [?m]))" by blast
  then show ?thesis by (simp only: c t1 t2 d Let_def prod.case)
qed

end
