(* ===== verification/Spsc.thy ===== *)
theory Spsc
  imports Prelude "HOL-Library.Sublist"
begin

text \<open>
  core/spsc.h: how values get from one thread to another, for a bounded queue of one
  producer and one consumer. A step is what a thread does between two points at which the
  other can see it: a try to push, a look at the flag to give up, a look at the stop token,
  a value consumed. Four lists beside the state remember what was offered to the queue,
  what it took, what was given up and what was consumed.
\<close>

section \<open>The code\<close>

datatype 'a producer_at = Idle | Pushing 'a | Checking 'a

text \<open>The consumer: at its look at the stop token, past it, consuming, and returned, normally or after \<^verbatim>\<open>on_fail\<close>.\<close>

datatype consumer_at = AtHead | StopSeen | Consuming | Drained | OnFail

record 'a Spsc =
  sp_queue :: "'a list"
  sp_producer :: "'a producer_at"
  sp_give_up :: bool
  sp_stop :: bool
  sp_consumer :: consumer_at
  sp_offered :: "'a list"
  sp_pushed :: "'a list"
  sp_given_up :: "'a list"
  sp_consumed :: "'a list"

definition Spsc_init :: "'a Spsc" where
  "Spsc_init = \<lparr>sp_queue = [], sp_producer = Idle, sp_give_up = False, sp_stop = False, sp_consumer = AtHead,
     sp_offered = [], sp_pushed = [], sp_given_up = [], sp_consumed = []\<rparr>"

text \<open>The producer comes to \<^verbatim>\<open>PushBlocking\<close>, and one step of its loop.\<close>

definition Push_begin :: "'a \<Rightarrow> 'a Spsc \<Rightarrow> 'a Spsc" where
  "Push_begin v s = s\<lparr>sp_producer := Pushing v, sp_offered := sp_offered s @ [v]\<rparr>"

definition PushBlocking :: "nat \<Rightarrow> 'a Spsc \<Rightarrow> 'a Spsc" where
  "PushBlocking capacity s =
     (case sp_producer s of
        Idle \<Rightarrow> s
      | Pushing v \<Rightarrow>
          if length (sp_queue s) < capacity
          then s\<lparr>sp_queue := sp_queue s @ [v], sp_pushed := sp_pushed s @ [v], sp_producer := Idle\<rparr>
          else s\<lparr>sp_producer := Checking v\<rparr>
      | Checking v \<Rightarrow>
          if sp_give_up s then s\<lparr>sp_given_up := sp_given_up s @ [v], sp_producer := Idle\<rparr>
          else s\<lparr>sp_producer := Pushing v\<rparr>)"

text \<open>One step of \<^verbatim>\<open>Drain\<close>'s loop; \<open>throws\<close> is whether the consumer throws on a value.\<close>

definition Drain :: "('a \<Rightarrow> bool) \<Rightarrow> 'a Spsc \<Rightarrow> 'a Spsc" where
  "Drain throws s =
     (case sp_consumer s of
        AtHead \<Rightarrow> s\<lparr>sp_consumer := if sp_stop s then StopSeen else Consuming\<rparr>
      | StopSeen \<Rightarrow> s\<lparr>sp_consumer := if sp_queue s \<noteq> [] then Consuming else Drained\<rparr>
      | Consuming \<Rightarrow>
          (case sp_queue s of
             [] \<Rightarrow> s\<lparr>sp_consumer := AtHead\<rparr>
           | v # rest \<Rightarrow>
               if throws v then s\<lparr>sp_consumer := OnFail\<rparr>
               else s\<lparr>sp_queue := rest, sp_consumed := sp_consumed s @ [v], sp_consumer := AtHead\<rparr>)
      | Drained \<Rightarrow> s
      | OnFail \<Rightarrow> s)"

section \<open>Runs\<close>

text \<open>
  Both threads in any order, with the consumer's steps counted; the stop and the flag to give
  up may be set at any time.
\<close>

inductive spsc_run :: "nat \<Rightarrow> ('a \<Rightarrow> bool) \<Rightarrow> nat \<Rightarrow> 'a Spsc \<Rightarrow> 'a Spsc \<Rightarrow> bool"
  for capacity :: nat and throws :: "'a \<Rightarrow> bool" where
  sp_none: "spsc_run capacity throws 0 s s"
| sp_begin: "spsc_run capacity throws k s s' \<Longrightarrow> sp_producer s' = Idle \<Longrightarrow> spsc_run capacity throws k s (Push_begin v s')"
| sp_push: "spsc_run capacity throws k s s' \<Longrightarrow> spsc_run capacity throws k s (PushBlocking capacity s')"
| sp_give_up: "spsc_run capacity throws k s s' \<Longrightarrow> spsc_run capacity throws k s (s'\<lparr>sp_give_up := True\<rparr>)"
| sp_stop: "spsc_run capacity throws k s s' \<Longrightarrow> spsc_run capacity throws k s (s'\<lparr>sp_stop := True\<rparr>)"
| sp_drain: "spsc_run capacity throws k s s' \<Longrightarrow> spsc_run capacity throws (Suc k) s (Drain throws s')"

definition in_hand :: "'a producer_at \<Rightarrow> 'a list" where
  "in_hand p = (case p of Idle \<Rightarrow> [] | Pushing v \<Rightarrow> [v] | Checking v \<Rightarrow> [v])"

lemma in_hand_simps [simp]: "in_hand Idle = []" "in_hand (Pushing v) = [v]" "in_hand (Checking v) = [v]"
  by (simp_all add: in_hand_def)

text \<open>
  What went in comes out: in order, each once, and as long as nobody gave up all of it.
  A value that made the consumer throw is still at the front.
\<close>

definition spsc_ok :: "nat \<Rightarrow> ('a \<Rightarrow> bool) \<Rightarrow> 'a Spsc \<Rightarrow> bool" where
  "spsc_ok capacity throws s \<longleftrightarrow>
     sp_consumed s @ sp_queue s = sp_pushed s \<and> length (sp_queue s) \<le> capacity \<and>
     (\<exists>past. sp_offered s = past @ in_hand (sp_producer s) \<and> past \<in> shuffles (sp_pushed s) (sp_given_up s)) \<and>
     (sp_given_up s \<noteq> [] \<longrightarrow> sp_give_up s) \<and> (\<forall>v \<in> set (sp_consumed s). \<not> throws v) \<and>
     (sp_consumer s = OnFail \<longrightarrow> sp_queue s \<noteq> [] \<and> throws (hd (sp_queue s)))"

lemma shuffles_singleton: "ys @ [v] \<in> shuffles [v] ys"
  by (induction ys) (auto simp: Cons_in_shuffles_iff)

lemma shuffles_snoc: "zs \<in> shuffles xs ys \<Longrightarrow> zs @ [v] \<in> shuffles (xs @ [v]) ys"
  by (induction xs ys arbitrary: zs rule: shuffles.induct)
    (auto simp: Cons_in_shuffles_iff append_eq_Cons_conv shuffles_singleton)

lemma shuffles_snoc2: "zs \<in> shuffles xs ys \<Longrightarrow> zs @ [v] \<in> shuffles xs (ys @ [v])"
  using shuffles_snoc [of zs ys xs v] by (simp add: shuffles_commutes)

lemma shuffles_subseq: "zs \<in> shuffles xs ys \<Longrightarrow> subseq xs zs"
  by (induction xs ys arbitrary: zs rule: shuffles.induct) auto

lemma spsc_ok_init: "spsc_ok capacity throws Spsc_init"
  by (simp add: spsc_ok_def Spsc_init_def)

lemma spsc_ok_begin: "spsc_ok capacity throws s \<Longrightarrow> sp_producer s = Idle \<Longrightarrow> spsc_ok capacity throws (Push_begin v s)"
  by (simp add: spsc_ok_def Push_begin_def)

lemma spsc_ok_push: "spsc_ok capacity throws s \<Longrightarrow> spsc_ok capacity throws (PushBlocking capacity s)"
  by (auto simp: spsc_ok_def PushBlocking_def shuffles_snoc shuffles_snoc2
      simp flip: append_assoc simp del: append_assoc split: producer_at.splits)
    (metis append_Nil shuffles.simps(2) shuffles_snoc2 singletonI)+

lemma spsc_ok_drain: "spsc_ok capacity throws s \<Longrightarrow> spsc_ok capacity throws (Drain throws s)"
  by (auto simp: spsc_ok_def Drain_def split: consumer_at.splits list.splits)

lemma spsc_ok_flags [simp]:
  "spsc_ok capacity throws (s\<lparr>sp_stop := b\<rparr>) = spsc_ok capacity throws s"
  "spsc_ok capacity throws s \<Longrightarrow> spsc_ok capacity throws (s\<lparr>sp_give_up := True\<rparr>)"
  by (auto simp: spsc_ok_def)

lemma spsc_ok_run: "spsc_run capacity throws k s s' \<Longrightarrow> spsc_ok capacity throws s \<Longrightarrow> spsc_ok capacity throws s'"
  by (induction rule: spsc_run.induct) (simp_all add: spsc_ok_begin spsc_ok_push spsc_ok_drain)

text \<open>The consumer is past the stop only once it was requested.\<close>

definition stop_seen_ok :: "'a Spsc \<Rightarrow> bool" where
  "stop_seen_ok s \<longleftrightarrow> (sp_consumer s = StopSeen \<or> sp_consumer s = Drained \<longrightarrow> sp_stop s)"

lemma stop_seen_run: "spsc_run capacity throws k s s' \<Longrightarrow> stop_seen_ok s \<Longrightarrow> stop_seen_ok s'"
  by (induction rule: spsc_run.induct)
    (auto simp: stop_seen_ok_def Push_begin_def PushBlocking_def Drain_def
      split: producer_at.splits consumer_at.splits list.splits)

lemma run_takes_more:
  assumes "spsc_run capacity throws k s s'" and "spsc_ok capacity throws s" and "sp_consumer s \<noteq> Drained"
  shows "prefix (sp_pushed s) (sp_pushed s') \<and> (sp_consumer s' = Drained \<longrightarrow> prefix (sp_pushed s) (sp_consumed s'))"
  using assms
proof (induction rule: spsc_run.induct)
  case (sp_drain k s s')
  have "spsc_ok capacity throws s'" using sp_drain by (blast intro: spsc_ok_run)
  then show ?case
    using sp_drain by (auto simp: Drain_def spsc_ok_def split: consumer_at.splits list.splits)
qed (auto simp: Push_begin_def PushBlocking_def prefix_def split: producer_at.splits)

text \<open>A stop with nothing more offered ends the loop.\<close>

definition drain_left :: "'a Spsc \<Rightarrow> nat" where
  "drain_left s =
     (case sp_consumer s of
        AtHead \<Rightarrow> 3 * length (sp_queue s) + 2
      | StopSeen \<Rightarrow> 3 * length (sp_queue s) + 1
      | Consuming \<Rightarrow> if sp_queue s = [] then 3 else 3 * length (sp_queue s)
      | _ \<Rightarrow> 0)"

lemma drain_left_step: "sp_stop s \<Longrightarrow> drain_left (Drain throws s) = drain_left s - 1 \<or> drain_left (Drain throws s) = 0"
  by (auto simp: drain_left_def Drain_def split: consumer_at.splits list.splits)

lemma Drain_stop [simp]: "sp_stop (Drain throws s) = sp_stop s"
  by (simp add: Drain_def split: consumer_at.split list.split)

lemma drain_returns:
  assumes "sp_stop s" and "n \<ge> 3 * length (sp_queue s) + 3"
  shows "sp_consumer ((Drain throws ^^ n) s) \<in> {Drained, OnFail}"
proof -
  have "drain_left ((Drain throws ^^ n) s) \<le> drain_left s - n \<and> sp_stop ((Drain throws ^^ n) s)" for n
  proof (induction n)
    case (Suc n)
    then show ?case
      using drain_left_step [of "(Drain throws ^^ n) s" throws] by (auto simp: Drain_stop)
  qed (use assms(1) in simp)
  from this [of n] have "drain_left ((Drain throws ^^ n) s) = 0"
    using assms(2) by (auto simp: drain_left_def split: consumer_at.splits if_splits)
  then show ?thesis by (auto simp: drain_left_def split: consumer_at.splits if_splits)
qed

end
