(* ===== verification/L2FileWriterRuns.thy ===== *)
theory L2FileWriterRuns
  imports L2FileWriter Spsc
begin

text \<open>
  l2/file_writer.cc with its two threads: the parser's, which hands entries to \<^verbatim>\<open>Receive\<close>
  and \<^verbatim>\<open>OnGap\<close> through the queue, and the writer's, which consumes them. What a recording
  holds is stated of what the writer was given, not of what its thread came to consume.
\<close>

section \<open>The code\<close>

record Recorder =
  rc_writer :: FileWriter
  rc_files :: files
  rc_queue :: "Message option Spsc"

definition FileWriter_Receive :: "Message \<Rightarrow> Recorder \<Rightarrow> Recorder" where
  "FileWriter_Receive message s = s\<lparr>rc_queue := Push_begin (Some message) (rc_queue s)\<rparr>"

definition FileWriter_OnGap :: "Recorder \<Rightarrow> Recorder" where
  "FileWriter_OnGap s = s\<lparr>rc_queue := Push_begin None (rc_queue s)\<rparr>"

text \<open>One step of the thread's \<^verbatim>\<open>core::Drain\<close>, with \<open>failed_\<close> the flag to give up a push.\<close>

definition FileWriter_thread_step :: "io \<Rightarrow> Recorder \<Rightarrow> Recorder" where
  "FileWriter_thread_step io s =
     (let q = rc_queue s; w = rc_writer s; fs = rc_files s
      in case (sp_consumer q, sp_queue q) of
           (Consuming, entry # _) \<Rightarrow>
             (case FileWriter_Consume io entry w fs of
                (w, fs, Inr _) \<Rightarrow> \<lparr>rc_writer = w, rc_files = fs, rc_queue = Drain (\<lambda>_. False) q\<rparr>
              | (w, fs, Inl _) \<Rightarrow> \<lparr>rc_writer = w\<lparr>fw_failed := True\<rparr>, rc_files = fs,
                  rc_queue = (Drain (\<lambda>_. True) q)\<lparr>sp_give_up := True\<rparr>\<rparr>)
         | _ \<Rightarrow> s\<lparr>rc_queue := Drain (\<lambda>_. False) q\<rparr>)"

section \<open>Runs\<close>

text \<open>What a step of the thread consumes.\<close>

definition turn :: "io \<Rightarrow> Recorder \<Rightarrow> (io \<times> Message option) list" where
  "turn io s =
     (case (sp_consumer (rc_queue s), sp_queue (rc_queue s)) of (Consuming, entry # _) \<Rightarrow> [(io, entry)] | _ \<Rightarrow> [])"

text \<open>
  From the constructor to the end of the thread, in any order of the two threads' steps;
  \<open>es\<close> is what the thread consumed, each with the \<open>io\<close> of its turn. The destructor asks
  the thread to stop when nobody calls the writer any more.
\<close>

inductive recorder_run :: "FileWriter \<Rightarrow> files \<Rightarrow> (io \<times> Message option) list \<Rightarrow> Recorder \<Rightarrow> bool"
  for w0 :: FileWriter and fs0 :: files where
  rec_start: "recorder_run w0 fs0 [] \<lparr>rc_writer = w0, rc_files = fs0, rc_queue = Spsc_init\<rparr>"
| rec_receive: "recorder_run w0 fs0 es s \<Longrightarrow> sp_producer (rc_queue s) = Idle \<Longrightarrow> \<not> sp_stop (rc_queue s) \<Longrightarrow>
     recorder_run w0 fs0 es (FileWriter_Receive message s)"
| rec_gap: "recorder_run w0 fs0 es s \<Longrightarrow> sp_producer (rc_queue s) = Idle \<Longrightarrow> \<not> sp_stop (rc_queue s) \<Longrightarrow>
     recorder_run w0 fs0 es (FileWriter_OnGap s)"
| rec_push: "recorder_run w0 fs0 es s \<Longrightarrow>
     recorder_run w0 fs0 es (s\<lparr>rc_queue := PushBlocking kMaxQueuedMessages (rc_queue s)\<rparr>)"
| rec_thread: "recorder_run w0 fs0 es s \<Longrightarrow> recorder_run w0 fs0 (es @ turn io s) (FileWriter_thread_step io s)"
| rec_stop: "recorder_run w0 fs0 es s \<Longrightarrow> sp_producer (rc_queue s) = Idle \<Longrightarrow>
     recorder_run w0 fs0 es (s\<lparr>rc_queue := (rc_queue s)\<lparr>sp_stop := True\<rparr>\<rparr>)"

section \<open>What went in is recorded or on its way\<close>

lemma Consume_failed [simp]:
  "FileWriter_Consume io entry w fs = (w', fs', r) \<Longrightarrow> fw_failed w' = fw_failed w"
  by (auto simp: FileWriter_Consume_def FileWriter_Open_def FileWriter_Write_def FileWriter_Close_def Let_def
      split: option.splits if_splits sum.splits prod.splits)

lemma FileWriter_thread_snoc:
  assumes "\<not> fw_failed w"
  shows "FileWriter_thread (es @ [x]) w fs =
    (case FileWriter_thread es w fs of (w', fs') \<Rightarrow> if fw_failed w' then (w', fs') else FileWriter_thread [x] w' fs')"
  using assms
proof (induction es arbitrary: w fs)
  case (Cons e es)
  obtain io entry where e: "e = (io, entry)" by fastforce
  obtain w' fs' r where c: "FileWriter_Consume io entry w fs = (w', fs', r)" by (metis prod_cases3)
  show ?case using Cons c Consume_failed [OF c] by (cases r) (simp_all add: e)
qed (cases x, simp)

text \<open>
  The thread consumed what was pushed first, in order, and the writer is what consuming it
  made of it. Unless the writer failed, the rest is in the queue or in the producer's hand;
  it fails with the thread's end.
\<close>

definition recorder_ok :: "FileWriter \<Rightarrow> files \<Rightarrow> (io \<times> Message option) list \<Rightarrow> Recorder \<Rightarrow> bool" where
  "recorder_ok w0 fs0 es s \<longleftrightarrow>
     (let q = rc_queue s; w = rc_writer s in
      FileWriter_thread es w0 fs0 = (w, rc_files s) \<and> prefix (map snd es) (sp_offered q) \<and>
      (fw_failed w \<longleftrightarrow> sp_give_up q) \<and> (fw_failed w \<longleftrightarrow> sp_consumer q = OnFail) \<and>
      (\<not> fw_failed w \<longrightarrow> map snd es @ sp_queue q @ in_hand (sp_producer q) = sp_offered q) \<and>
      length (sp_queue q) \<le> kMaxQueuedMessages \<and>
      (sp_stop q \<longrightarrow> sp_producer q = Idle) \<and>
      (sp_consumer q \<in> {StopSeen, Drained} \<longrightarrow> sp_stop q) \<and> (sp_consumer q = Drained \<longrightarrow> sp_queue q = []))"

lemma thread_step_ok:
  assumes "recorder_ok w0 fs0 es s" and w0: "\<not> fw_failed w0"
  shows "recorder_ok w0 fs0 (es @ turn io s) (FileWriter_thread_step io s)"
proof (cases "sp_consumer (rc_queue s) = Consuming \<and> sp_queue (rc_queue s) \<noteq> []")
  case False
  then have "FileWriter_thread_step io s = s\<lparr>rc_queue := Drain (\<lambda>_. False) (rc_queue s)\<rparr>" "turn io s = []"
    by (auto simp: FileWriter_thread_step_def turn_def Let_def split: consumer_at.split list.split)
  then show ?thesis
    using assms False by (auto simp: recorder_ok_def Drain_def Let_def split: consumer_at.splits)
next
  case True
  then obtain entry rest where q: "sp_consumer (rc_queue s) = Consuming" "sp_queue (rc_queue s) = entry # rest"
    by (cases "sp_queue (rc_queue s)") auto
  obtain w fs r where c: "FileWriter_Consume io entry (rc_writer s) (rc_files s) = (w, fs, r)" by (metis prod_cases3)
  have "\<not> fw_failed (rc_writer s)" using assms q by (auto simp: recorder_ok_def Let_def)
  then have "prefix (map snd es @ [entry]) (sp_offered (rc_queue s))"
    using assms q by (auto simp: recorder_ok_def Let_def prefix_def intro!: exI [of _ "rest @ in_hand (sp_producer (rc_queue s))"])
  then show ?thesis
    using assms q c \<open>\<not> fw_failed (rc_writer s)\<close> Consume_failed [OF c]
    by (cases r) (auto simp: recorder_ok_def FileWriter_thread_step_def turn_def Let_def Drain_def FileWriter_thread_snoc [OF w0])
qed

lemma run_recorder_ok: "recorder_run w0 fs0 es s \<Longrightarrow> \<not> fw_failed w0 \<Longrightarrow> recorder_ok w0 fs0 es s"
proof (induction rule: recorder_run.induct)
  case (rec_thread es s io)
  then show ?case by (simp add: thread_step_ok)
qed (auto simp: recorder_ok_def Spsc_init_def FileWriter_Receive_def FileWriter_OnGap_def Push_begin_def PushBlocking_def
    Let_def prefix_def split: producer_at.splits)

section \<open>The end of the thread\<close>

lemma thread_step_stop [simp]: "sp_stop (rc_queue (FileWriter_thread_step io s)) = sp_stop (rc_queue s)"
  by (simp add: FileWriter_thread_step_def Let_def split: consumer_at.split list.split sum.split prod.split)

lemma thread_step_left:
  assumes "sp_stop (rc_queue s)"
  shows "drain_left (rc_queue (FileWriter_thread_step io s)) \<le> drain_left (rc_queue s) - 1"
proof -
  have "drain_left (Drain throws (rc_queue s)) \<le> drain_left (rc_queue s) - 1" for throws
    using drain_left_step [OF assms, of throws] by auto
  moreover have "drain_left (q\<lparr>sp_give_up := True\<rparr>) = drain_left q" for q :: "Message option Spsc"
    by (simp add: drain_left_def split: consumer_at.split)
  ultimately show ?thesis
    by (auto simp: FileWriter_thread_step_def Let_def split: consumer_at.split list.split sum.split prod.split)
qed

lemma thread_ends:
  assumes "sp_stop (rc_queue s)" and "3 * length (sp_queue (rc_queue s)) + 3 \<le> length ios"
  shows "sp_consumer (rc_queue (fold FileWriter_thread_step ios s)) \<in> {Drained, OnFail}"
proof -
  have "drain_left (rc_queue (fold FileWriter_thread_step ios s)) \<le> drain_left (rc_queue s) - length ios" for ios
    using assms(1)
  proof (induction ios arbitrary: s)
    case (Cons io ios)
    have "drain_left (rc_queue (fold FileWriter_thread_step ios (FileWriter_thread_step io s))) \<le>
        drain_left (rc_queue (FileWriter_thread_step io s)) - length ios" using Cons by simp
    then show ?case using thread_step_left [OF Cons.prems, of io] by simp
  qed simp
  from this [of ios] have "drain_left (rc_queue (fold FileWriter_thread_step ios s)) = 0"
    using assms(2) by (auto simp: drain_left_def split: consumer_at.splits if_splits)
  then show ?thesis by (auto simp: drain_left_def split: consumer_at.splits if_splits)
qed

lemma fold_thread:
  assumes "recorder_run w0 fs0 es s"
  shows "\<exists>es'. recorder_run w0 fs0 es' (fold FileWriter_thread_step ios s) \<and> fst ` set es' \<subseteq> fst ` set es \<union> set ios"
  using assms
proof (induction ios arbitrary: es s)
  case (Cons io ios)
  have "fst ` set (turn io s) \<subseteq> {io}" by (auto simp: turn_def split: consumer_at.split list.split)
  moreover obtain es' where "recorder_run w0 fs0 es' (fold FileWriter_thread_step (io # ios) s)"
    "fst ` set es' \<subseteq> fst ` set es \<union> fst ` set (turn io s) \<union> set ios"
    using Cons.IH [OF rec_thread [OF Cons.prems, of io]] by (auto simp: image_Un)
  moreover from calculation have "fst ` set es' \<subseteq> fst ` set es \<union> set (io # ios)" unfolding list.set by blast
  ultimately show ?case by blast
qed auto

lemma thread_steps_offered [simp]:
  "sp_offered (rc_queue (fold FileWriter_thread_step ios s)) = sp_offered (rc_queue s)"
proof -
  have "sp_offered (Drain throws q) = sp_offered q" for throws and q :: "Message option Spsc"
    by (simp add: Drain_def split: consumer_at.split list.split)
  then have "sp_offered (rc_queue (FileWriter_thread_step io s)) = sp_offered (rc_queue s)" for io s
    by (simp add: FileWriter_thread_step_def Let_def split: consumer_at.split list.split sum.split prod.split)
  then show ?thesis by (induction ios arbitrary: s) simp_all
qed

lemma closed_as_mono:
  "closed_as stem header starts fs fs' rs \<Longrightarrow> starts \<subseteq> starts' \<Longrightarrow> closed_as stem header starts' fs fs' rs"
  unfolding closed_as_def by blast

section \<open>What the closed recordings are\<close>

lemma recorder_closes:
  assumes "FileWriter_create io0 venue book precision fs0 = (w, fs, r)" and "recorder_run w fs es s"
    and "sp_stop (rc_queue s)" and "3 * length (sp_queue (rc_queue s)) + 3 \<le> length ios"
    and "FileWriter_destroy io_end (rc_writer (fold FileWriter_thread_step ios s))
      (rc_files (fold FileWriter_thread_step ios s)) = (w2, fs2)"
    and "list_all io_ok (io0 # io_end # map fst es @ ios)"
    and "list_all fits (List.map_filter id (sp_offered (rc_queue s)))" and "length (sp_offered (rc_queue s)) < 2 ^ 64"
  shows "sp_consumer (rc_queue (fold FileWriter_thread_step ios s)) = Drained \<and> \<not> fw_failed w2 \<and>
    keeps_others (symbol_stem w) fs0 fs2 \<and>
    (\<exists>rs. map (\<lambda>(p, start, ms). ms) rs = unbroken (Some []) (sp_offered (rc_queue s)) \<and>
      closed_as (symbol_stem w) (MakeFileHeader venue book precision 0)
        (unix_nanos_now ` set (io0 # map fst es @ ios)) fs0 fs2 rs)"
proof -
  let ?s = "fold FileWriter_thread_step ios s"
  have new: "\<not> fw_failed w"
    using assms(1) by (auto simp: FileWriter_create_def FileWriter_Open_def Let_def split: if_splits)
  obtain es' where run: "recorder_run w fs es' ?s" and io: "fst ` set es' \<subseteq> fst ` set es \<union> set ios"
    using fold_thread [OF assms(2)] by blast
  note ok = run_recorder_ok [OF run new, unfolded recorder_ok_def Let_def]
  have took: "FileWriter_thread es' w fs = (rc_writer ?s, rc_files ?s)" "prefix (map snd es') (sp_offered (rc_queue s))"
    using ok by simp_all
  have "fits m" if "(i, Some m) \<in> set es'" for i m
  proof -
    have "Some m \<in> set (sp_offered (rc_queue s))"
      using that set_mono_prefix [OF took(2)] by force
    then show ?thesis using assms(7) by (force simp: list_all_iff map_filter_def)
  qed
  moreover have "io_ok i" if "(i, e) \<in> set es'" for i e
  proof -
    have "i \<in> fst ` set es'" using that by (rule image_eqI [rotated]) simp
    then have "i \<in> fst ` set es \<union> set ios" using io by blast
    then show ?thesis using assms(6) by (auto simp: list_all_iff)
  qed
  ultimately have entries: "list_all entry_ok es'" by (auto simp: list_all_iff entry_ok_def)
  have few: "length es' < 2 ^ 64"
    using prefix_length_le [OF took(2)] assms(8) by simp
  obtain rs where rs: "map (\<lambda>(p, start, ms). ms) rs = unbroken (Some []) (map snd es')"
    "closed_as (symbol_stem w) (MakeFileHeader venue book precision 0) (unix_nanos_now ` insert io0 (fst ` set es')) fs0 fs2 rs"
    "keeps_others (symbol_stem w) fs0 fs2" "\<not> fw_failed w2"
    using recordings_are_stretches [OF _ _ entries few assms(1) took(1) assms(5)] assms(6) by auto
  have "\<not> fw_failed (rc_writer ?s)"
    using rs(4) assms(5) by (auto simp: FileWriter_destroy_def FileWriter_Close_def Let_def split: if_splits prod.splits)
  then have drained: "sp_consumer (rc_queue ?s) = Drained"
    using thread_ends [OF assms(3,4)] ok by auto
  have "sp_stop (rc_queue ?s)" using assms(3) by (induction ios arbitrary: s) simp_all
  then have "map snd es' = sp_offered (rc_queue s)" using ok drained \<open>\<not> fw_failed (rc_writer ?s)\<close> by auto
  moreover have "closed_as (symbol_stem w) (MakeFileHeader venue book precision 0)
      (unix_nanos_now ` set (io0 # map fst es @ ios)) fs0 fs2 rs"
  proof (rule closed_as_mono [OF rs(2)])
    have "insert io0 (fst ` set es') \<subseteq> set (io0 # map fst es @ ios)" using io by auto
    then show "unix_nanos_now ` insert io0 (fst ` set es') \<subseteq> unix_nanos_now ` set (io0 # map fst es @ ios)"
      by (rule image_mono)
  qed
  ultimately show ?thesis using rs drained by auto
qed

section \<open>The property\<close>

text \<open>
  C9. When its input and output work, nothing a writer was given is lost, however its two
  threads interleave and however full the queue was: once the destructor asked the thread
  to stop, it returns within three steps per entry left and three more, and the recordings
  then closed are exactly the unbroken stretches of what \<^verbatim>\<open>Receive\<close> and \<^verbatim>\<open>OnGap\<close> were called
  with: one closed file per stretch, with a header naming the venue, the book and the
  precision and a start time read from the clock, followed by the stretch's messages
  serialized in order. Their names are all different and were free, and every other file
  is what it was (files under a recording name of the pair, which a killed process may
  leave, excepted).
\<close>

theorem recordings_hold_what_was_received:
  assumes "FileWriter_create io0 venue book precision fs0 = (w, fs, r)" and "recorder_run w fs es s"
    and "sp_stop (rc_queue s)" and "3 * length (sp_queue (rc_queue s)) + 3 \<le> length ios"
    and "FileWriter_destroy io_end (rc_writer (fold FileWriter_thread_step ios s))
      (rc_files (fold FileWriter_thread_step ios s)) = (w2, fs2)"
    and "list_all io_ok (io0 # io_end # map fst es @ ios)"
    and "list_all fits (List.map_filter id (sp_offered (rc_queue s)))" and "length (sp_offered (rc_queue s)) < 2 ^ 64"
  shows "sp_consumer (rc_queue (fold FileWriter_thread_step ios s)) = Drained \<and> \<not> fw_failed w2 \<and>
    keeps_others (symbol_stem w) fs0 fs2 \<and>
    (\<exists>rs. map (\<lambda>(p, start, ms). ms) rs = unbroken (Some []) (sp_offered (rc_queue s)) \<and>
      closed_as (symbol_stem w) (MakeFileHeader venue book precision 0)
        (unix_nanos_now ` set (io0 # map fst es @ ios)) fs0 fs2 rs)"
  using recorder_closes [OF assms] .

text \<open>A message and a gap are handed over, and the thread runs only after the stop.\<close>

definition demo_io :: io where
  "demo_io = \<lparr>unix_nanos_now = 5, unix_time_now = 0, open_ok = True, header_fails_after = None,
     write_fails_after = None, rename_ok = True\<rparr>"

definition demo_recorded :: Message where
  "demo_recorded = \<lparr>msg_type = kSnapshot, checksum = 0, venue_time_ns = 0, capture_time_ns = 0, msg_symbol = ''A/B'',
     buys = [], sells = []\<rparr>"

definition demo_recorder :: "FileWriter \<Rightarrow> files \<Rightarrow> Recorder" where
  "demo_recorder w fs =
     (let push = (\<lambda>s. s\<lparr>rc_queue := PushBlocking kMaxQueuedMessages (rc_queue s)\<rparr>);
          s = push (FileWriter_Receive demo_recorded \<lparr>rc_writer = w, rc_files = fs, rc_queue = Spsc_init\<rparr>);
          s = push (FileWriter_OnGap s)
      in s\<lparr>rc_queue := (rc_queue s)\<lparr>sp_stop := True\<rparr>\<rparr>)"

lemma demo_recorder_run: "recorder_run w fs [] (demo_recorder w fs)"
  unfolding demo_recorder_def Let_def
  by (intro rec_stop rec_push rec_gap rec_receive rec_start)
    (simp_all add: FileWriter_Receive_def FileWriter_OnGap_def Push_begin_def PushBlocking_def Spsc_init_def
      kMaxQueuedMessages_def)

lemma demo_recorder_queue:
  "rc_queue (demo_recorder w fs) = \<lparr>sp_queue = [Some demo_recorded, None], sp_producer = Idle, sp_give_up = False,
     sp_stop = True, sp_consumer = AtHead, sp_offered = [Some demo_recorded, None],
     sp_pushed = [Some demo_recorded, None], sp_given_up = [], sp_consumed = []\<rparr>"
  by (simp add: demo_recorder_def FileWriter_Receive_def FileWriter_OnGap_def Push_begin_def PushBlocking_def
      Spsc_init_def kMaxQueuedMessages_def Let_def)

theorem recordings_hold_what_was_received_witness:
  "let (w, fs, r) = FileWriter_create demo_io ''kraken'' \<lparr>bs_symbol = ''A/B'', bs_depth = 10\<rparr>
         \<lparr>price_decimals = 1, qty_decimals = 8\<rparr> [];
       s = fold FileWriter_thread_step (replicate 9 demo_io) (demo_recorder w fs);
       (w, fs) = FileWriter_destroy demo_io (rc_writer s) (rc_files s)
   in \<exists>p. map_of fs p = Some (recording (MakeFileHeader ''kraken'' \<lparr>bs_symbol = ''A/B'', bs_depth = 10\<rparr>
        \<lparr>price_decimals = 1, qty_decimals = 8\<rparr> 0) 5 [demo_recorded])"
proof -
  let ?h = "MakeFileHeader ''kraken'' \<lparr>bs_symbol = ''A/B'', bs_depth = 10\<rparr> \<lparr>price_decimals = 1, qty_decimals = 8\<rparr> 0"
  obtain w fs r where c: "FileWriter_create demo_io ''kraken'' \<lparr>bs_symbol = ''A/B'', bs_depth = 10\<rparr>
      \<lparr>price_decimals = 1, qty_decimals = 8\<rparr> [] = (w, fs, r)" by (metis prod_cases3)
  let ?s = "fold FileWriter_thread_step (replicate 9 demo_io) (demo_recorder w fs)"
  obtain w2 fs2 where d: "FileWriter_destroy demo_io (rc_writer ?s) (rc_files ?s) = (w2, fs2)" by fastforce
  have io: "list_all io_ok (demo_io # demo_io # map fst ([] :: (io \<times> Message option) list) @ replicate 9 demo_io)"
    by (simp add: list_all_iff io_ok_def demo_io_def)
  have q: "sp_stop (rc_queue (demo_recorder w fs))" "3 * length (sp_queue (rc_queue (demo_recorder w fs))) + 3 \<le>
      length (replicate 9 demo_io)" "length (sp_offered (rc_queue (demo_recorder w fs))) < 2 ^ 64"
    "list_all fits (List.map_filter id (sp_offered (rc_queue (demo_recorder w fs))))"
    by (simp_all add: demo_recorder_queue map_filter_simps fits_def demo_recorded_def)
  obtain rs where "map (\<lambda>(p, start, ms). ms) rs = unbroken (Some []) (sp_offered (rc_queue (demo_recorder w fs)))"
    and closed: "closed_as (symbol_stem w) ?h (unix_nanos_now ` set (demo_io # map fst ([] :: (io \<times> Message option) list) @
      replicate 9 demo_io)) [] fs2 rs"
    using recordings_hold_what_was_received [OF c demo_recorder_run q(1,2) d io q(4,3)] by blast
  then have "map (\<lambda>(p, start, ms). ms) rs = [[demo_recorded]]" by (simp add: demo_recorder_queue)
  then obtain p start where rs: "rs = [(p, start, [demo_recorded])]" by auto
  with closed have "start = 5" "map_of fs2 p = Some (recording ?h start [demo_recorded])"
    by (auto simp: closed_as_def demo_io_def)
  then show ?thesis unfolding c Let_def prod.case d by (intro exI [of _ p]) simp
qed

end
