(* ===== verification/Crc32.thy ===== *)
theory Crc32
  imports Prelude
begin

text \<open>
  crypto/crc32.cc: the table driven CRC-32 of zlib, which Kraken's book checksum
  uses. It is compared with the standard's definition, the remainder of a division
  of polynomials, through a register that takes one bit at a time.
\<close>

unbundle bit_operations_syntax

section \<open>The code\<close>

definition crc_bit :: "u32 \<Rightarrow> u32" where
  "crc_bit crc = (if crc AND 1 \<noteq> 0 then drop_bit 1 crc XOR 0xEDB88320 else drop_bit 1 crc)"

fun crc_bits :: "nat \<Rightarrow> u32 \<Rightarrow> u32" where
  "crc_bits 0 crc = crc"
| "crc_bits (Suc n) crc = crc_bits n (crc_bit crc)"

definition BuildCrc32Table :: "u32 list" where
  "BuildCrc32Table = map (\<lambda>v. crc_bits 8 (of_nat v)) [0..<256]"

fun Crc32_loop :: "u32 \<Rightarrow> string \<Rightarrow> u32" where
  "Crc32_loop crc [] = crc"
| "Crc32_loop crc (byte # data) =
     Crc32_loop (BuildCrc32Table ! unat ((crc XOR of_char byte) AND 0xFF) XOR drop_bit 8 crc) data"

definition Crc32 :: "string \<Rightarrow> u32" where
  "Crc32 data = Crc32_loop 0xFFFFFFFF data XOR 0xFFFFFFFF"

section \<open>The register, one bit at a time\<close>

fun crc_serial :: "u32 \<Rightarrow> string \<Rightarrow> u32" where
  "crc_serial crc [] = crc"
| "crc_serial crc (byte # data) = crc_serial (crc_bits 8 (crc XOR of_char byte)) data"

lemma xor_cancel: "(a :: u32) XOR k = b XOR k \<longleftrightarrow> a = b" "k XOR (a :: u32) = k XOR b \<longleftrightarrow> a = b"
  by (metis xor.assoc xor.commute xor.right_neutral xor_self_eq)+

section \<open>The register step is linear and injective\<close>

lemma and_1_xor: "((a :: u32) XOR b) AND 1 \<noteq> 0 \<longleftrightarrow> (a AND 1 \<noteq> 0) \<noteq> (b AND 1 \<noteq> 0)"
  by (simp add: and_one_eq odd_iff_mod_2_eq_one [symmetric]) (simp add: even_xor_iff)

lemma crc_bit_xor: "crc_bit (a XOR b) = crc_bit a XOR crc_bit b"
  unfolding crc_bit_def and_1_xor
  by (auto simp: xor.assoc xor.left_commute xor.commute drop_bit_xor)

lemma crc_bits_xor: "crc_bits n (a XOR b) = crc_bits n a XOR crc_bits n b"
  by (induction n arbitrary: a b) (simp_all add: crc_bit_xor)

lemma crc_bits_high: "\<forall>i < n. \<not> bit x i \<Longrightarrow> crc_bits n x = drop_bit n x"
proof (induction n arbitrary: x)
  case (Suc n)
  then have "\<not> bit x 0" by simp
  then have "crc_bit x = drop_bit 1 x" by (simp add: crc_bit_def and_one_eq bit_0 odd_iff_mod_2_eq_one)
  with Suc.IH [of "drop_bit 1 x"] Suc.prems show ?case
    by (simp add: bit_drop_bit_eq)
qed simp

lemma crc_bits_byte: "crc_bits 8 x = crc_bits 8 (x AND 0xFF) XOR drop_bit 8 x"
proof -
  have mask: "(0xFF :: u32) = mask 8" by (simp add: mask_eq_exp_minus_1)
  define low where "low = x AND 0xFF"
  define high where "high = x AND NOT (mask 8 :: u32)"
  have x: "x = low XOR high"
    by (rule bit_eqI) (auto simp: low_def high_def mask bit_simps)
  have "crc_bits 8 high = drop_bit 8 high"
    by (rule crc_bits_high) (simp add: high_def bit_simps)
  also have "drop_bit 8 high = drop_bit 8 x"
    by (rule bit_eqI) (auto simp: high_def bit_simps dest: bit_imp_le_length)
  finally have "crc_bits 8 (low XOR high) = crc_bits 8 low XOR drop_bit 8 x"
    by (simp add: crc_bits_xor)
  then show ?thesis using arg_cong [OF x, of "crc_bits 8"] by (simp only: low_def)
qed

lemma crc_bit_inj: "crc_bit x = crc_bit y \<Longrightarrow> x = y"
proof -
  assume eq: "crc_bit x = crc_bit y"
  have top: "bit (crc_bit z) 31 \<longleftrightarrow> z AND 1 \<noteq> 0" for z
    using bit_imp_le_length [of z 32] by (auto simp: crc_bit_def bit_simps)
  have low: "(x AND 1 \<noteq> 0) = (y AND 1 \<noteq> 0)" using eq top by metis
  then have "drop_bit 1 x = drop_bit 1 y"
    using eq by (auto simp: crc_bit_def xor_cancel split: if_splits)
  moreover have "bit x 0 = bit y 0"
    using low by (simp add: bit_0 and_one_eq odd_iff_mod_2_eq_one)
  ultimately have "bit x i = bit y i" for i
    by (cases i) (simp, metis bit_drop_bit_eq comp_apply plus_1_eq_Suc)
  then show "x = y" by (simp add: bit_eq_iff)
qed

lemma crc_bits_inj: "crc_bits n x = crc_bits n y \<Longrightarrow> x = y"
  by (induction n arbitrary: x y) (auto dest: crc_bit_inj)

section \<open>The table is the register step\<close>

lemma unat_of_char: "unat (of_char c :: u32) = of_char c"
proof -
  have "(of_char c :: u32) = of_nat (of_char c)" by (cases c) (simp add: of_char_def)
  moreover have "(of_char c :: nat) < 2 ^ 32" using nat_of_char_less_256 [of c] by (rule less_trans) simp
  ultimately show ?thesis by (metis unat_of_nat_u32)
qed

lemma of_char_u32_inj: "(of_char c :: u32) = of_char d \<longleftrightarrow> c = d"
  by (metis of_char_eq_iff unat_of_char)

lemma drop_bit_byte: "drop_bit 8 (of_char c :: u32) = 0"
proof -
  have "(of_char c :: nat) < 256" using nat_of_char_less_256 [of c] by simp
  then have "unat (drop_bit 8 (of_char c :: u32)) = 0"
    using le_less_trans [OF mod_less_eq_dividend, of "of_char c" 256 4294967296]
    unfolding unsigned_drop_bit_eq unat_of_char by (simp add: take_bit_eq_mod drop_bit_eq_div)
  then show ?thesis by (simp only: unsigned_eq_0_iff)
qed

lemma table_step:
  "BuildCrc32Table ! unat ((crc XOR of_char b) AND 0xFF) XOR drop_bit 8 crc = crc_bits 8 (crc XOR of_char b)"
proof -
  let ?x = "(crc XOR of_char b) AND 0xFF :: u32"
  have "?x = take_bit 8 (crc XOR of_char b)" by (simp add: take_bit_eq_mask mask_eq_exp_minus_1)
  then have "unat ?x = take_bit 8 (unat (crc XOR of_char b))" 
    by (simp only: unsigned_take_bit_eq)
  then have "unat ?x < 256" using take_bit_nat_less_exp [of 8] by simp
  then have "BuildCrc32Table ! unat ?x = crc_bits 8 ?x"
    by (simp add: BuildCrc32Table_def)
  then show ?thesis
    using crc_bits_byte [of "crc XOR of_char b"] by (simp add: drop_bit_xor drop_bit_byte)
qed

lemma Crc32_loop_serial: "Crc32_loop crc data = crc_serial crc data"
  by (induction data arbitrary: crc) (simp_all add: table_step)

lemma crc_serial_append: "crc_serial crc (xs @ ys) = crc_serial (crc_serial crc xs) ys"
  by (induction xs arbitrary: crc) simp_all

lemma crc_serial_inj: "crc_serial a xs = crc_serial b xs \<Longrightarrow> a = b"
proof (induction xs arbitrary: a b)
  case (Cons x xs)
  then have "crc_bits 8 (a XOR of_char x) = crc_bits 8 (b XOR of_char x)" by simp
  then have "a XOR of_char x = b XOR of_char x" by (rule crc_bits_inj)
  then show ?case by (simp add: xor_cancel)
qed simp

section \<open>The standard's definition: a remainder of polynomials over GF(2)\<close>

text \<open>
  CRC-32 as its standard states it, without the register or the reflected
  constant of the code. A text is the polynomial whose coefficients, from the
  highest on, are the bits of its bytes, each byte from its lowest bit on. With
  32 zeros appended and its first 32 coefficients inverted it is divided by
  \<open>x^32 + x^26 + x^23 + x^22 + x^16 + x^12 + x^11 + x^10 + x^8 + x^7 + x^5 + x^4 + x^2 + x + 1\<close>;
  the checksum is the inverted remainder, whose highest coefficient is the
  lowest bit.
\<close>

definition crc32_divisor :: "bool list" where
  "crc32_divisor = map (\<lambda>e. e \<in> set [32, 26, 23, 22, 16, 12, 11, 10, 8, 7, 5, 4, 2, 1, 0]) (rev [0..<33 :: nat])"

text \<open>The coefficients of the second list with those of the first added to its front.\<close>

fun add_front :: "bool list \<Rightarrow> bool list \<Rightarrow> bool list" where
  "add_front [] ys = ys"
| "add_front xs [] = []"
| "add_front (x # xs) (y # ys) = (x \<noteq> y) # add_front xs ys"

lemma length_add_front [simp]: "length (add_front xs ys) = length ys"
  by (induction xs ys rule: add_front.induct) simp_all

text \<open>Long division: while the degree is at least 32, the leading coefficient is taken off.\<close>

function long_division :: "bool list \<Rightarrow> bool list" where
  "long_division cs =
     (if length cs \<le> 32 then cs
      else long_division (tl (if hd cs then add_front crc32_divisor cs else cs)))"
  by pat_completeness auto

termination
  by (relation "measure length") auto

declare long_division.simps [simp del]

definition message_bits :: "string \<Rightarrow> bool list" where
  "message_bits data = concat (map (\<lambda>c. map (bit (of_char c :: nat)) [0..<8]) data)"

definition crc32_remainder :: "string \<Rightarrow> bool list" where
  "crc32_remainder data =
     long_division (add_front (replicate 32 True) (message_bits data @ replicate 32 False))"

definition crc32_standard :: "string \<Rightarrow> u32" where
  "crc32_standard data = horner_sum of_bool 2 (map Not (crc32_remainder data))"

definition register_bits :: "u32 \<Rightarrow> bool list" where
  "register_bits w = map (bit w) [0..<32]"

lemma length_register_bits [simp]: "length (register_bits w) = 32"
  by (simp add: register_bits_def)

lemma nth_add_front:
  "i < length ys \<Longrightarrow> add_front xs ys ! i = (if i < length xs then xs ! i \<noteq> ys ! i else ys ! i)"
  by (induction xs ys arbitrary: i rule: add_front.induct) (auto simp: nth_Cons split: nat.split)

lemma divisor_reflected: "i < 32 \<Longrightarrow> bit (0xEDB88320 :: u32) i = crc32_divisor ! Suc i"
proof -
  have "\<forall>i \<in> set [0..<32]. bit (0xEDB88320 :: u32) i = crc32_divisor ! Suc i"
    by (simp add: upt_rec crc32_divisor_def)
  then show "i < 32 \<Longrightarrow> ?thesis" by simp
qed

lemma bit_crc_bit:
  "i < 32 \<Longrightarrow> bit (crc_bit w) i = ((Suc i < 32 \<and> bit w (Suc i)) \<noteq> (bit w 0 \<and> crc32_divisor ! Suc i))"
  using bit_imp_le_length [of w "Suc i"] divisor_reflected [of i]
  by (auto simp: crc_bit_def bit_simps bit_0 and_one_eq odd_iff_mod_2_eq_one)

lemma division_step:
  assumes "32 \<le> length zs"
  shows "long_division (add_front (register_bits w) (False # zs)) =
    long_division (add_front (register_bits (crc_bit w)) zs)"
proof -
  let ?cs = "add_front (register_bits w) (False # zs)"
  have hd: "hd ?cs = bit w 0"
    by (simp add: register_bits_def upt_rec [of 0])
  have len: "length crc32_divisor = 33" by (simp add: crc32_divisor_def)
  have "tl (if hd ?cs then add_front crc32_divisor ?cs else ?cs) =
      add_front (register_bits (crc_bit w)) zs"
    unfolding hd
  proof (rule nth_equalityI)
    fix i assume "i < length (tl (if bit w 0 then add_front crc32_divisor ?cs else ?cs))"
    then have "i < length zs" by (simp split: if_splits)
    with assms show "tl (if bit w 0 then add_front crc32_divisor ?cs else ?cs) ! i =
        add_front (register_bits (crc_bit w)) zs ! i"
      by (cases "i < 32") (auto simp: nth_tl nth_add_front len register_bits_def bit_crc_bit)
  qed simp
  with assms show ?thesis by (subst long_division.simps) simp
qed

lemma division_steps:
  "32 \<le> length zs \<Longrightarrow> long_division (add_front (register_bits w) (replicate n False @ zs)) =
     long_division (add_front (register_bits (crc_bits n w)) zs)"
  by (induction n arbitrary: w) (simp_all add: division_step)

lemma bit_of_char: "bit (of_char c :: u32) i \<longleftrightarrow> bit (of_char c :: nat) i"
  unfolding unat_of_char [symmetric] bit_unsigned_iff by simp

lemma bit_of_char_high: "bit (of_char c :: nat) i \<Longrightarrow> i < 8"
proof (rule ccontr)
  assume high: "bit (of_char c :: nat) i" "\<not> i < 8"
  then have "(2 :: nat) ^ 8 \<le> 2 ^ i" by (intro power_increasing) simp_all
  then have "(256 :: nat) \<le> 2 ^ i" by simp
  with nat_of_char_less_256 have "(of_char c :: nat) < 2 ^ i" by (rule less_le_trans)
  then have "(of_char c :: nat) div 2 ^ i = 0" by (rule div_less)
  with high(1) show False by (simp only: bit_iff_odd even_zero not_True_eq_False)
qed

lemma add_byte:
  "add_front (register_bits w) (map (bit (of_char c :: nat)) [0..<8] @ zs) =
     add_front (register_bits (w XOR of_char c)) (replicate 8 False @ zs)"
  by (rule nth_equalityI)
    (auto simp: nth_add_front nth_append register_bits_def bit_simps bit_of_char dest: bit_of_char_high
      simp del: replicate_numeral)

lemma division_serial:
  "long_division (add_front (register_bits w) (message_bits data @ replicate 32 False)) =
     register_bits (crc_serial w data)"
proof (induction data arbitrary: w)
  case Nil
  have "add_front (register_bits w) (replicate 32 False) = register_bits w"
    by (rule nth_equalityI) (simp_all add: nth_add_front del: replicate_numeral)
  then show ?case
    by (subst long_division.simps) (simp add: message_bits_def)
next
  case (Cons c data)
  then show ?case
    using division_steps [of "message_bits data @ replicate 32 False" "w XOR of_char c" 8]
    by (simp add: message_bits_def add_byte del: replicate_numeral)
qed

lemma bit_all_ones: "bit (0xFFFFFFFF :: u32) i \<longleftrightarrow> i < 32"
  using bit_mask_iff [of 32 i, where ?'a = "32 word"] by (simp add: mask_eq_exp_minus_1)

lemma all_ones_bits: "register_bits 0xFFFFFFFF = replicate 32 True"
proof -
  have "register_bits 0xFFFFFFFF = map (\<lambda>i. True) [0..<32]"
    unfolding register_bits_def by (rule map_cong [OF refl]) (simp only: bit_all_ones set_upt atLeastLessThan_iff)
  also have "\<dots> = replicate 32 True" by (simp only: map_replicate_const length_upt diff_zero)
  finally show ?thesis .
qed

lemma inverted_register: "horner_sum of_bool 2 (map Not (register_bits w)) = w XOR 0xFFFFFFFF"
proof (rule bit_word_eqI)
  fix i assume "i < LENGTH(32)"
  then have "i < 32" by simp
  then show "bit (horner_sum of_bool 2 (map Not (register_bits w)) :: u32) i = bit (w XOR 0xFFFFFFFF) i"
    unfolding bit_xor_iff bit_all_ones by (simp add: bit_horner_sum_bit_word_iff register_bits_def)
qed

section \<open>Properties\<close>

text \<open>
  C39. The table driven loop computes the CRC-32 of the standard: for every text
  its result is the inverted remainder of the long division above, by the
  polynomial of the standard, over bits taken from each byte's lowest on.
\<close>

theorem crc32_is_standard: "Crc32 data = crc32_standard data"
  using division_serial [of "0xFFFFFFFF" data]
  by (simp only: crc32_standard_def crc32_remainder_def all_ones_bits inverted_register
      Crc32_def Crc32_loop_serial)

text \<open>
  The checksum sees every change of one byte: two texts that differ in
  exactly one place have different checksums, whatever stands around it.
\<close>

theorem crc32_detects_byte:
  assumes "b \<noteq> c"
  shows "Crc32 (before @ b # after) \<noteq> Crc32 (before @ c # after)"
proof
  assume "Crc32 (before @ b # after) = Crc32 (before @ c # after)"
  then have "crc_serial 0xFFFFFFFF (before @ b # after) = crc_serial 0xFFFFFFFF (before @ c # after)"
    by (simp only: Crc32_def Crc32_loop_serial xor_cancel)
  then have "crc_bits 8 (crc_serial 0xFFFFFFFF before XOR of_char b) =
      crc_bits 8 (crc_serial 0xFFFFFFFF before XOR of_char c)"
    by (auto simp: crc_serial_append dest: crc_serial_inj)
  then have "crc_serial 0xFFFFFFFF before XOR of_char b = crc_serial 0xFFFFFFFF before XOR of_char c"
    by (rule crc_bits_inj)
  with assms show False by (simp add: xor_cancel of_char_u32_inj)
qed

theorem crc32_detects_byte_witness:
  "Crc32 ''123456789'' = 0xCBF43926 \<and> Crc32 ''123056789'' \<noteq> 0xCBF43926"
proof -
  have "Crc32 ''123456789'' = 0xCBF43926"
    unfolding Crc32_def Crc32_loop_serial
    by code_simp
  with crc32_detects_byte [of "CHR ''0''" "CHR ''4''" "''123''" "''56789''"] show ?thesis by simp
qed

end
