(* ===== verification/Base64.thy ===== *)
theory Base64
  imports L2Message
begin

text \<open>
  crypto/base64.cc and crypto/hash.cc. OpenSSL is a parameter: \<open>evp_encode\<close> is
  \<^verbatim>\<open>EVP_EncodeBlock\<close>, \<open>evp_decode\<close> is \<^verbatim>\<open>EVP_DecodeBlock\<close> (\<open>None\<close> when it returns a
  negative length), \<open>hmac\<close> and \<open>sha256\<close> the digests (\<open>None\<close> when they fail).
\<close>

section \<open>The code\<close>

definition IsValidBase64Character :: "char \<Rightarrow> bool" where
  "IsValidBase64Character c \<longleftrightarrow>
     97 \<le> (of_char c :: nat) \<and> (of_char c :: nat) \<le> 122 \<or>
     65 \<le> (of_char c :: nat) \<and> (of_char c :: nat) \<le> 90 \<or>
     48 \<le> (of_char c :: nat) \<and> (of_char c :: nat) \<le> 57 \<or>
     c = CHR ''+'' \<or> c = CHR ''/'' \<or> c = CHR ''=''"

definition Base64Encode :: "(byte list \<Rightarrow> string) \<Rightarrow> byte list \<Rightarrow> string" where
  "Base64Encode evp_encode data = (if data = [] then [] else evp_encode data)"

text \<open>The loop over the trimmed text's trailing padding; the length is a \<^verbatim>\<open>size_t\<close>.\<close>

fun padding_loop :: "string \<Rightarrow> u64 \<Rightarrow> u64" where
  "padding_loop [] len = len"
| "padding_loop (c # rest) len = (if c = CHR ''='' then padding_loop rest (len - 1) else len)"

text \<open>\<^verbatim>\<open>resize\<close> beyond \<^verbatim>\<open>max_size()\<close>, here the largest \<^verbatim>\<open>ptrdiff_t\<close>, throws.\<close>

definition resize :: "byte list \<Rightarrow> u64 \<Rightarrow> byte list result" where
  "resize out len =
     (if unat len > 2 ^ 63 - 1 then Inl (length_error ''vector::_M_default_append'')
      else Inr (take (unat len) out @ replicate (unat len - length out) 0))"

definition Base64Decode :: "(string \<Rightarrow> byte list option) \<Rightarrow> string \<Rightarrow> byte list result" where
  "Base64Decode evp_decode input =
     (if input = [] then Inr []
      else let trimmed = filter IsValidBase64Character input
           in if length trimmed mod 4 \<noteq> 0
              then Inl (runtime_error ''Length of base64 string not divisible by 4.'')
              else case evp_decode trimmed of
                None \<Rightarrow> Inl (runtime_error ''Failed to base64-decode API secret'')
              | Some out \<Rightarrow> resize out (padding_loop (rev trimmed) (of_nat (length out))))"

definition HmacSha512 :: "(byte list \<Rightarrow> byte list \<Rightarrow> byte list option) \<Rightarrow> byte list \<Rightarrow> byte list \<Rightarrow> byte list result" where
  "HmacSha512 hmac key message =
     (case hmac key message of None \<Rightarrow> Inl (runtime_error ''HMAC-SHA512 failed'') | Some out \<Rightarrow> Inr out)"

definition Sha256 :: "(byte list \<Rightarrow> byte list option) \<Rightarrow> string \<Rightarrow> byte list result" where
  "Sha256 sha256 data =
     (case sha256 (map of_char data) of None \<Rightarrow> Inl (runtime_error ''SHA-256 digest failed'') | Some d \<Rightarrow> Inr d)"

section \<open>Lemmas\<close>

lemma padding_loop_replicate:
  "rest = [] \<or> hd rest \<noteq> CHR ''='' \<Longrightarrow> padding_loop (replicate k (CHR ''='') @ rest) len = len - of_nat k"
proof (induction k arbitrary: len)
  case 0
  then show ?case by (cases rest) auto
next
  case (Suc k)
  then show ?case by (simp add: algebra_simps)
qed

text \<open>
  What the code makes of OpenSSL's answer: text whose valid characters are some
  data's encoding with \<open>pad\<close> padding characters decodes to the data, whatever
  other characters stand between them.
\<close>

lemma decode_ignores_noise:
  assumes "filter IsValidBase64Character input = body @ replicate pad (CHR ''='')" and "input \<noteq> []"
    and "body \<noteq> []" and "last body \<noteq> CHR ''=''" and "(length body + pad) mod 4 = 0"
    and "evp_decode (body @ replicate pad (CHR ''='')) = Some (data @ replicate pad 0)"
    and "length data + pad < 2 ^ 63"
  shows "Base64Decode evp_decode input = Inr data"
proof -
  have "padding_loop (rev (body @ replicate pad (CHR ''=''))) (of_nat (length data + pad)) =
      of_nat (length data + pad) - of_nat pad"
    using assms(3,4) padding_loop_replicate [of "rev body" pad] by (simp add: hd_rev)
  moreover have "unat (of_nat (length data) :: u64) = length data"
    using assms(7) by (intro unat_of_nat_u64) simp
  ultimately show ?thesis using assms by (simp add: Base64Decode_def Let_def resize_def)
qed

text \<open>
  RFC 4648's encoding, the documented behaviour of \<^verbatim>\<open>EVP_EncodeBlock\<close>: three bytes
  are four characters of the alphabet, a rest of one or two bytes is padded.
\<close>

definition base64_alphabet :: string where
  "base64_alphabet = ''ABCDEFGHIJKLMNOPQRSTUVWXYZabcdefghijklmnopqrstuvwxyz0123456789+/''"

definition sextet :: "nat \<Rightarrow> char" where
  "sextet n = base64_alphabet ! (n mod 64)"

definition three_bytes :: "byte \<Rightarrow> byte \<Rightarrow> byte \<Rightarrow> nat" where
  "three_bytes a b c = unat a * 2 ^ 16 + unat b * 2 ^ 8 + unat c"

fun base64_digits :: "byte list \<Rightarrow> string" where
  "base64_digits [] = []"
| "base64_digits [a] = (let n = three_bytes a 0 0 in [sextet (n div 2 ^ 18), sextet (n div 2 ^ 12)])"
| "base64_digits [a, b] =
     (let n = three_bytes a b 0 in [sextet (n div 2 ^ 18), sextet (n div 2 ^ 12), sextet (n div 2 ^ 6)])"
| "base64_digits (a # b # c # rest) =
     (let n = three_bytes a b c
      in sextet (n div 2 ^ 18) # sextet (n div 2 ^ 12) # sextet (n div 2 ^ 6) # sextet n # base64_digits rest)"

definition base64_pad :: "byte list \<Rightarrow> nat" where
  "base64_pad data = (3 - length data mod 3) mod 3"

definition base64 :: "byte list \<Rightarrow> string" where
  "base64 data = base64_digits data @ replicate (base64_pad data) (CHR ''='')"

lemma sextet_valid: "IsValidBase64Character (sextet n) \<and> sextet n \<noteq> CHR ''=''"
proof -
  have "list_all (\<lambda>c. IsValidBase64Character c \<and> c \<noteq> CHR ''='') base64_alphabet"
    by code_simp
  moreover have "n mod 64 < length base64_alphabet" by (simp add: base64_alphabet_def)
  ultimately show ?thesis unfolding sextet_def list_all_length by blast
qed

lemma base64_digits_valid: "c \<in> set (base64_digits data) \<Longrightarrow> IsValidBase64Character c \<and> c \<noteq> CHR ''=''"
  using sextet_valid by (induction data rule: base64_digits.induct) (auto simp: Let_def)

lemma base64_digits_length: "(length (base64_digits data) + base64_pad data) mod 4 = 0"
  by (induction data rule: base64_digits.induct) (auto simp: Let_def base64_pad_def mod_simps)

lemma base64_digits_Nil [simp]: "base64_digits data = [] \<longleftrightarrow> data = []"
  by (cases data rule: base64_digits.cases) (auto simp: Let_def)

lemma base64_filter: "filter IsValidBase64Character (base64 data) = base64 data"
  using base64_digits_valid [of _ data] by (auto simp: base64_def filter_id_conv IsValidBase64Character_def)

text \<open>The characters the code keeps are those of the encoding.\<close>

lemma base64_alphabet_codes:
  "base64_alphabet = map char_of ([65..<91] @ [97..<123] @ [48..<58] @ [43, 47 :: nat])"
  unfolding base64_alphabet_def by code_simp

lemma valid_character: "IsValidBase64Character c \<longleftrightarrow> c \<in> set base64_alphabet \<or> c = CHR ''=''"
proof -
  have spelled: "of_char c = n \<longleftrightarrow> c = char_of n" if "n < 256" for n :: nat
  proof
    assume "c = char_of n"
    then show "of_char c = n" using that by (simp only: of_char_of mod_less)
  next
    assume "of_char c = n"
    then have "char_of (of_char c :: nat) = char_of n" by (rule arg_cong)
    then show "c = char_of n" by (simp only: char_of_char)
  qed
  have "c \<in> char_of ` A \<longleftrightarrow> of_char c \<in> A" if "\<forall>n \<in> A. n < 256" for A :: "nat set"
  proof
    assume "c \<in> char_of ` A"
    then obtain n where "n \<in> A" "c = char_of n" by blast
    with that spelled show "of_char c \<in> A" by metis
  next
    assume "of_char c \<in> A"
    moreover have "c = char_of (of_char c :: nat)" by (rule char_of_char [symmetric])
    ultimately show "c \<in> char_of ` A" by (rule image_eqI [rotated])
  qed
  moreover have "\<forall>n \<in> set ([65..<91] @ [97..<123] @ [48..<58] @ [43, 47 :: nat]). n < 256"
    unfolding set_append set_upt by auto
  ultimately have alphabet: "c \<in> set base64_alphabet \<longleftrightarrow>
      (of_char c :: nat) \<in> set ([65..<91] @ [97..<123] @ [48..<58] @ [43, 47])"
    unfolding base64_alphabet_codes set_map by blast
  have plus: "(of_char c :: nat) = 43 \<longleftrightarrow> c = CHR ''+''" "(of_char c :: nat) = 47 \<longleftrightarrow> c = CHR ''/''"
  proof -
    have "char_of (43 :: nat) = CHR ''+''" "char_of (47 :: nat) = CHR ''/''" by code_simp+
    then show "(of_char c :: nat) = 43 \<longleftrightarrow> c = CHR ''+''" "(of_char c :: nat) = 47 \<longleftrightarrow> c = CHR ''/''"
      using spelled [of 43] spelled [of 47] by simp_all
  qed
  define n where "n = (of_char c :: nat)"
  show ?thesis
    using alphabet plus unfolding IsValidBase64Character_def n_def [symmetric] set_append set_upt by auto
qed

text \<open>
  Text whose valid characters are the encoding of some data decodes to it, with
  OpenSSL answering as it documents: the padding as zero bytes.
\<close>

lemma decode_base64:
  assumes "filter (\<lambda>c. c \<in> set base64_alphabet \<or> c = CHR ''='') input = base64 data" and "data \<noteq> []" and "length data < 2 ^ 62"
    and "evp_decode (base64 data) = Some (data @ replicate (base64_pad data) 0)"
  shows "Base64Decode evp_decode input = Inr data"
proof (rule decode_ignores_noise [of input "base64_digits data" "base64_pad data"])
  show "input \<noteq> []" using assms(1,2) by (auto simp: base64_def)
  show "last (base64_digits data) \<noteq> CHR ''=''"
    using base64_digits_valid [of "last (base64_digits data)" data] assms(2) by simp
  show "length data + base64_pad data < 2 ^ 63"
    using assms(3) mod_less_divisor [of 3 "3 - length data mod 3"] unfolding base64_pad_def by simp
qed (use assms base64_digits_length in \<open>simp_all add: base64_def valid_character [abs_def]\<close>)

lemma base64_Nil [simp]: "base64 [] = []"
  by (simp add: base64_def base64_pad_def)

text \<open>A text of nothing but padding takes more away than there is: the length wraps around.\<close>

lemma decode_all_padding:
  "evp_decode ''===='' = Some [0, 0, 0] \<Longrightarrow>
     Base64Decode evp_decode ''===='' = Inl (length_error ''vector::_M_default_append'')"
  by (simp add: Base64Decode_def Let_def resize_def IsValidBase64Character_def unsigned_minus_1_eq_mask
      mask_eq_exp_minus_1)

end
