(* ===== verification/KrakenChecksum.thy ===== *)
theory KrakenChecksum
  imports Decimal L2Book Crc32
begin

text \<open>
  kraken/checksum.cc: Kraken's CRC32 over the top ten levels of each side, asks
  first. Kraken documents the text it covers as each price and quantity with the
  decimal point and leading zeros removed; the code prints the book's scaled
  integers instead.
\<close>

section \<open>The code\<close>

definition kChecksumDepth :: nat where "kChecksumDepth = 10"

definition AppendSide :: "side \<Rightarrow> string \<Rightarrow> string" where
  "AppendSide side out =
     out @ concat (map (\<lambda>(price, quantity). int_to_dec price @ int_to_dec quantity) (take kChecksumDepth side))"

definition BookChecksum :: "Book \<Rightarrow> u32" where
  "BookChecksum book = Crc32 (AppendSide (bk_bids book) (AppendSide (bk_asks book) []))"

section \<open>The digits Kraken documents\<close>

text \<open>What Kraken documents: the digits at the pair's precision, without leading zeros.\<close>

definition venue_digits :: "u32 \<Rightarrow> decimal_text \<Rightarrow> string" where
  "venue_digits d n = strip_zeros (fst n @ fixed_digits (unat d) (snd n))"

lemma digits_of_scaled:
  assumes "decimal_ok d n" and "0 < scaled d n"
  shows "int_to_dec (scaled d n) = venue_digits d n"
proof -
  have "list_all is_digit (fst n @ fixed_digits (unat d) (snd n))"
    using assms(1) by (simp add: decimal_ok_def fixed_digits_digits)
  moreover have "0 < dec_value (fst n @ fixed_digits (unat d) (snd n))"
    using assms(2) by (simp add: scaled_def scaled_value_def)
  ultimately show ?thesis
    by (simp add: int_to_dec_def scaled_def scaled_value_def venue_digits_def nat_to_dec_strip_zeros)
qed

section \<open>Properties\<close>

text \<open>
  C28. The checksum of a book whose levels are the scaled numbers of the feed is
  the CRC-32 of the text Kraken documents: the top ten asks, then the top ten
  bids, each as its price's and its quantity's digits at the pair's precision
  without the point and without leading zeros (prices and quantities that are
  not zero, as a book's are).
\<close>

theorem checksum_covers_venue_digits:
  assumes "bk_asks book = map (\<lambda>(p, q). (scaled pd p, scaled qd q)) asks"
    and "bk_bids book = map (\<lambda>(p, q). (scaled pd p, scaled qd q)) bids"
    and "\<forall>(p, q) \<in> set (asks @ bids). decimal_ok pd p \<and> decimal_ok qd q \<and> 0 < scaled pd p \<and> 0 < scaled qd q"
  shows "BookChecksum book =
    Crc32 (concat (map (\<lambda>(p, q). venue_digits pd p @ venue_digits qd q) (take 10 asks @ take 10 bids)))"
proof -
  have side: "concat (map (\<lambda>(p, q). int_to_dec p @ int_to_dec q) (take n (map (\<lambda>(p, q). (scaled pd p, scaled qd q)) ls))) =
      concat (map (\<lambda>(p, q). venue_digits pd p @ venue_digits qd q) (take n ls))"
    if "\<forall>(p, q) \<in> set ls. decimal_ok pd p \<and> decimal_ok qd q \<and> 0 < scaled pd p \<and> 0 < scaled qd q" for n ls
    using that by (induction ls arbitrary: n) (auto simp: take_Cons digits_of_scaled split: nat.splits)
  have "\<forall>(p, q) \<in> set asks. decimal_ok pd p \<and> decimal_ok qd q \<and> 0 < scaled pd p \<and> 0 < scaled qd q"
    "\<forall>(p, q) \<in> set bids. decimal_ok pd p \<and> decimal_ok qd q \<and> 0 < scaled pd p \<and> 0 < scaled qd q"
    using assms(3) by auto
  then show ?thesis
    by (simp add: BookChecksum_def AppendSide_def kChecksumDepth_def assms(1,2) side)
qed

theorem checksum_covers_venue_digits_witness:
  "BookChecksum \<lparr>bk_depth = 10, bk_bids = [(4528, 1500)], bk_asks = [(4529, 10)]\<rparr> = Crc32 ''45291045281500''"
proof -
  have v: "scaled_value ''45'' ''29'' 2 = 4529" "scaled_value ''0'' ''00010'' 5 = 10"
    "scaled_value ''45'' ''28'' 2 = 4528" "scaled_value ''0'' ''01500'' 5 = 1500"
    by (simp_all add: scaled_value_def eval_digits)
  have d: "venue_digits 2 (''45'', ''29'') = ''4529''" "venue_digits 5 (''0'', ''00010'') = ''10''"
    "venue_digits 2 (''45'', ''28'') = ''4528''" "venue_digits 5 (''0'', ''01500'') = ''1500''"
    by (simp_all add: venue_digits_def strip_zeros_def fixed_digits_def)
  have "BookChecksum \<lparr>bk_depth = 10, bk_bids = [(4528, 1500)], bk_asks = [(4529, 10)]\<rparr> =
    Crc32 (concat (map (\<lambda>(p, q). venue_digits 2 p @ venue_digits 5 q)
      (take 10 [((''45'', ''29''), (''0'', ''00010''))] @ take 10 [((''45'', ''28''), (''0'', ''01500''))])))"
    by (rule checksum_covers_venue_digits) (simp_all add: scaled_def v decimal_ok_def is_digit_def)
  then show ?thesis by (simp add: d)
qed

end
