(* ===== verification/VenueL2Decoder.thy ===== *)
theory VenueL2Decoder
  imports L2Book Decimal Json UnixTime
begin

text \<open>
  venue/l2_decoder.h and net/raw_frame.h: what a venue's decoder is given and
  where it hands what it finds. \<open>'o\<close> is the state of the output (the parser);
  a decoder is a function of its own state, a frame and the output's two
  methods. It returns the output even when it throws, since what it emitted
  before stays emitted.
\<close>

section \<open>The interface\<close>

record RawFrame =
  json_text :: string
  frame_capture_time_ns :: i64

text \<open>What the types of the two members say: an i64, and a string whose length is a \<^verbatim>\<open>size_t\<close>.\<close>

definition frame_typed :: "RawFrame \<Rightarrow> bool" where
  "frame_typed frame \<longleftrightarrow> in_i64 (frame_capture_time_ns frame) \<and> length (json_text frame) < 2 ^ 64"

definition kMaxQueuedFrames :: nat where "kMaxQueuedFrames = 256"

type_synonym 'o find = "'o \<Rightarrow> string \<Rightarrow> Type \<Rightarrow> PairPrecision option"
type_synonym 'o emit = "Message \<Rightarrow> 'o \<Rightarrow> 'o"
type_synonym ('d, 'o) decode = "'o find \<Rightarrow> 'o emit \<Rightarrow> RawFrame \<Rightarrow> 'd \<Rightarrow> 'o \<Rightarrow> ('d \<times> 'o) \<times> unit result"

text \<open>
  What an output goes through during one frame: emissions, each of a change
  \<open>Find\<close> gave a precision for in the state it is emitted in.
\<close>

inductive emits :: "'o find \<Rightarrow> 'o emit \<Rightarrow> 'o \<Rightarrow> Message list \<Rightarrow> 'o \<Rightarrow> bool"
  for Find :: "'o find" and Emit :: "'o emit" where
  emits_none: "emits Find Emit out [] out"
| emits_more: "Find out (msg_symbol m) (msg_type m) = Some precision \<Longrightarrow>
     emits Find Emit (Emit m out) ms out' \<Longrightarrow> emits Find Emit out (m # ms) out'"

inductive_simps emits_Nil [simp]: "emits Find Emit out [] out'"
inductive_simps emits_Cons: "emits Find Emit out (m # ms) out'"

lemma emits_append:
  "emits Find Emit out ms out' \<Longrightarrow> emits Find Emit out' ms' out'' \<Longrightarrow> emits Find Emit out (ms @ ms') out''"
  by (induction rule: emits.induct) (auto intro: emits.intros)

lemma emits_fold: "emits Find Emit out ms out' \<Longrightarrow> out' = fold Emit ms out"
  by (induction rule: emits.induct) simp_all

section \<open>The contract of a decoder\<close>

text \<open>
  Whatever the frame and whether it throws or not, a decoder touches the output
  only by emitting changes it has found a precision for, all stamped with the
  frame's capture time.
\<close>

locale l2_decoder =
  fixes Decode :: "('d, 'o) decode"
  assumes emits_only:
    "Decode Find Emit frame d out = ((d', out'), r) \<Longrightarrow>
       \<exists>ms. emits Find Emit out ms out' \<and>
         list_all (\<lambda>m. capture_time_ns m = frame_capture_time_ns frame) ms"
begin

text \<open>So any property of the output that every emission keeps, every frame keeps.\<close>

lemma decode_keeps:
  assumes "Decode Find Emit frame d out = ((d', out'), r)" and "P out"
    and "\<And>m out precision. P out \<Longrightarrow> Find out (msg_symbol m) (msg_type m) = Some precision \<Longrightarrow> P (Emit m out)"
  shows "P out'"
proof -
  obtain ms where "emits Find Emit out ms out'" using emits_only [OF assms(1)] by blast
  then show ?thesis using assms(2) by (induction rule: emits.induct) (auto intro: assms(3))
qed

end

section \<open>What a decoder makes of a frame is well typed\<close>

text \<open>
  Its integers are i64s, and serialized it is no longer than the frame it was read from,
  so no length computed from it wraps around. \<open>parse\<close> is the parser the decoder uses.
\<close>

definition typed_of :: "RawFrame \<Rightarrow> Message \<Rightarrow> bool" where
  "typed_of frame m \<longleftrightarrow> Message_ok m \<and>
     40 + length (buys m) * 16 + length (sells m) * 16 \<le> length (json_text frame)"

locale typed_decoder = l2_decoder Decode for Decode :: "('d, 'o) decode" +
  fixes parse :: "string \<Rightarrow> json option"
  assumes emits_typed:
    "json_within parse \<Longrightarrow> frame_typed frame \<Longrightarrow> Decode Find Emit frame d out = ((d', out'), r) \<Longrightarrow>
       \<exists>ms. emits Find Emit out ms out' \<and> list_all (typed_of frame) ms"
begin

lemma decode_keeps_typed:
  assumes "json_within parse" and "frame_typed frame" and "Decode Find Emit frame d out = ((d', out'), r)" and "P out"
    and "\<And>m out precision. P out \<Longrightarrow> Message_ok m \<Longrightarrow> fits m \<Longrightarrow>
      Find out (msg_symbol m) (msg_type m) = Some precision \<Longrightarrow> P (Emit m out)"
  shows "P out'"
proof -
  obtain ms where ms: "emits Find Emit out ms out'" "list_all (typed_of frame) ms"
    using emits_typed [OF assms(1-3)] by blast
  have "list_all (\<lambda>m. Message_ok m \<and> fits m) ms"
    using ms(2) assms(2) by (auto simp: list_all_iff typed_of_def frame_typed_def fits_def)
  with ms(1) assms(4) show ?thesis by (induction rule: emits.induct) (auto intro: assms(5))
qed

end

end
