(* ===== verification/KrakenL2Decoder.thy ===== *)
theory KrakenL2Decoder
  imports KrakenChecksum VenueL2Decoder
begin

text \<open>
  kraken/l2_decoder.cc: frames of Kraken's v2 book channel. \<open>parse\<close> is
  rapidjson's parser with numbers kept as strings, \<open>None\<close> its parse error.
  Designated initializers are evaluated in their order, so the first malformed
  field is the one that throws.
\<close>

section \<open>The code\<close>

definition ParseScaled :: "json \<Rightarrow> string \<Rightarrow> u32 \<Rightarrow> i64 result" where
  "ParseScaled level name decimals =
     bindR (RequireJsonString level name) (\<lambda>s. defined_or_UB (ScaleDecimalStringToI64 s decimals))"

definition ParseSide :: "json \<Rightarrow> string \<Rightarrow> PairPrecision \<Rightarrow> Level list result" where
  "ParseSide data name precision =
     bindR (RequireJsonMember data name IsArray) (\<lambda>levels.
       mapR (\<lambda>level.
         bindR (ParseScaled level ''price'' (price_decimals precision)) (\<lambda>p.
         bindR (ParseScaled level ''qty'' (qty_decimals precision)) (\<lambda>q.
           Inr \<lparr>price = p, quantity = q\<rparr>))) (GetArray levels))"

definition ParseChecksum :: "json \<Rightarrow> u32 result" where
  "ParseChecksum data =
     bindR (FindJsonString data ''checksum'') (\<lambda>str.
       Inr (of_int (fc_value (from_chars_u32 (case str of None \<Rightarrow> [] | Some s \<Rightarrow> s) 0))))"

definition ParseVenueTime :: "(int \<Rightarrow> int \<Rightarrow> int \<Rightarrow> int) \<Rightarrow> json \<Rightarrow> i64 result" where
  "ParseVenueTime unspec data =
     bindR (FindJsonString data ''timestamp'') (\<lambda>str.
       case str of
         None \<Rightarrow> Inr 0
       | Some s \<Rightarrow> bindR (ParseIso8601ToUnixNanos unspec s) (\<lambda>t. Inr (case t of None \<Rightarrow> 0 | Some v \<Rightarrow> v)))"

definition BookData :: "json \<Rightarrow> json result" where
  "BookData document =
     bindR (RequireJsonMember document ''data'' IsArray) (\<lambda>data.
       case GetArray data of
         [] \<Rightarrow> Inl (runtime_error ''Malformed Kraken book frame: \"data\" holds no object'')
       | d # _ \<Rightarrow>
           if \<not> IsObject d then Inl (runtime_error ''Malformed Kraken book frame: \"data\" holds no object'')
           else Inr d)"

text \<open>The message of a book frame, once its precision is known.\<close>

definition BookMessage ::
    "(int \<Rightarrow> int \<Rightarrow> int \<Rightarrow> int) \<Rightarrow> json \<Rightarrow> Type \<Rightarrow> string \<Rightarrow> i64 \<Rightarrow> PairPrecision \<Rightarrow> Message result" where
  "BookMessage unspec data t symbol capture precision =
     bindR (ParseChecksum data) (\<lambda>c.
     bindR (ParseVenueTime unspec data) (\<lambda>vt.
     bindR (ParseSide data ''bids'' precision) (\<lambda>b.
     bindR (ParseSide data ''asks'' precision) (\<lambda>s.
       Inr \<lparr>msg_type = t, checksum = c, venue_time_ns = vt, capture_time_ns = capture,
            msg_symbol = symbol, buys = b, sells = s\<rparr>))))"

definition Kraken_Decode ::
    "(string \<Rightarrow> json option) \<Rightarrow> (int \<Rightarrow> int \<Rightarrow> int \<Rightarrow> int) \<Rightarrow> (unit, 'o) decode" where
  "Kraken_Decode parse unspec Find Emit frame d out =
     (case parse (json_text frame) of
        None \<Rightarrow> ((d, out), Inr ())
      | Some document \<Rightarrow>
          if \<not> IsObject document \<or> FindMember document ''channel'' \<noteq> Some (JString ''book'')
          then ((d, out), Inr ())
          else
            (case bindR (BookData document) (\<lambda>data.
                  bindR (RequireJsonString data ''symbol'') (\<lambda>symbol.
                  bindR (RequireJsonString document ''type'') (\<lambda>t.
                    Inr (data, symbol, if t = ''snapshot'' then kSnapshot else kUpdate)))) of
               Inl e \<Rightarrow> ((d, out), Inl e)
             | Inr (data, symbol, t) \<Rightarrow>
                 (case Find out symbol t of
                    None \<Rightarrow> ((d, out), Inr ())
                  | Some precision \<Rightarrow>
                      (case BookMessage unspec data t symbol (frame_capture_time_ns frame) precision of
                         Inl e \<Rightarrow> ((d, out), Inl e)
                       | Inr message \<Rightarrow> ((d, Emit message out), Inr ())))))"

section \<open>The decoder's contract\<close>

lemma BookMessage_Inr:
  assumes "BookMessage unspec data t symbol capture precision = Inr m"
  shows "msg_type m = t" "msg_symbol m = symbol" "capture_time_ns m = capture"
    "ParseSide data ''bids'' precision = Inr (buys m)" "ParseSide data ''asks'' precision = Inr (sells m)"
    "ParseChecksum data = Inr (checksum m)" "ParseVenueTime unspec data = Inr (venue_time_ns m)"
  using assms by (auto simp: BookMessage_def bindR_Inr_iff)

lemma Kraken_Decode_cases:
  assumes "Kraken_Decode parse unspec Find Emit frame d out = ((d', out'), r)"
  obtains (none) "out' = out"
  | (one) m precision where "r = Inr ()" "Find out (msg_symbol m) (msg_type m) = Some precision"
      "out' = Emit m out" "capture_time_ns m = frame_capture_time_ns frame"
proof -
  have "out' = out \<or> (\<exists>data symbol t precision m. r = Inr () \<and> Find out symbol t = Some precision \<and>
      BookMessage unspec data t symbol (frame_capture_time_ns frame) precision = Inr m \<and> out' = Emit m out)"
    using assms unfolding Kraken_Decode_def
    by (simp split: option.split_asm if_split_asm sum.split_asm prod.split_asm) blast+
  then consider "out' = out"
    | data symbol t precision m where "r = Inr ()" "Find out symbol t = Some precision"
        "BookMessage unspec data t symbol (frame_capture_time_ns frame) precision = Inr m" "out' = Emit m out"
    by blast
  then show ?thesis
  proof cases
    case 1
    then show ?thesis by (rule none)
  next
    case (2 data symbol t precision m)
    then show ?thesis using one [of m precision] BookMessage_Inr(1-3) [OF 2(3)] by simp
  qed
qed

interpretation kraken: l2_decoder "Kraken_Decode parse unspec"
proof
  fix Find :: "'a find" and Emit frame d out d' out' r
  assume "Kraken_Decode parse unspec Find Emit frame d out = ((d', out'), r)"
  then show "\<exists>ms. emits Find Emit out ms out' \<and>
      list_all (\<lambda>m. capture_time_ns m = frame_capture_time_ns frame) ms"
  proof (cases rule: Kraken_Decode_cases)
    case none
    then show ?thesis by (intro exI [of _ "[]"]) simp
  next
    case (one m precision)
    then show ?thesis by (intro exI [of _ "[m]"]) (simp add: emits_Cons)
  qed
qed

section \<open>Its messages are well typed\<close>

lemma ParseVenueTime_in_i64: "ParseVenueTime unspec data = Inr v \<Longrightarrow> in_i64 v"
  by (auto simp: ParseVenueTime_def bindR_Inr_iff split: option.splits) (rule ParseIso8601_in_i64)

lemma ParseSide_typed:
  assumes "ParseSide data name precision = Inr ls"
  shows "list_all Level_ok ls"
    and "\<exists>v. FindJsonMember data name = Some v \<and> length ls * 16 \<le> json_width v"
proof -
  let ?f = "\<lambda>level. bindR (ParseScaled level ''price'' (price_decimals precision)) (\<lambda>p.
    bindR (ParseScaled level ''qty'' (qty_decimals precision)) (\<lambda>q. Inr \<lparr>price = p, quantity = q\<rparr>))"
  obtain vs where vs: "FindJsonMember data name = Some (JArray vs)" "mapR ?f vs = Inr ls"
    using assms by (auto simp: ParseSide_def bindR_Inr_iff IsArray_iff)
  have each: "Level_ok l \<and> 15 \<le> json_width v" if e: "?f v = Inr l" for v l
  proof -
    obtain p q where "FindJsonMember v ''price'' = Some (JString p)" "FindJsonMember v ''qty'' = Some (JString q)"
      and "ScaleDecimalStringToI64 p (price_decimals precision) = Some (price l)"
        "ScaleDecimalStringToI64 q (qty_decimals precision) = Some (quantity l)"
      using e by (auto simp: bindR_Inr_iff ParseScaled_def defined_or_UB_Inr)
    then show ?thesis
      using object_width2 [of v "''price''" "JString p" "''qty''" "JString q"]
      by (auto simp: Level_ok_def member_width_def dest: ScaleDecimal_in_i64)
  qed
  have all: "list_all2 (\<lambda>v l. ?f v = Inr l) vs ls" using vs(2) by (simp only: mapR_Inr_iff)
  show "list_all Level_ok ls"
    using all each by (induction rule: list_all2_induct) auto
  have "15 \<le> json_width v" if "v \<in> set vs" for v
    using all each that by (induction rule: list_all2_induct) auto
  then have "length vs * (15 + 1) < json_width (JArray vs)" by (rule array_width_each)
  then show "\<exists>v. FindJsonMember data name = Some v \<and> length ls * 16 \<le> json_width v"
    using vs(1) list_all2_lengthD [OF all] by (intro exI [of _ "JArray vs"]) simp
qed

lemma Kraken_Decode_emitted:
  assumes "Kraken_Decode parse unspec Find Emit frame d out = ((d', out'), r)"
  obtains (none) "out' = out"
  | (one) document data symbol t precision m where "parse (json_text frame) = Some document"
      "FindJsonMember document ''channel'' = Some (JString ''book'')" "BookData document = Inr data"
      "FindJsonMember data ''symbol'' = Some (JString symbol)" "Find out symbol t = Some precision"
      "BookMessage unspec data t symbol (frame_capture_time_ns frame) precision = Inr m" "out' = Emit m out"
proof (cases "out' = out")
  case False
  obtain document where doc: "parse (json_text frame) = Some document" "IsObject document"
    "FindMember document ''channel'' = Some (JString ''book'')"
    using assms False unfolding Kraken_Decode_def by (simp split: option.split_asm if_split_asm)
  obtain data symbol t where d: "bindR (BookData document) (\<lambda>data. bindR (RequireJsonString data ''symbol'') (\<lambda>symbol.
      bindR (RequireJsonString document ''type'') (\<lambda>t. Inr (data, symbol, if t = ''snapshot'' then kSnapshot else kUpdate)))) =
      Inr (data, symbol, t)"
    and rest: "(case Find out symbol t of None \<Rightarrow> ((d, out), Inr ())
      | Some precision \<Rightarrow>
          (case BookMessage unspec data t symbol (frame_capture_time_ns frame) precision of
             Inl e \<Rightarrow> ((d, out), Inl e) | Inr message \<Rightarrow> ((d, Emit message out), Inr ()))) = ((d', out'), r)"
    using assms False doc unfolding Kraken_Decode_def by (auto split: sum.split_asm)
  have data: "BookData document = Inr data" "FindJsonMember data ''symbol'' = Some (JString symbol)"
    using d by (auto simp: bindR_Inr_iff)
  have "FindJsonMember document ''channel'' = Some (JString ''book'')" using doc by (simp add: FindJsonMember_def)
  then show ?thesis
    using rest False one [OF doc(1) _ data] by (auto split: option.split_asm sum.split_asm)
qed (rule none)


lemma BookData_member:
  assumes "BookData document = Inr data"
  shows "\<exists>rest. FindJsonMember document ''data'' = Some (JArray (data # rest))"
proof -
  obtain vs where "FindJsonMember document ''data'' = Some (JArray vs)"
    "(case vs of [] \<Rightarrow> Inl (runtime_error ''Malformed Kraken book frame: \"data\" holds no object'')
      | d # _ \<Rightarrow> if \<not> IsObject d then Inl (runtime_error ''Malformed Kraken book frame: \"data\" holds no object'')
          else Inr d) = Inr data"
    using assms unfolding BookData_def by (auto simp only: bindR_Inr_iff RequireJsonMember_Inr IsArray_iff GetArray.simps)
  then show ?thesis by (auto split: list.split_asm if_split_asm)
qed

interpretation kraken_typed: typed_decoder "Kraken_Decode parse unspec" parse
proof
  fix frame and Find :: "'a find" and Emit d out d' out' r
  assume within: "json_within parse" and frame: "frame_typed frame"
    and "Kraken_Decode parse unspec Find Emit frame d out = ((d', out'), r)"
  from this(3) show "\<exists>ms. emits Find Emit out ms out' \<and> list_all (typed_of frame) ms"
  proof (cases rule: Kraken_Decode_emitted)
    case none
    then show ?thesis by (intro exI [of _ "[]"]) simp
  next
    case (one document data symbol t precision m)
    note m = BookMessage_Inr [OF one(6)]
    obtain b s where sides: "FindJsonMember data ''bids'' = Some b" "length (buys m) * 16 \<le> json_width b"
      "FindJsonMember data ''asks'' = Some s" "length (sells m) * 16 \<le> json_width s"
      using ParseSide_typed(2) [OF m(4)] ParseSide_typed(2) [OF m(5)] by blast
    obtain rest where arr: "FindJsonMember document ''data'' = Some (JArray (data # rest))"
      using BookData_member [OF one(3)] by blast
    have "json_width document \<le> length (json_text frame)" using within one(1) by (simp add: json_within_def)
    moreover have "24 + json_width (JArray (data # rest)) \<le> json_width document"
      using object_width2 [OF arr one(2)] by (simp add: member_width_def)
    moreover have "15 + length (buys m) * 16 + length (sells m) * 16 \<le> json_width data"
      using object_width3 [OF sides(1,3) one(4)] sides(2,4) by (simp add: member_width_def)
    ultimately have "40 + length (buys m) * 16 + length (sells m) * 16 \<le> length (json_text frame)"
      using array_width_member [of data "data # rest"] by simp
    moreover have "Message_ok m"
      using m(3) frame ParseSide_typed(1) [OF m(4)] ParseSide_typed(1) [OF m(5)] ParseVenueTime_in_i64 [OF m(7)]
      by (simp add: Message_ok_def frame_typed_def)
    ultimately show ?thesis
      using one(5,7) m(1,2) by (intro exI [of _ "[m]"]) (simp add: emits_Cons typed_of_def)
  qed
qed

section \<open>Frames as Kraken documents them\<close>

text \<open>The parsed form of a book frame: levels as decimal texts, the checksum a u32.\<close>

definition level_json :: "decimal_text \<times> decimal_text \<Rightarrow> json" where
  "level_json l = JObject [(''price'', JString (text_of (fst l))), (''qty'', JString (text_of (snd l)))]"

definition book_data ::
    "string \<Rightarrow> (decimal_text \<times> decimal_text) list \<Rightarrow> (decimal_text \<times> decimal_text) list \<Rightarrow> u32 \<Rightarrow> string \<Rightarrow> json" where
  "book_data symbol bids asks crc stamp =
     JObject [(''symbol'', JString symbol), (''bids'', JArray (map level_json bids)),
       (''asks'', JArray (map level_json asks)), (''checksum'', JString (nat_to_dec (unat crc))),
       (''timestamp'', JString stamp)]"

definition book_frame ::
    "string \<Rightarrow> string \<Rightarrow> (decimal_text \<times> decimal_text) list \<Rightarrow> (decimal_text \<times> decimal_text) list \<Rightarrow> u32 \<Rightarrow> string \<Rightarrow> json" where
  "book_frame t symbol bids asks crc stamp =
     JObject [(''channel'', JString ''book''), (''type'', JString t),
       (''data'', JArray [book_data symbol bids asks crc stamp])]"

definition scaled_level :: "PairPrecision \<Rightarrow> decimal_text \<times> decimal_text \<Rightarrow> Level" where
  "scaled_level p l = \<lparr>price = scaled (price_decimals p) (fst l), quantity = scaled (qty_decimals p) (snd l)\<rparr>"

definition level_text_ok :: "PairPrecision \<Rightarrow> decimal_text \<times> decimal_text \<Rightarrow> bool" where
  "level_text_ok p l \<longleftrightarrow> decimal_ok (price_decimals p) (fst l) \<and> decimal_ok (qty_decimals p) (snd l)"

lemma ParseSide_levels:
  assumes "list_all (level_text_ok p) ls" and "FindJsonMember data name = Some (JArray (map level_json ls))"
  shows "ParseSide data name p = Inr (map (scaled_level p) ls)"
proof -
  let ?f = "\<lambda>level. bindR (ParseScaled level ''price'' (price_decimals p)) (\<lambda>a.
    bindR (ParseScaled level ''qty'' (qty_decimals p)) (\<lambda>b. Inr \<lparr>price = a, quantity = b\<rparr>))"
  have "?f (level_json l) = Inr (scaled_level p l)" if "level_text_ok p l" for l
    using that
    by (simp add: ParseScaled_def RequireJsonString_eq level_json_def level_text_ok_def Scale_text_of scaled_level_def)
  then have "mapR ?f (map level_json ls) = Inr (map (scaled_level p) ls)"
    using assms(1) by (induction ls) simp_all
  moreover have member: "RequireJsonMember data name IsArray = Inr (JArray (map level_json ls))"
    using assms(2) by simp
  ultimately show ?thesis by (simp only: ParseSide_def member bindR_simps GetArray.simps)
qed

lemma ParseChecksum_u32:
  assumes "FindJsonMember data ''checksum'' = Some (JString (nat_to_dec (unat crc)))"
  shows "ParseChecksum data = Inr crc"
proof -
  have "unat crc < 2 ^ 32" using unsigned_less [of crc] by simp
  with assms show ?thesis by (simp add: ParseChecksum_def FindJsonString_eq)
qed

lemma BookMessage_book_data:
  assumes "ParseIso8601ToUnixNanos unspec stamp = Inr time" and "list_all (level_text_ok p) (bids @ asks)"
  shows "BookMessage unspec (book_data symbol bids asks crc stamp) t symbol capture p =
    Inr \<lparr>msg_type = t, checksum = crc, venue_time_ns = (case time of None \<Rightarrow> 0 | Some v \<Rightarrow> v),
         capture_time_ns = capture, msg_symbol = symbol,
         buys = map (scaled_level p) bids, sells = map (scaled_level p) asks\<rparr>"
proof -
  let ?data = "book_data symbol bids asks crc stamp"
  have "ParseChecksum ?data = Inr crc" by (rule ParseChecksum_u32) (simp add: book_data_def)
  moreover have "ParseVenueTime unspec ?data = Inr (case time of None \<Rightarrow> 0 | Some v \<Rightarrow> v)"
    using assms(1) by (simp add: ParseVenueTime_def FindJsonString_eq book_data_def)
  moreover have "ParseSide ?data ''bids'' p = Inr (map (scaled_level p) bids)"
    "ParseSide ?data ''asks'' p = Inr (map (scaled_level p) asks)"
    using assms(2) by (auto intro!: ParseSide_levels simp: book_data_def)
  ultimately show ?thesis by (simp add: BookMessage_def)
qed

lemma Kraken_Decode_book_frame:
  assumes "parse (json_text frame) = Some (book_frame t symbol bids asks crc stamp)"
  shows "Kraken_Decode parse unspec Find Emit frame d out =
    (let ty = (if t = ''snapshot'' then kSnapshot else kUpdate)
     in case Find out symbol ty of
          None \<Rightarrow> ((d, out), Inr ())
        | Some p \<Rightarrow> (case BookMessage unspec (book_data symbol bids asks crc stamp) ty symbol
                        (frame_capture_time_ns frame) p of
                      Inl e \<Rightarrow> ((d, out), Inl e)
                    | Inr m \<Rightarrow> ((d, Emit m out), Inr ())))"
proof -
  let ?data = "book_data symbol bids asks crc stamp" and ?doc = "book_frame t symbol bids asks crc stamp"
  have member: "RequireJsonMember ?doc ''data'' IsArray = Inr (JArray [?data])" by (simp add: book_frame_def)
  have "BookData ?doc = Inr ?data"
    by (simp only: BookData_def member bindR_simps GetArray.simps) (simp add: book_data_def)
  moreover have "IsObject ?doc" "FindMember ?doc ''channel'' = Some (JString ''book'')"
    "RequireJsonString ?data ''symbol'' = Inr symbol" "RequireJsonString ?doc ''type'' = Inr t"
    by (simp_all add: book_frame_def book_data_def RequireJsonString_eq)
  ultimately show ?thesis using assms
    by (simp add: Kraken_Decode_def Let_def RequireJsonString_eq split: option.split sum.split)
qed

section \<open>Properties\<close>

text \<open>
  C27. A book frame laid out as Kraken documents it, for a pair the output wants,
  emits exactly one message: a snapshot or an update as its type says, with the
  frame's checksum, its time (zero if it has no proper timestamp), every level of
  both sides in order, each price and quantity its exact decimal text scaled at
  the pair's precision. A frame for a pair the output does not want emits nothing.
\<close>

theorem kraken_decodes_book_frame:
  assumes "parse (json_text frame) = Some (book_frame t symbol bids asks crc stamp)"
    and "ParseIso8601ToUnixNanos unspec stamp = Inr time"
    and "Find out symbol (if t = ''snapshot'' then kSnapshot else kUpdate) = wanted"
    and "\<And>p. wanted = Some p \<Longrightarrow> list_all (level_text_ok p) (bids @ asks)"
  shows "Kraken_Decode parse unspec Find Emit frame d out =
    (case wanted of
       None \<Rightarrow> ((d, out), Inr ())
     | Some p \<Rightarrow>
         ((d, Emit \<lparr>msg_type = (if t = ''snapshot'' then kSnapshot else kUpdate), checksum = crc,
              venue_time_ns = (case time of None \<Rightarrow> 0 | Some v \<Rightarrow> v),
              capture_time_ns = frame_capture_time_ns frame, msg_symbol = symbol,
              buys = map (scaled_level p) bids, sells = map (scaled_level p) asks\<rparr> out), Inr ()))"
  using assms by (simp add: Kraken_Decode_book_frame BookMessage_book_data split: option.split)

theorem kraken_decodes_book_frame_witness:
  "let levels = [((''45'', ''29''), (''0'', ''1''))];
       frame = \<lparr>json_text = ''f'', frame_capture_time_ns = 3\<rparr>
   in Kraken_Decode (\<lambda>_. Some (book_frame ''snapshot'' ''A/B'' levels [] 2520196449 ''x'')) (\<lambda>_ _ _. 0)
        (\<lambda>_ _ _. Some \<lparr>price_decimals = 2, qty_decimals = 1\<rparr>) (#) frame () [] =
      (((), [\<lparr>msg_type = kSnapshot, checksum = 2520196449, venue_time_ns = 0, capture_time_ns = 3,
              msg_symbol = ''A/B'', buys = [\<lparr>price = 4529, quantity = 1\<rparr>], sells = []\<rparr>]), Inr ())"
proof -
  let ?p = "\<lparr>price_decimals = 2, qty_decimals = 1\<rparr>"
  have v: "scaled_value ''45'' ''29'' 2 = 4529" "scaled_value ''0'' ''1'' (Suc 0) = 1"
    by (simp_all add: scaled_value_def eval_digits)
  have t: "ParseIso8601ToUnixNanos (\<lambda>_ _ _. 0) ''x'' = Inr None"
    by (simp add: ParseIso8601ToUnixNanos_def kSecondsEnd_def)
  have ok: "list_all (level_text_ok ?p) [((''45'', ''29''), (''0'', ''1''))]"
    by (simp add: level_text_ok_def decimal_ok_def v is_digit_def)
  show ?thesis
    using kraken_decodes_book_frame [of "\<lambda>_. Some (book_frame ''snapshot'' ''A/B'' [((''45'', ''29''), (''0'', ''1''))] [] 2520196449 ''x'')"
        "\<lparr>json_text = ''f'', frame_capture_time_ns = 3\<rparr>" "''snapshot''" "''A/B''" "[((''45'', ''29''), (''0'', ''1''))]" "[]"
        2520196449 "''x''" "\<lambda>_ _ _. 0" None "\<lambda>_ _ _. Some ?p" "[]" "Some ?p" "(#)" "()"] t ok
    by (simp add: Let_def scaled_level_def scaled_def v)
qed

text \<open>
  C33. A frame is all or nothing: it emits at most one message, one whose precision
  was found, and a frame that throws, wherever its layout is off, emits nothing.
  Frames that are no book frames are ignored without an exception.
\<close>

theorem kraken_frame_all_or_nothing:
  "case Kraken_Decode parse unspec Find Emit frame d out of
     ((d', out'), Inl e) \<Rightarrow> out' = out \<and> (\<exists>document. parse (json_text frame) = Some document \<and>
       FindMember document ''channel'' = Some (JString ''book''))
   | ((d', out'), Inr _) \<Rightarrow> out' = out \<or>
       (\<exists>m precision. Find out (msg_symbol m) (msg_type m) = Some precision \<and> out' = Emit m out \<and>
          capture_time_ns m = frame_capture_time_ns frame)"
proof -
  obtain out' r where k: "Kraken_Decode parse unspec Find Emit frame d out = (((), out'), r)"
    by (metis (full_types) prod_cases3 unit.exhaust surj_pair)
  have "\<exists>document. parse (json_text frame) = Some document \<and>
      FindMember document ''channel'' = Some (JString ''book'')" if "r = Inl e" for e
    using k that by (auto simp: Kraken_Decode_def split: option.splits if_splits)
  with k show ?thesis
    by (cases rule: Kraken_Decode_cases [OF k]) (auto split: sum.split)
qed

end
