(* ===== verification/KrakenMessageSize.thy ===== *)
theory KrakenMessageSize
  imports Prelude
begin

text \<open>
  kraken/message_size.h and kraken/message_size.cc: an upper bound of the length
  of a book snapshot, from the pieces its text is made of.
\<close>

section \<open>The code\<close>

definition kL2Depths :: "u32 list" where "kL2Depths = [10, 25, 100, 500, 1000]"

definition kSnapshotHead :: string where
  "kSnapshotHead = ''{\"channel\":\"book\",\"type\":\"snapshot\",\"data\":[{\"symbol\":\"''"

definition kSnapshotBids :: string where "kSnapshotBids = ''\",\"bids\":[''"
definition kSnapshotAsks :: string where "kSnapshotAsks = ''],\"asks\":[''"
definition kSnapshotChecksum :: string where "kSnapshotChecksum = ''],\"checksum\":''"
definition kSnapshotTimestamp :: string where "kSnapshotTimestamp = '',\"timestamp\":\"''"
definition kSnapshotTail :: string where "kSnapshotTail = ''\"}]}''"
definition kLevelPrice :: string where "kLevelPrice = ''{\"price\":''"
definition kLevelQty :: string where "kLevelQty = '',\"qty\":''"
definition kLevelTail :: string where "kLevelTail = ''}''"

definition kMaxNumberLength :: nat where "kMaxNumberLength = 24"
definition kMaxChecksumLength :: nat where "kMaxChecksumLength = 10"
definition kTimestampLength :: nat where "kTimestampLength = 27"

definition kMaxLevelLength :: nat where
  "kMaxLevelLength = length kLevelPrice + kMaxNumberLength + length kLevelQty + kMaxNumberLength +
     length kLevelTail + 1"

definition MaxL2SnapshotLength_of :: "nat \<Rightarrow> nat" where
  "MaxL2SnapshotLength_of depth =
     length kSnapshotHead + length kSnapshotBids + length kSnapshotAsks + 2 * depth * kMaxLevelLength +
     length kSnapshotChecksum + kMaxChecksumLength + length kSnapshotTimestamp + kTimestampLength +
     length kSnapshotTail"

definition kMaxL2SnapshotLengths :: "u64 list" where
  "kMaxL2SnapshotLengths = map (\<lambda>d. of_nat (MaxL2SnapshotLength_of (unat d))) kL2Depths"

fun find_index :: "u64 \<Rightarrow> u32 list \<Rightarrow> nat option" where
  "find_index depth [] = None"
| "find_index depth (d # ds) = (if ucast d = depth then Some 0 else map_option Suc (find_index depth ds))"

definition MaxL2SnapshotLength :: "u64 \<Rightarrow> u64 \<Rightarrow> u64 result" where
  "MaxL2SnapshotLength depth symbol_length =
     (case find_index depth kL2Depths of
        None \<Rightarrow> Inl (invalid_argument (''Kraken L2 book does not support depth '' @ nat_to_dec (unat depth)))
      | Some i \<Rightarrow> Inr (kMaxL2SnapshotLengths ! i + symbol_length))"

section \<open>The text of a snapshot\<close>

text \<open>The layout documented for a snapshot, written out apart from the pieces the code sums.\<close>

definition level_text :: "string \<times> string \<Rightarrow> string" where
  "level_text l = ''{\"price\":'' @ fst l @ '',\"qty\":'' @ snd l @ ''}''"

fun comma_separated :: "string list \<Rightarrow> string" where
  "comma_separated [] = []"
| "comma_separated [x] = x"
| "comma_separated (x # xs) = x @ '','' @ comma_separated xs"

definition snapshot_text ::
    "string \<Rightarrow> (string \<times> string) list \<Rightarrow> (string \<times> string) list \<Rightarrow> u32 \<Rightarrow> string \<Rightarrow> string" where
  "snapshot_text symbol bids asks crc time =
     ''{\"channel\":\"book\",\"type\":\"snapshot\",\"data\":[{\"symbol\":\"'' @ symbol @ ''\",\"bids\":['' @
     comma_separated (map level_text bids) @ ''],\"asks\":['' @ comma_separated (map level_text asks) @
     ''],\"checksum\":'' @ nat_to_dec (unat crc) @ '',\"timestamp\":\"'' @ time @ ''\"}]}''"

section \<open>Lemmas\<close>

lemma length_nat_to_dec: "n < 10 ^ Suc k \<Longrightarrow> length (nat_to_dec n) \<le> Suc k"
proof (induction k arbitrary: n)
  case 0
  then show ?case by (simp add: nat_to_dec.simps)
next
  case (Suc k)
  show ?case
  proof (cases "n < 10")
    case True
    then show ?thesis by (simp add: nat_to_dec.simps)
  next
    case False
    have "n div 10 < 10 ^ Suc k" using Suc.prems by (simp add: div_less_iff_less_mult)
    from Suc.IH [OF this] False show ?thesis by (subst nat_to_dec.simps) simp
  qed
qed

lemma length_comma_separated: "length (comma_separated xs) \<le> (\<Sum>x \<leftarrow> xs. length x + 1)"
  by (induction xs rule: comma_separated.induct) auto

lemma length_levels:
  assumes "\<forall>(p, q) \<in> set ls. length p \<le> kMaxNumberLength \<and> length q \<le> kMaxNumberLength"
    and "length ls \<le> depth"
  shows "length (comma_separated (map level_text ls)) \<le> depth * kMaxLevelLength"
proof -
  have "(\<Sum>x \<leftarrow> map level_text ls. length x + 1) \<le> length ls * kMaxLevelLength"
    using assms(1) by (induction ls) (auto simp: level_text_def kMaxLevelLength_def kLevelPrice_def kLevelQty_def kLevelTail_def)
  also have "\<dots> \<le> depth * kMaxLevelLength" using assms(2) by simp
  finally show ?thesis using length_comma_separated [of "map level_text ls"] by simp
qed

lemma find_index_Some:
  "find_index depth ds = Some i \<Longrightarrow> i < length ds \<and> unat (ds ! i) = unat depth"
proof (induction ds arbitrary: i)
  case (Cons d ds)
  have "unat d < 2 ^ 32" using unsigned_less [of d] by simp
  then have "unat (ucast d :: u64) = unat d" by (simp add: unsigned_ucast_eq take_bit_nat_eq_self)
  with Cons show ?case by (auto split: if_splits)
qed simp

section \<open>Properties\<close>

text \<open>
  C37. Every snapshot of a supported depth fits the bound: whatever the symbol,
  the levels (at most the depth on each side, numbers of at most 24 characters),
  the checksum and the timestamp, its text is no longer than the bound, and
  every depth but the supported ones is refused.
\<close>

theorem snapshot_fits:
  assumes "MaxL2SnapshotLength depth (of_nat (length symbol)) = Inr bound" and "length symbol < 2 ^ 63"
    and "length bids \<le> unat depth" and "length asks \<le> unat depth" and "length time = 27"
    and "\<forall>(p, q) \<in> set (bids @ asks). length p \<le> 24 \<and> length q \<le> 24"
  shows "length (snapshot_text symbol bids asks crc time) \<le> unat bound \<and>
    (\<exists>d \<in> set kL2Depths. unat d = unat depth)"
proof -
  obtain i where i: "find_index depth kL2Depths = Some i"
    and bound: "bound = kMaxL2SnapshotLengths ! i + of_nat (length symbol)"
    using assms(1) by (auto simp: MaxL2SnapshotLength_def split: option.splits)
  have d: "i < length kL2Depths" "unat (kL2Depths ! i) = unat depth" using find_index_Some [OF i] by simp_all
  then have mem: "kL2Depths ! i \<in> set kL2Depths" by simp
  have small: "unat depth \<le> 1000" using mem d(2) by (auto simp: kL2Depths_def)
  define n where "n = MaxL2SnapshotLength_of (unat depth)"
  have "n \<le> 200000" using small by (simp add: n_def MaxL2SnapshotLength_of_def kMaxLevelLength_def kSnapshotHead_def
        kSnapshotBids_def kSnapshotAsks_def kSnapshotChecksum_def kSnapshotTimestamp_def kSnapshotTail_def
        kMaxNumberLength_def kMaxChecksumLength_def kTimestampLength_def kLevelPrice_def kLevelQty_def kLevelTail_def)
  moreover have "bound = of_nat (n + length symbol)"
    using d by (simp add: bound kMaxL2SnapshotLengths_def n_def)
  ultimately have "unat bound = n + length symbol"
    using assms(2) unat_of_nat_u64 [of "n + length symbol"] by simp
  moreover have "unat crc < 2 ^ 32" using unsigned_less [of crc] by simp
  then have "length (nat_to_dec (unat crc)) \<le> 10"
    using length_nat_to_dec [of "unat crc" 9] by simp
  moreover have "length (comma_separated (map level_text bids)) \<le> unat depth * kMaxLevelLength"
    "length (comma_separated (map level_text asks)) \<le> unat depth * kMaxLevelLength"
    using assms(3,4,6) by (intro length_levels; fastforce simp: kMaxNumberLength_def)+
  ultimately show ?thesis
    using assms(5) mem d(2)
    by (auto simp: snapshot_text_def n_def MaxL2SnapshotLength_of_def kMaxChecksumLength_def kTimestampLength_def
        kSnapshotHead_def kSnapshotBids_def kSnapshotAsks_def kSnapshotChecksum_def kSnapshotTimestamp_def kSnapshotTail_def)
qed

theorem snapshot_fits_witness:
  "(\<exists>bound. MaxL2SnapshotLength 10 7 = Inr bound \<and>
     length (snapshot_text ''BTC/USD'' [(''84888.7'', ''0.06980997'')] [] 1162203035 ''2026-09-27T11:29:39.799080Z'') \<le> unat bound) \<and>
   MaxL2SnapshotLength 11 7 = Inl (invalid_argument ''Kraken L2 book does not support depth 11'')"
proof -
  have "find_index 10 kL2Depths = Some 0" "find_index 11 kL2Depths = None" by (simp_all add: kL2Depths_def)
  moreover have "digit_char 1 = CHR ''1''" unfolding digit_char_def by code_simp
  ultimately obtain bound where b: "MaxL2SnapshotLength 10 7 = Inr bound"
    and e: "MaxL2SnapshotLength 11 7 = Inl (invalid_argument ''Kraken L2 book does not support depth 11'')"
    by (simp add: MaxL2SnapshotLength_def nat_to_dec.simps)
  have "length (snapshot_text ''BTC/USD'' [(''84888.7'', ''0.06980997'')] [] 1162203035 ''2026-09-27T11:29:39.799080Z'') \<le> unat bound"
    by (rule conjunct1 [OF snapshot_fits [of 10]]) (use b in simp_all)
  with b e show ?thesis by blast
qed

end
