(* ===== verification/KrakenRest.thy ===== *)
theory KrakenRest
  imports OrderedMap L2Message Json
begin

text \<open>
  kraken/rest_error.cc, kraken/pair_precision.cc and kraken/tradable_pairs.cc:
  what Kraken's REST answers mean. \<open>parse\<close> is rapidjson's parser in its default
  mode, \<open>http\<close> what a GET of a target answers (the body, or the exception of a
  failed request). rapidjson asserts on a member or a kind that is not there;
  such an access is undefined behaviour.
\<close>

section \<open>Access that rapidjson asserts on\<close>

text \<open>\<^verbatim>\<open>value[name]\<close>, \<^verbatim>\<open>GetUint\<close> and \<^verbatim>\<open>GetString\<close> as a C string.\<close>

definition member :: "json \<Rightarrow> string \<Rightarrow> json result" where
  "member v name = defined_or_UB (FindMember v name)"

definition GetUint :: "json \<Rightarrow> u32 result" where
  "GetUint v =
     (case v of
        JNumber s \<Rightarrow>
          if s \<noteq> [] \<and> list_all is_digit s \<and> dec_value s < 2 ^ 32 then Inr (of_nat (dec_value s))
          else Inl undefined_behaviour
      | _ \<Rightarrow> Inl undefined_behaviour)"

definition GetCString :: "json \<Rightarrow> string result" where
  "GetCString v = (case v of JString s \<Rightarrow> Inr (c_str s) | _ \<Rightarrow> Inl undefined_behaviour)"

text \<open>A document that did not parse is null.\<close>

definition parse_body :: "(string \<Rightarrow> json option) \<Rightarrow> string \<Rightarrow> json" where
  "parse_body parse body = (case parse (c_str body) of None \<Rightarrow> JNull | Some d \<Rightarrow> d)"

definition starts_with :: "string \<Rightarrow> string \<Rightarrow> bool" where
  "starts_with s prefix \<longleftrightarrow> take (length prefix) s = prefix"

section \<open>kraken/rest_error.cc\<close>

definition ThrowOnRestError :: "json \<Rightarrow> string \<Rightarrow> unit result" where
  "ThrowOnRestError document context =
     bindR (member document ''error'') (\<lambda>error_array.
       if \<not> IsArray error_array then Inl undefined_behaviour
       else if GetArray error_array = [] then Inr ()
       else Inl (runtime_error (context @ concat (map (\<lambda>e.
              case e of
                JString s \<Rightarrow> [CHR 0x09] @ c_str s @ [CHR 0x0A]
              | _ \<Rightarrow> [CHR 0x09] @ ''[empty error field]'' @ [CHR 0x0A]) (GetArray error_array)))))"

section \<open>kraken/pair_precision.cc\<close>

definition kAssetPairsEndpoint :: string where "kAssetPairsEndpoint = ''/0/public/AssetPairs''"

definition kUnknownPairError :: string where "kUnknownPairError = ''EQuery:Unknown asset pair''"

fun JoinSymbols :: "string list \<Rightarrow> string" where
  "JoinSymbols [] = []"
| "JoinSymbols [s] = s"
| "JoinSymbols (s # ss) = s @ '','' @ JoinSymbols ss"

definition ReportsUnknownPair :: "json \<Rightarrow> bool" where
  "ReportsUnknownPair document =
     (case FindMember document ''error'' of
        Some (JArray errors) \<Rightarrow>
          list_ex (\<lambda>e. case e of JString s \<Rightarrow> starts_with (c_str s) kUnknownPairError | _ \<Rightarrow> False) errors
      | _ \<Rightarrow> False)"

text \<open>The loop over the requested symbols, which fills the map.\<close>

fun precision_loop :: "json \<Rightarrow> string list \<Rightarrow> PairPrecisionMap \<Rightarrow> PairPrecisionMap result" where
  "precision_loop result_object [] precision = Inr precision"
| "precision_loop result_object (symbol # symbols) precision =
     (if \<not> IsObject result_object then Inl undefined_behaviour
      else case FindMember result_object (c_str symbol) of
        None \<Rightarrow> Inl (UnknownSymbolError (''Kraken AssetPairs response is missing '' @ [CHR 0x27] @ symbol @ [CHR 0x27]))
      | Some pair \<Rightarrow>
          bindR (member pair ''pair_decimals'') (\<lambda>pd. bindR (GetUint pd) (\<lambda>p.
          bindR (member pair ''lot_decimals'') (\<lambda>qd. bindR (GetUint qd) (\<lambda>q.
            precision_loop result_object symbols
              (emplace (<) symbol \<lparr>price_decimals = p, qty_decimals = q\<rparr> precision))))))"

definition FetchPairPrecision ::
    "(string \<Rightarrow> json option) \<Rightarrow> (string \<Rightarrow> string result) \<Rightarrow> string list \<Rightarrow> PairPrecisionMap result" where
  "FetchPairPrecision parse http symbols =
     bindR (http (kAssetPairsEndpoint @ ''?pair='' @ JoinSymbols symbols @ ''&assetVersion=1'')) (\<lambda>body.
       let document = parse_body parse body
       in if ReportsUnknownPair document
          then Inl (UnknownSymbolError (''Kraken does not list '' @ JoinSymbols symbols))
          else bindR (ThrowOnRestError document ''Errors when requesting asset pair precision: '') (\<lambda>_.
                 bindR (member document ''result'') (\<lambda>result_object.
                   precision_loop result_object symbols [])))"

section \<open>kraken/tradable_pairs.cc\<close>

fun online_pairs :: "(string \<times> json) list \<Rightarrow> string list result" where
  "online_pairs [] = Inr []"
| "online_pairs ((name, pair) # pairs) =
     (if \<not> IsObject pair then Inl undefined_behaviour
      else case FindMember pair ''status'' of
        None \<Rightarrow> online_pairs pairs
      | Some status \<Rightarrow> bindR (GetCString status) (\<lambda>s.
          bindR (online_pairs pairs) (\<lambda>rest. Inr (if s = ''online'' then c_str name # rest else rest))))"

definition FetchTradablePairs ::
    "(string \<Rightarrow> json option) \<Rightarrow> (string \<Rightarrow> string result) \<Rightarrow> string list result" where
  "FetchTradablePairs parse http =
     bindR (http (kAssetPairsEndpoint @ ''?assetVersion=1'')) (\<lambda>body.
       let document = parse_body parse body
       in bindR (ThrowOnRestError document ''Errors when requesting asset pairs: '') (\<lambda>_.
            bindR (member document ''result'') (\<lambda>result_object.
              case result_object of
                JObject pairs \<Rightarrow> bindR (online_pairs pairs) (\<lambda>symbols. Inr (sort symbols))
              | _ \<Rightarrow> Inl undefined_behaviour)))"

section \<open>Lemmas\<close>

text \<open>What one entry of the answer says of a pair.\<close>

definition precision_of :: "json \<Rightarrow> PairPrecision option" where
  "precision_of pair =
     (case bindR (member pair ''pair_decimals'') GetUint of
        Inl _ \<Rightarrow> None
      | Inr p \<Rightarrow>
          (case bindR (member pair ''lot_decimals'') GetUint of
             Inl _ \<Rightarrow> None
           | Inr q \<Rightarrow> Some \<lparr>price_decimals = p, qty_decimals = q\<rparr>))"

lemma precision_loop_Cons:
  assumes "precision_loop obj (s # symbols) m = Inr m'"
  obtains pair p where "FindMember obj (c_str s) = Some pair" "precision_of pair = Some p"
    "precision_loop obj symbols (emplace (<) s p m) = Inr m'"
proof -
  obtain pair where pair: "IsObject obj" "FindMember obj (c_str s) = Some pair"
    using assms by (auto split: if_splits option.splits)
  obtain pd p qd q where f: "member pair ''pair_decimals'' = Inr pd" "GetUint pd = Inr p"
    "member pair ''lot_decimals'' = Inr qd" "GetUint qd = Inr q"
    and rest: "precision_loop obj symbols (emplace (<) s \<lparr>price_decimals = p, qty_decimals = q\<rparr> m) = Inr m'"
    using assms pair by (auto simp: bindR_Inr_iff)
  have "precision_of pair = Some \<lparr>price_decimals = p, qty_decimals = q\<rparr>" using f by (simp add: precision_of_def)
  with pair(2) rest that show ?thesis by blast
qed

lemma precision_loop_ordered: "precision_loop obj symbols m = Inr m' \<Longrightarrow> ordered (<) m \<Longrightarrow> ordered (<) m'"
  by (induction symbols arbitrary: m) (auto elim!: precision_loop_Cons simp del: precision_loop.simps(2)
      simp: map_ops)

lemma precision_loop_keeps:
  "precision_loop obj symbols m = Inr m' \<Longrightarrow> map_of m s = Some p \<Longrightarrow> map_of m' s = Some p"
proof (induction symbols arbitrary: m)
  case (Cons s' symbols)
  from Cons.prems(1) obtain pair q where "precision_loop obj symbols (emplace (<) s' q m) = Inr m'"
    by (rule precision_loop_Cons)
  moreover have "map_of (emplace (<) s' q m) s = Some p"
    using Cons.prems(2) by (auto simp: map_ops)
  ultimately show ?case by (rule Cons.IH)
qed simp

lemma precision_loop_adds:
  assumes "precision_loop obj symbols m = Inr m'" and "s \<in> set symbols" and "map_of m s = None"
  shows "\<exists>pair p. FindMember obj (c_str s) = Some pair \<and> precision_of pair = Some p \<and> map_of m' s = Some p"
  using assms
proof (induction symbols arbitrary: m)
  case (Cons s' symbols)
  from Cons.prems(1) obtain pair p where p: "FindMember obj (c_str s') = Some pair" "precision_of pair = Some p"
    "precision_loop obj symbols (emplace (<) s' p m) = Inr m'" by (rule precision_loop_Cons)
  show ?case
  proof (cases "s' = s")
    case True
    then have "map_of (emplace (<) s' p m) s = Some p"
      using Cons.prems(3) by (simp add: map_ops)
    with precision_loop_keeps [OF p(3)] p True show ?thesis by blast
  next
    case False
    with Cons.prems have "s \<in> set symbols" "map_of (emplace (<) s' p m) s = None"
      by (auto simp: map_ops)
    from Cons.IH [OF p(3) this] show ?thesis .
  qed
qed simp

lemma precision_loop_other:
  "precision_loop obj symbols m = Inr m' \<Longrightarrow> s \<notin> set symbols \<Longrightarrow> map_of m' s = map_of m s"
  by (induction symbols arbitrary: m) (auto elim!: precision_loop_Cons simp del: precision_loop.simps(2)
      simp: map_ops)

lemma online_pairs_Inr:
  assumes "online_pairs ps = Inr symbols"
  shows "symbols = map (\<lambda>(name, pair). c_str name)
    (filter (\<lambda>(name, pair). \<exists>s. FindMember pair ''status'' = Some (JString s) \<and> c_str s = ''online'') ps)"
  using assms
proof (induction ps arbitrary: symbols)
  case (Cons p ps)
  then show ?case
    by (cases p) (auto simp: bindR_Inr_iff GetCString_def split: if_splits option.splits json.splits)
qed simp

text \<open>The tradable pairs come sorted and are those the answer says are online.\<close>

lemma FetchTradablePairs_Inr:
  assumes "FetchTradablePairs parse http = Inr symbols"
  shows "sorted symbols \<and> (\<exists>body ps. http (kAssetPairsEndpoint @ ''?assetVersion=1'') = Inr body \<and>
    FindMember (parse_body parse body) ''result'' = Some (JObject ps) \<and>
    set symbols = {c_str name | name pair s. (name, pair) \<in> set ps \<and>
      FindMember pair ''status'' = Some (JString s) \<and> c_str s = ''online''})"
proof -
  obtain body ps unsorted where b: "http (kAssetPairsEndpoint @ ''?assetVersion=1'') = Inr body"
    "FindMember (parse_body parse body) ''result'' = Some (JObject ps)"
    and o: "online_pairs ps = Inr unsorted" "symbols = sort unsorted"
  proof -
    obtain body obj where "http (kAssetPairsEndpoint @ ''?assetVersion=1'') = Inr body"
      "member (parse_body parse body) ''result'' = Inr obj"
      "(case obj of JObject pairs \<Rightarrow> bindR (online_pairs pairs) (\<lambda>symbols. Inr (sort symbols))
        | _ \<Rightarrow> Inl undefined_behaviour) = Inr symbols"
      using assms unfolding FetchTradablePairs_def Let_def bindR_Inr_iff by blast
    with that show ?thesis
      by (cases obj) (auto simp: bindR_Inr_iff member_def defined_or_UB_def split: option.splits)
  qed
  have "set symbols = {c_str name | name pair s. (name, pair) \<in> set ps \<and>
      FindMember pair ''status'' = Some (JString s) \<and> c_str s = ''online''}"
    using online_pairs_Inr [OF o(1)] by (force simp: o(2))
  with b o show ?thesis by auto
qed

section \<open>Properties\<close>

text \<open>
  When the lookup of pairs succeeds, the map it returns has exactly the
  requested symbols as its keys, in order, each with the price and quantity
  decimals its own entry of Kraken's answer gives: no symbol is guessed, mixed up
  or left out. The answer then reported neither an unknown pair nor any error.
\<close>

theorem pair_precision_from_answer:
  assumes "FetchPairPrecision parse http symbols = Inr m"
  shows "\<exists>body entries.
    http (kAssetPairsEndpoint @ ''?pair='' @ JoinSymbols symbols @ ''&assetVersion=1'') = Inr body \<and>
    \<not> ReportsUnknownPair (parse_body parse body) \<and>
    FindMember (parse_body parse body) ''error'' = Some (JArray []) \<and>
    FindMember (parse_body parse body) ''result'' = Some entries \<and>
    ordered (<) m \<and> dom (map_of m) = set symbols \<and>
    (\<forall>s \<in> set symbols. \<exists>pair. FindMember entries (c_str s) = Some pair \<and> map_of m s = precision_of pair)"
proof -
  obtain body entries where b: "http (kAssetPairsEndpoint @ ''?pair='' @ JoinSymbols symbols @ ''&assetVersion=1'') = Inr body"
    and u: "\<not> ReportsUnknownPair (parse_body parse body)"
    and e: "ThrowOnRestError (parse_body parse body) ''Errors when requesting asset pair precision: '' = Inr ()"
    and r: "FindMember (parse_body parse body) ''result'' = Some entries"
    and l: "precision_loop entries symbols [] = Inr m"
    using assms
    by (auto simp: FetchPairPrecision_def Let_def bindR_Inr_iff member_def defined_or_UB_def
        split: option.splits if_splits)
  have "FindMember (parse_body parse body) ''error'' = Some (JArray [])"
    using e by (auto simp: ThrowOnRestError_def bindR_Inr_iff member_def defined_or_UB_def IsArray_def
        split: option.splits if_splits)
  moreover have "map_of m s \<noteq> None \<longleftrightarrow> s \<in> set symbols" for s
    using precision_loop_adds [OF l, of s] precision_loop_other [OF l, of s] by (cases "s \<in> set symbols") auto
  then have "dom (map_of m) = set symbols" by (simp add: dom_def)
  moreover have "\<forall>s \<in> set symbols. \<exists>pair. FindMember entries (c_str s) = Some pair \<and> map_of m s = precision_of pair"
    using precision_loop_adds [OF l] by fastforce
  ultimately show ?thesis
    using b u r precision_loop_ordered [OF l] by auto
qed

theorem pair_precision_from_answer_witness:
  "let answer = JObject [(''error'', JArray []), (''result'', JObject [(''A/B'', JObject
         [(''pair_decimals'', JNumber ''1''), (''lot_decimals'', JNumber ''8'')])])]
   in \<exists>m. FetchPairPrecision (\<lambda>_. Some answer) (\<lambda>_. Inr ''body'') [''A/B''] = Inr m \<and>
        dom (map_of m) = {''A/B''}"
proof -
  let ?answer = "JObject [(''error'', JArray []), (''result'', JObject [(''A/B'', JObject
         [(''pair_decimals'', JNumber ''1''), (''lot_decimals'', JNumber ''8'')])])]"
  have "\<exists>m. FetchPairPrecision (\<lambda>_. Some ?answer) (\<lambda>_. Inr ''body'') [''A/B''] = Inr m"
    by (simp add: FetchPairPrecision_def parse_body_def ReportsUnknownPair_def ThrowOnRestError_def member_def
        c_str_def GetUint_def dec_value_def digit_val_def is_digit_def)
  then obtain m where m: "FetchPairPrecision (\<lambda>_. Some ?answer) (\<lambda>_. Inr ''body'') [''A/B''] = Inr m" ..
  then have "dom (map_of m) = {''A/B''}" using pair_precision_from_answer [OF m] by auto
  with m show ?thesis by (auto simp: Let_def)
qed

end
