(* ===== verification/VenueManager.thy ===== *)
theory VenueManager
  imports L2Message
begin

text \<open>
  venue/manager.h: the identifiers and errors every venue shares. An enum with a
  fixed underlying type is that integer: \<^verbatim>\<open>VenueOf\<close> can name a venue there is
  no enumerator for.
\<close>

unbundle bit_operations_syntax

section \<open>The code\<close>

type_synonym Id = u8

definition kKraken :: Id where "kKraken = 0"
definition kCoinbase :: Id where "kCoinbase = 1"

type_synonym Sink = u8

definition kLive :: Sink where "kLive = 0"
definition kRecord :: Sink where "kRecord = 1"

definition SinkName :: "Sink \<Rightarrow> string" where
  "SinkName sink = (if sink = kRecord then ''a recording'' else ''a live feed'')"

type_synonym SubscriptionId = u64

definition kMaxSubscriptionsAllowed :: u64 where
  "kMaxSubscriptionsAllowed = push_bit 48 1 - 1"

definition MakeSubscriptionId :: "u64 \<Rightarrow> Id \<Rightarrow> Sink \<Rightarrow> SubscriptionId" where
  "MakeSubscriptionId counter venue sink =
     (push_bit 16 counter OR push_bit 8 (ucast venue)) OR ucast sink"

definition CounterOf :: "SubscriptionId \<Rightarrow> u64" where
  "CounterOf i = drop_bit 16 i"

definition VenueOf :: "SubscriptionId \<Rightarrow> Id" where
  "VenueOf i = ucast (drop_bit 8 i AND 0xFF)"

definition SinkOf :: "SubscriptionId \<Rightarrow> Sink" where
  "SinkOf i = ucast (i AND 0xFF)"

record SubscriptionInfo =
  si_id :: SubscriptionId
  si_book :: BookSpec
  si_start_time_ns :: i64

record PairList =
  pl_symbols :: "string list"
  pl_depths :: "u32 list"

datatype Code =
    kUnknownVenue
  | kInvalidDepth
  | kUnknownSymbol
  | kUnknownId
  | kSymbolInUse
  | kVenueFailed
  | kIdsExhausted

record Error =
  code :: Code
  detail :: string

text \<open>\<^verbatim>\<open>std::expected<T, Error>\<close>; \<^verbatim>\<open>Failure\<close> makes the unexpected side.\<close>

type_synonym 'a expected = "Error + 'a"

definition Failure :: "Code \<Rightarrow> string \<Rightarrow> 'a expected" where
  "Failure c d = Inl \<lparr>code = c, detail = d\<rparr>"

lemma Failure_not_Inr [simp]: "Failure c d \<noteq> Inr a"
  by (simp add: Failure_def)

section \<open>Lemmas\<close>

lemma max_counter_bits: "counter \<le> kMaxSubscriptionsAllowed \<Longrightarrow> 48 \<le> n \<Longrightarrow> \<not> bit counter n"
proof -
  assume c: "counter \<le> kMaxSubscriptionsAllowed" and n: "48 \<le> n"
  have "kMaxSubscriptionsAllowed = 0xFFFFFFFFFFFF" by (simp add: kMaxSubscriptionsAllowed_def)
  with c have "unat counter \<le> unat (0xFFFFFFFFFFFF :: u64)" by (simp add: word_le_nat_alt)
  then have "unat counter < 2 ^ 48" by simp
  then have "unat counter < 2 ^ n" using n by (meson less_le_trans one_le_numeral power_increasing)
  then have "\<not> bit (unat counter) n" by (simp add: bit_iff_odd)
  then show "\<not> bit counter n" by (simp add: bit_unsigned_iff)
qed

lemma CounterOf_Make:
  assumes "counter \<le> kMaxSubscriptionsAllowed"
  shows "CounterOf (MakeSubscriptionId counter venue sink) = counter"
proof (rule bit_word_eqI)
  fix n :: nat
  assume "n < LENGTH(64)"
  then show "bit (CounterOf (MakeSubscriptionId counter venue sink)) n = bit counter n"
    using max_counter_bits [OF assms, of n] bit_imp_le_length [of venue "8 + n"] bit_imp_le_length [of sink "16 + n"]
    by (auto simp: CounterOf_def MakeSubscriptionId_def bit_simps)
qed

lemma low_byte: "VenueOf i = ucast (drop_bit 8 i AND mask 8)" "SinkOf i = ucast (i AND mask 8)"
  by (simp_all add: VenueOf_def SinkOf_def mask_eq_exp_minus_1)

lemma VenueOf_Make: "VenueOf (MakeSubscriptionId counter venue sink) = venue"
proof (rule bit_word_eqI)
  fix n :: nat
  assume "n < LENGTH(8)"
  then show "bit (VenueOf (MakeSubscriptionId counter venue sink)) n = bit venue n"
    using bit_imp_le_length [of sink "8 + n"]
    by (auto simp: low_byte MakeSubscriptionId_def bit_simps)
qed

lemma SinkOf_Make: "SinkOf (MakeSubscriptionId counter venue sink) = sink"
proof (rule bit_word_eqI)
  fix n :: nat
  assume "n < LENGTH(8)"
  then show "bit (SinkOf (MakeSubscriptionId counter venue sink)) n = bit sink n"
    by (auto simp: low_byte MakeSubscriptionId_def bit_simps)
qed

lemma CounterOf_mono: "i \<le> j \<Longrightarrow> CounterOf i \<le> CounterOf j"
  by (simp add: CounterOf_def word_le_nat_alt drop_bit_eq_div unat_div div_le_mono)

section \<open>Properties\<close>

text \<open>
  A subscription id of a counter the Router hands out names its counter,
  its venue and its sink, so ids of different subscriptions differ, ids sort in
  the order they were handed out, and no id is zero.
\<close>

theorem subscription_id_fields:
  assumes "counter \<le> kMaxSubscriptionsAllowed" and "counter' \<le> kMaxSubscriptionsAllowed"
    and "i = MakeSubscriptionId counter venue sink" and "i' = MakeSubscriptionId counter' venue' sink'"
  shows "CounterOf i = counter \<and> VenueOf i = venue \<and> SinkOf i = sink \<and>
    (counter < counter' \<longrightarrow> i < i') \<and> (i = i' \<longleftrightarrow> counter = counter' \<and> venue = venue' \<and> sink = sink') \<and>
    (0 < counter \<longrightarrow> i \<noteq> 0)"
proof -
  have f: "CounterOf i = counter" "CounterOf i' = counter'"
    using assms by (simp_all add: CounterOf_Make)
  have "counter < counter' \<longrightarrow> i < i'" using CounterOf_mono [of i' i] f by (metis leD leI)
  moreover have "i = i' \<longleftrightarrow> counter = counter' \<and> venue = venue' \<and> sink = sink'"
    using f assms VenueOf_Make SinkOf_Make by metis
  moreover have "0 < counter \<longrightarrow> i \<noteq> 0" using f by (auto simp: CounterOf_def)
  ultimately show ?thesis using assms f by (simp add: VenueOf_Make SinkOf_Make)
qed

theorem subscription_id_fields_witness:
  "VenueOf (MakeSubscriptionId 7 kCoinbase kRecord) = kCoinbase \<and>
   MakeSubscriptionId 7 kCoinbase kRecord < MakeSubscriptionId 8 kKraken kLive"
  using subscription_id_fields [of 7 8 _ kCoinbase kRecord _ kKraken kLive, OF _ _ refl refl]
  by (simp add: kMaxSubscriptionsAllowed_def)

end
