(* ===== verification/VenueAdapter.thy ===== *)
theory VenueAdapter
  imports VenueManager VenueL2Decoder
begin

text \<open>
  venue/adapter.h and venue/adapter.cc: everything the manager needs to know of
  one venue. The virtual methods are the fields of a record; the REST calls take
  what the venue answers from their argument \<open>'w\<close>, the state of the world
  outside.
\<close>

section \<open>The code\<close>

definition kMaxSymbolLength :: nat where "kMaxSymbolLength = 32"

text \<open>\<^verbatim>\<open>std::isalnum\<close> and \<^verbatim>\<open>std::islower\<close> in the C locale.\<close>

definition is_lower :: "char \<Rightarrow> bool" where
  "is_lower c \<longleftrightarrow> 97 \<le> (of_char c :: nat) \<and> (of_char c :: nat) \<le> 122"

definition is_alnum :: "char \<Rightarrow> bool" where
  "is_alnum c \<longleftrightarrow> is_digit c \<or> is_lower c \<or> 65 \<le> (of_char c :: nat) \<and> (of_char c :: nat) \<le> 90"

definition IsWellFormedSymbol :: "string \<Rightarrow> string \<Rightarrow> bool" where
  "IsWellFormedSymbol symbol punctuation \<longleftrightarrow>
     symbol \<noteq> [] \<and> length symbol \<le> kMaxSymbolLength \<and>
     list_all (\<lambda>c. is_alnum c \<or> c \<in> set punctuation) symbol"

definition CallVenue :: "'a result \<Rightarrow> 'a expected" where
  "CallVenue fetched =
     (case fetched of
        Inr a \<Rightarrow> Inr a
      | Inl (UnknownSymbolError s) \<Rightarrow> Failure kUnknownSymbol s
      | Inl e \<Rightarrow> Failure kVenueFailed (what e))"

datatype BookRequest = kSubscribe | kUnsubscribe

record Endpoints =
  ep_host :: string
  ep_port :: string
  ep_target :: string

record 'w Adapter =
  ad_name :: string
  ad_endpoints :: Endpoints
  ad_depths :: "u32 list"
  ad_book_checksum :: "(Book \<Rightarrow> u32) option"
  ad_CheckSymbol :: "string \<Rightarrow> unit expected"
  ad_FetchPrecision :: "'w \<Rightarrow> string \<Rightarrow> PairPrecision expected"
  ad_FetchPairs :: "'w \<Rightarrow> string list expected"
  ad_ConnectRequests :: "string list"
  ad_MakeBookRequest :: "BookRequest \<Rightarrow> BookSpec \<Rightarrow> string"

section \<open>The contract\<close>

text \<open>
  What the manager relies on: a symbol that passes the check goes into a request
  as it is and cannot add anything to it, and requests of different books differ.
\<close>

definition plain_char :: "char \<Rightarrow> bool" where
  "plain_char c \<longleftrightarrow> is_alnum c \<or> c \<in> set ''/.-_''"

locale venue_adapter =
  fixes adapter :: "'w Adapter"
  assumes checked_plain:
    "ad_CheckSymbol adapter symbol = Inr () \<Longrightarrow> symbol \<noteq> [] \<and> list_all plain_char symbol"
    and check_refuses: "ad_CheckSymbol adapter symbol = Inl e \<Longrightarrow> code e = kUnknownSymbol"
    and request_inj:
    "ad_CheckSymbol adapter (bs_symbol b) = Inr () \<Longrightarrow> ad_CheckSymbol adapter (bs_symbol b') = Inr () \<Longrightarrow>
       bs_depth b \<in> set (ad_depths adapter) \<Longrightarrow> bs_depth b' \<in> set (ad_depths adapter) \<Longrightarrow>
       ad_MakeBookRequest adapter q b = ad_MakeBookRequest adapter q' b' \<Longrightarrow> q = q' \<and> b = b'"
begin

text \<open>Decoding what a request asks for is therefore unambiguous.\<close>

definition request_of :: "string \<Rightarrow> (BookRequest \<times> BookSpec) option" where
  "request_of str =
     (if \<exists>q b. ad_CheckSymbol adapter (bs_symbol b) = Inr () \<and> bs_depth b \<in> set (ad_depths adapter) \<and>
          str = ad_MakeBookRequest adapter q b
      then Some (SOME qb. ad_CheckSymbol adapter (bs_symbol (snd qb)) = Inr () \<and>
          bs_depth (snd qb) \<in> set (ad_depths adapter) \<and> str = ad_MakeBookRequest adapter (fst qb) (snd qb))
      else None)"

lemma request_of_Make:
  assumes "ad_CheckSymbol adapter (bs_symbol b) = Inr ()" and "bs_depth b \<in> set (ad_depths adapter)"
  shows "request_of (ad_MakeBookRequest adapter q b) = Some (q, b)"
proof -
  let ?P = "\<lambda>qb. ad_CheckSymbol adapter (bs_symbol (snd qb)) = Inr () \<and>
    bs_depth (snd qb) \<in> set (ad_depths adapter) \<and>
    ad_MakeBookRequest adapter q b = ad_MakeBookRequest adapter (fst qb) (snd qb)"
  have "?P (q, b)" using assms by simp
  then have "?P (Eps ?P)" by (rule someI)
  then have "q = fst (Eps ?P) \<and> b = snd (Eps ?P)"
    using assms by (intro request_inj) blast+
  then have "Eps ?P = (q, b)" by (intro prod_eqI) simp_all
  moreover have "\<exists>q' b'. ad_CheckSymbol adapter (bs_symbol b') = Inr () \<and> bs_depth b' \<in> set (ad_depths adapter) \<and>
      ad_MakeBookRequest adapter q b = ad_MakeBookRequest adapter q' b'"
    using assms by blast
  ultimately show ?thesis by (simp only: request_of_def if_True)
qed

end

section \<open>Lemmas\<close>

lemma plain_charD: "plain_char c \<Longrightarrow> c \<noteq> CHR 0x22 \<and> c \<noteq> CHR 0x5C \<and> c \<noteq> CHR 0x2C"
  by (auto simp: plain_char_def is_alnum_def is_digit_def is_lower_def)

lemma well_formed_plain:
  "IsWellFormedSymbol symbol punctuation \<Longrightarrow> set punctuation \<subseteq> set ''/.-_'' \<Longrightarrow>
     symbol \<noteq> [] \<and> list_all plain_char symbol"
  by (auto simp: IsWellFormedSymbol_def plain_char_def list_all_iff)

text \<open>A symbol between quotes ends at the quote.\<close>

lemma quoted_inj:
  assumes "list_all plain_char a" and "list_all plain_char b"
    and "a @ CHR 0x22 # x = b @ CHR 0x22 # y"
  shows "a = b \<and> x = y"
proof -
  have "takeWhile plain_char (s @ CHR 0x22 # z) = s" if "list_all plain_char s" for s z
  proof -
    have "\<not> plain_char (CHR 0x22)" using plain_charD by blast
    then show ?thesis using that by (simp add: takeWhile_tail takeWhile_eq_all_conv list_all_iff)
  qed
  with assms have "a = b" by metis
  with assms show ?thesis by simp
qed

lemma CallVenue_Inr [simp]: "CallVenue r = Inr a \<longleftrightarrow> r = Inr a"
  by (auto simp: CallVenue_def split: sum.splits exn.splits)

end
