(* ===== verification/JsonText.thy ===== *)
theory JsonText
  imports Json
begin

text \<open>
  A reader of JSON text, for what the program sends: the part of RFC 8259 without
  white space between the tokens, without escapes in strings and with integers
  as the only numbers. It is written from the grammar, not from the program, and
  reads back the requests made for the venues.
\<close>

fun read_chars :: "string \<Rightarrow> (string \<times> string) option" where
  "read_chars [] = None"
| "read_chars (c # cs) =
     (if c = CHR 0x22 then Some ([], cs)
      else if c = CHR 0x5C \<or> of_char c < (32 :: nat) then None
      else map_option (\<lambda>(s, rest). (c # s, rest)) (read_chars cs))"

text \<open>The fuel is spent one per value, member and element; the length of the text is enough.\<close>

fun read_value :: "nat \<Rightarrow> string \<Rightarrow> (json \<times> string) option"
  and read_members :: "nat \<Rightarrow> string \<Rightarrow> ((string \<times> json) list \<times> string) option"
  and read_elements :: "nat \<Rightarrow> string \<Rightarrow> (json list \<times> string) option" where
  "read_value 0 cs = None"
| "read_value (Suc n) cs =
     (case cs of
        [] \<Rightarrow> None
      | c # rest \<Rightarrow>
          if c = CHR 0x22 then map_option (\<lambda>(s, rest). (JString s, rest)) (read_chars rest)
          else if c = CHR ''{'' then
            (if rest \<noteq> [] \<and> hd rest = CHR ''}'' then Some (JObject [], tl rest)
             else map_option (\<lambda>(members, rest). (JObject members, rest)) (read_members n rest))
          else if c = CHR ''['' then
            (if rest \<noteq> [] \<and> hd rest = CHR '']'' then Some (JArray [], tl rest)
             else map_option (\<lambda>(elements, rest). (JArray elements, rest)) (read_elements n rest))
          else if is_digit c then Some (JNumber (takeWhile is_digit cs), dropWhile is_digit cs)
          else None)"
| "read_members 0 cs = None"
| "read_members (Suc n) cs =
     (case cs of
        [] \<Rightarrow> None
      | c # cs \<Rightarrow> if c \<noteq> CHR 0x22 then None else
          (case read_chars cs of
             None \<Rightarrow> None
           | Some (name, cs) \<Rightarrow>
               (case cs of
                  [] \<Rightarrow> None
                | c # cs \<Rightarrow> if c \<noteq> CHR '':'' then None else
                    (case read_value n cs of
                       None \<Rightarrow> None
                     | Some (v, cs) \<Rightarrow>
                         (case cs of
                            [] \<Rightarrow> None
                          | c # cs \<Rightarrow>
                              if c = CHR ''}'' then Some ([(name, v)], cs)
                              else if c = CHR '','' then
                                map_option (\<lambda>(members, rest). ((name, v) # members, rest)) (read_members n cs)
                              else None)))))"
| "read_elements 0 cs = None"
| "read_elements (Suc n) cs =
     (case read_value n cs of
        None \<Rightarrow> None
      | Some (v, cs) \<Rightarrow>
          (case cs of
             [] \<Rightarrow> None
           | c # cs \<Rightarrow>
               if c = CHR '']'' then Some ([v], cs)
               else if c = CHR '','' then
                 map_option (\<lambda>(elements, rest). (v # elements, rest)) (read_elements n cs)
               else None))"

text \<open>A text is one value and nothing after it.\<close>

definition read_json :: "string \<Rightarrow> json option" where
  "read_json cs = (case read_value (length cs) cs of Some (v, []) \<Rightarrow> Some v | _ \<Rightarrow> None)"

definition json_plain :: "char \<Rightarrow> bool" where
  "json_plain c \<longleftrightarrow> c \<noteq> CHR 0x22 \<and> c \<noteq> CHR 0x5C \<and> \<not> of_char c < (32 :: nat)"

lemma read_chars_plain:
  "list_all json_plain s \<Longrightarrow> read_chars (s @ CHR 0x22 # rest) = Some (s, rest)"
  by (induction s) (simp_all add: json_plain_def)

text \<open>A number ends where its digits do.\<close>

lemma read_value_number:
  assumes "rest = [] \<or> \<not> is_digit (hd rest)"
  shows "read_value (Suc n) (nat_to_dec k @ rest) = Some (JNumber (nat_to_dec k), rest)"
proof -
  have digits: "\<forall>c \<in> set (nat_to_dec k). is_digit c"
    using nat_to_dec_digits [of k] by (simp add: list_all_iff)
  then have "takeWhile is_digit (nat_to_dec k @ rest) = nat_to_dec k"
    "dropWhile is_digit (nat_to_dec k @ rest) = rest"
    using assms by (cases rest, auto simp: takeWhile_append2 dropWhile_append2)+
  moreover obtain c cs where c: "nat_to_dec k = c # cs" by (cases "nat_to_dec k") auto
  moreover have "is_digit c" using digits c by simp
  then have "c \<noteq> CHR 0x22 \<and> c \<noteq> CHR ''{'' \<and> c \<noteq> CHR ''[''" by (auto simp: is_digit_def)
  ultimately show ?thesis using \<open>is_digit c\<close> by simp
qed

lemma read_value_Cons:
  "read_value (Suc n) (c # rest) =
     (if c = CHR 0x22 then map_option (\<lambda>(s, rest). (JString s, rest)) (read_chars rest)
      else if c = CHR ''{'' then
        (if rest \<noteq> [] \<and> hd rest = CHR ''}'' then Some (JObject [], tl rest)
         else map_option (\<lambda>(members, rest). (JObject members, rest)) (read_members n rest))
      else if c = CHR ''['' then
        (if rest \<noteq> [] \<and> hd rest = CHR '']'' then Some (JArray [], tl rest)
         else map_option (\<lambda>(elements, rest). (JArray elements, rest)) (read_elements n rest))
      else if is_digit c then Some (JNumber (takeWhile is_digit (c # rest)), dropWhile is_digit (c # rest))
      else None)"
  by simp

declare read_value.simps(2) [simp del]

lemmas read_text = read_json_def read_chars_plain read_value_number read_value_Cons

end
