(* ===== verification/KrakenAdapter.thy ===== *)
theory KrakenAdapter
  imports VenueAdapter JsonText KrakenRest KrakenMessageSize KrakenChecksum
begin

text \<open>
  kraken/adapter.h and kraken/adapter.cc with kraken/constants.h: Kraken as the
  manager sees it. The world outside is the answer of a GET of each target.
\<close>

section \<open>The code\<close>

definition Kraken_endpoints :: Endpoints where
  "Kraken_endpoints = \<lparr>ep_host = ''ws.kraken.com'', ep_port = ''443'', ep_target = ''/v2''\<rparr>"

definition Kraken_CheckSymbol :: "string \<Rightarrow> unit expected" where
  "Kraken_CheckSymbol symbol =
     (if IsWellFormedSymbol symbol ''/.-_'' then Inr ()
      else Failure kUnknownSymbol
        (''A Kraken pair is up to '' @ nat_to_dec kMaxSymbolLength @
         '' letters, digits and '' @ [CHR 0x27] @ ''/'' @ [CHR 0x27] @ '', '' @ [CHR 0x27] @ ''.'' @ [CHR 0x27] @
         '', '' @ [CHR 0x27] @ ''-'' @ [CHR 0x27] @ '' or '' @ [CHR 0x27] @ ''_'' @ [CHR 0x27] @ '', e.g. BTC/USD''))"

definition Kraken_FetchPrecision ::
    "(string \<Rightarrow> json option) \<Rightarrow> (string \<Rightarrow> string result) \<Rightarrow> string \<Rightarrow> PairPrecision expected" where
  "Kraken_FetchPrecision parse http symbol =
     CallVenue (bindR (FetchPairPrecision parse http [symbol]) (\<lambda>m.
       case map_of m symbol of None \<Rightarrow> Inl (logic_error ''flat_map::at'') | Some p \<Rightarrow> Inr p))"

definition Kraken_FetchPairs ::
    "(string \<Rightarrow> json option) \<Rightarrow> (string \<Rightarrow> string result) \<Rightarrow> string list expected" where
  "Kraken_FetchPairs parse http = CallVenue (FetchTradablePairs parse http)"

definition Kraken_MakeBookRequest :: "BookRequest \<Rightarrow> BookSpec \<Rightarrow> string" where
  "Kraken_MakeBookRequest request book =
     ''{\"method\":\"'' @ (if request = kSubscribe then ''subscribe'' else ''unsubscribe'') @
     ''\",\"params\":{\"channel\":\"book\",\"depth\":'' @ nat_to_dec (unat (bs_depth book)) @
     '',\"symbol\":[\"'' @ bs_symbol book @ ''\"]}}''"

definition Kraken_adapter :: "(string \<Rightarrow> json option) \<Rightarrow> (string \<Rightarrow> string result) Adapter" where
  "Kraken_adapter parse =
     \<lparr>ad_name = ''kraken'',
      ad_endpoints = Kraken_endpoints,
      ad_depths = kL2Depths,
      ad_book_checksum = Some BookChecksum,
      ad_CheckSymbol = Kraken_CheckSymbol,
      ad_FetchPrecision = Kraken_FetchPrecision parse,
      ad_FetchPairs = Kraken_FetchPairs parse,
      ad_ConnectRequests = [],
      ad_MakeBookRequest = Kraken_MakeBookRequest\<rparr>"

section \<open>The adapter's contract\<close>

lemma Kraken_CheckSymbol_Inr: "Kraken_CheckSymbol symbol = Inr () \<longleftrightarrow> IsWellFormedSymbol symbol ''/.-_''"
  by (simp add: Kraken_CheckSymbol_def)

lemma Kraken_checked_plain:
  "Kraken_CheckSymbol symbol = Inr () \<Longrightarrow> symbol \<noteq> [] \<and> list_all plain_char symbol"
  using well_formed_plain [of symbol "''/.-_''"] by (simp add: Kraken_CheckSymbol_Inr)

lemma dec_then_inj:
  assumes "nat_to_dec m @ CHR '','' # x = nat_to_dec n @ CHR '','' # y"
  shows "m = n \<and> x = y"
proof -
  have "takeWhile is_digit (nat_to_dec k @ CHR '','' # z) = nat_to_dec k" for k z
    using nat_to_dec_digits [of k] by (simp add: takeWhile_tail is_digit_def [of "CHR '',''"])
  with assms have "nat_to_dec m = nat_to_dec n" by metis
  with assms show ?thesis by simp
qed

lemma Kraken_request_inj:
  assumes "list_all plain_char (bs_symbol b)" and "list_all plain_char (bs_symbol b')"
    and "Kraken_MakeBookRequest q b = Kraken_MakeBookRequest q' b'"
  shows "q = q' \<and> b = b'"
proof -
  have q: "q = q'"
    using assms(3) by (cases q; cases q') (simp_all add: Kraken_MakeBookRequest_def)
  with assms(3) have "nat_to_dec (unat (bs_depth b)) @ '',\"symbol\":[\"'' @ bs_symbol b @ ''\"]}}'' =
      nat_to_dec (unat (bs_depth b')) @ '',\"symbol\":[\"'' @ bs_symbol b' @ ''\"]}}''"
    by (simp add: Kraken_MakeBookRequest_def)
  then have "nat_to_dec (unat (bs_depth b)) @ CHR '','' # ''\"symbol\":[\"'' @ bs_symbol b =
      nat_to_dec (unat (bs_depth b')) @ CHR '','' # ''\"symbol\":[\"'' @ bs_symbol b'"
    by simp
  from dec_then_inj [OF this] have "bs_depth b = bs_depth b' \<and> bs_symbol b = bs_symbol b'"
    by (simp add: word_unat_eq_iff)
  with q show ?thesis by (simp add: BookSpec.equality)
qed

interpretation kraken_adapter: venue_adapter "Kraken_adapter parse"
proof
  fix symbol e and b b' :: BookSpec and q q' :: BookRequest
  show "ad_CheckSymbol (Kraken_adapter parse) symbol = Inr () \<Longrightarrow> symbol \<noteq> [] \<and> list_all plain_char symbol"
    by (simp add: Kraken_adapter_def Kraken_checked_plain)
  show "ad_CheckSymbol (Kraken_adapter parse) symbol = Inl e \<Longrightarrow> code e = kUnknownSymbol"
    by (auto simp: Kraken_adapter_def Kraken_CheckSymbol_def Failure_def split: if_splits)
  assume "ad_CheckSymbol (Kraken_adapter parse) (bs_symbol b) = Inr ()"
    "ad_CheckSymbol (Kraken_adapter parse) (bs_symbol b') = Inr ()"
    "ad_MakeBookRequest (Kraken_adapter parse) q b = ad_MakeBookRequest (Kraken_adapter parse) q' b'"
  then show "q = q' \<and> b = b'"
    using Kraken_checked_plain by (intro Kraken_request_inj) (simp_all add: Kraken_adapter_def)
qed

text \<open>
  Kraken's documented request for books: the method, the channel, the depth and
  the list of symbols, as values of a JSON object.
\<close>

definition book_request :: "string \<Rightarrow> nat \<Rightarrow> string \<Rightarrow> json" where
  "book_request action depth symbol =
     JObject [(''method'', JString action),
       (''params'', JObject [(''channel'', JString ''book''), (''depth'', JNumber (nat_to_dec depth)),
         (''symbol'', JArray [JString symbol])])]"

lemma read_request:
  assumes "list_all json_plain action" and "list_all json_plain symbol"
  shows "read_json (''{\"method\":\"'' @ action @ ''\",\"params\":{\"channel\":\"book\",\"depth\":'' @ nat_to_dec depth @
      '',\"symbol\":[\"'' @ symbol @ ''\"]}}'') = Some (book_request action depth symbol)"
  using assms
  by (simp add: read_text is_digit_def [of "CHR '',''"] book_request_def)

lemma plain_char_json: "plain_char c \<Longrightarrow> json_plain c"
  by (auto simp: plain_char_def is_alnum_def is_digit_def is_lower_def json_plain_def)

section \<open>Properties\<close>

text \<open>
  C36. A request says what the code means and a client cannot smuggle anything
  into it: for a symbol that passes the check (1 to 32 letters, digits and '/',
  '.', '-' or '_') a JSON reader finds in the text exactly Kraken's documented
  request, subscribe or unsubscribe, with the book's depth and its symbol, and
  the requests of two checked books are the same text only when they ask the same
  of the same pair at the same depth.
\<close>

theorem kraken_request_unambiguous:
  assumes "Kraken_CheckSymbol (bs_symbol b) = Inr ()" and "Kraken_CheckSymbol (bs_symbol b') = Inr ()"
  shows "read_json (Kraken_MakeBookRequest q b) =
      Some (book_request (case q of kSubscribe \<Rightarrow> ''subscribe'' | kUnsubscribe \<Rightarrow> ''unsubscribe'')
        (unat (bs_depth b)) (bs_symbol b)) \<and>
    (Kraken_MakeBookRequest q b = Kraken_MakeBookRequest q' b' \<longleftrightarrow> q = q' \<and> b = b') \<and>
    0 < length (bs_symbol b) \<and> length (bs_symbol b) \<le> 32 \<and>
    list_all (\<lambda>c. is_alnum c \<or> c \<in> set ''/.-_'') (bs_symbol b) \<and>
    CHR 0x22 \<notin> set (bs_symbol b) \<and> CHR 0x5C \<notin> set (bs_symbol b)"
proof -
  have p: "list_all plain_char (bs_symbol b)" "list_all plain_char (bs_symbol b')"
    using assms by (simp_all add: Kraken_checked_plain)
  then have "list_all json_plain (bs_symbol b)" by (auto simp: list_all_iff plain_char_json)
  then have "read_json (Kraken_MakeBookRequest q b) =
      Some (book_request (case q of kSubscribe \<Rightarrow> ''subscribe'' | kUnsubscribe \<Rightarrow> ''unsubscribe'')
        (unat (bs_depth b)) (bs_symbol b))"
    using read_request [of "if q = kSubscribe then ''subscribe'' else ''unsubscribe''" "bs_symbol b" "unat (bs_depth b)"]
    by (cases q) (simp_all add: Kraken_MakeBookRequest_def json_plain_def)
  moreover have "CHR 0x22 \<notin> set (bs_symbol b) \<and> CHR 0x5C \<notin> set (bs_symbol b)"
    using p plain_charD by (auto simp: list_all_iff)
  moreover have "list_all (\<lambda>c. is_alnum c \<or> c \<in> set ''/.-_'') (bs_symbol b)"
    using p(1) by (simp add: plain_char_def [abs_def])
  ultimately show ?thesis
    using assms(1) Kraken_request_inj [OF p, of q q']
    by (auto simp: Kraken_CheckSymbol_Inr IsWellFormedSymbol_def kMaxSymbolLength_def)
qed

theorem kraken_request_unambiguous_witness:
  "Kraken_MakeBookRequest kSubscribe \<lparr>bs_symbol = ''BTC/USD'', bs_depth = 10\<rparr> \<noteq>
   Kraken_MakeBookRequest kSubscribe \<lparr>bs_symbol = ''BTC/USD'', bs_depth = 100\<rparr>"
proof -
  have "Kraken_CheckSymbol ''BTC/USD'' = Inr ()"
    by (simp add: Kraken_CheckSymbol_Inr IsWellFormedSymbol_def kMaxSymbolLength_def is_alnum_def)
  then show ?thesis
    using kraken_request_unambiguous [of "\<lparr>bs_symbol = ''BTC/USD'', bs_depth = 10\<rparr>"
        "\<lparr>bs_symbol = ''BTC/USD'', bs_depth = 100\<rparr>" kSubscribe kSubscribe] by simp
qed

end
