(* ===== verification/CoreEnvironment.thy ===== *)
theory CoreEnvironment
  imports Json
begin

text \<open>
  core/environment.h, core/environment.cc (as it is built on Windows, where alone it compiles)
  and core/debug_log.h. The process environment, the clock and the thread's name are
  arguments.
\<close>

section \<open>core/environment.cc\<close>

record EnvironmentVarNameValue =
  ev_name :: string
  ev_value :: "string option"

definition has_value :: "EnvironmentVarNameValue \<Rightarrow> bool" where
  "has_value r \<longleftrightarrow> ev_value r \<noteq> None"

text \<open>\<open>dupenv_s\<close> gives an error code and the copy of the variable's value, if there is one.\<close>

definition ReadEnvironmentVariable :: "(string \<Rightarrow> int \<times> string option) \<Rightarrow> string \<Rightarrow> EnvironmentVarNameValue" where
  "ReadEnvironmentVariable dupenv_s name =
     (case dupenv_s (c_str name) of
        (error, v) \<Rightarrow>
          if error \<noteq> 0 then \<lparr>ev_name = name, ev_value = None\<rparr>
          else case v of
            None \<Rightarrow> \<lparr>ev_name = name, ev_value = None\<rparr>
          | Some result \<Rightarrow> \<lparr>ev_name = name, ev_value = Some result\<rparr>)"

lemma ReadEnvironmentVariable_eq:
  "ReadEnvironmentVariable dupenv_s name = \<lparr>ev_name = name, ev_value =
     (if fst (dupenv_s (c_str name)) = 0 then snd (dupenv_s (c_str name)) else None)\<rparr>"
  by (simp add: ReadEnvironmentVariable_def split: prod.split option.split)

section \<open>core/debug_log.h\<close>

text \<open>\<^verbatim>\<open>find_last_of\<close>; \<open>None\<close> is \<^verbatim>\<open>npos\<close>, which one more wraps around to zero.\<close>

fun find_last_of :: "string \<Rightarrow> string \<Rightarrow> nat option" where
  "find_last_of cs [] = None"
| "find_last_of cs (x # xs) =
     (case find_last_of cs xs of Some n \<Rightarrow> Some (Suc n) | None \<Rightarrow> if x \<in> set cs then Some 0 else None)"

definition slashes :: string where
  "slashes = [CHR 0x2F, CHR 0x5C]"

definition DebugLog :: "string \<Rightarrow> string \<Rightarrow> string \<Rightarrow> nat \<Rightarrow> string \<Rightarrow> string" where
  "DebugLog utc_time thread_id file line message =
     ''['' @ utc_time @ '' '' @ thread_id @ '' '' @
     drop (case find_last_of slashes file of None \<Rightarrow> 0 | Some n \<Rightarrow> n + 1) file @ '':'' @ nat_to_dec line @
     ''] '' @ message @ [CHR 0x0A]"

text \<open>The macro: a release build evaluates nothing and prints nothing.\<close>

definition kDebugLogging :: "bool \<Rightarrow> bool" where
  "kDebugLogging ndebug \<longleftrightarrow> \<not> ndebug"

definition DEBUG_LOG :: "bool \<Rightarrow> string \<Rightarrow> string \<Rightarrow> string \<Rightarrow> nat \<Rightarrow> (unit \<Rightarrow> string) \<Rightarrow> string list" where
  "DEBUG_LOG ndebug utc_time thread_id file line message =
     (if kDebugLogging ndebug then [DebugLog utc_time thread_id file line (message ())] else [])"

text \<open>A line names the file without its directories.\<close>

lemma find_last_of_None: "find_last_of cs xs = None \<longleftrightarrow> set xs \<inter> set cs = {}"
  by (induction xs) (auto split: option.splits)

lemma find_last_of_split:
  "set file \<inter> set cs = {} \<Longrightarrow> c \<in> set cs \<Longrightarrow> find_last_of cs (dir @ c # file) = Some (length dir)"
  by (induction dir) (simp_all add: find_last_of_None split: option.split)

lemma DebugLog_names_file:
  assumes "set file \<inter> set slashes = {}" and "dir = [] \<or> last dir \<in> set slashes"
  shows "DebugLog utc_time thread_id (dir @ file) line message =
    ''['' @ utc_time @ '' '' @ thread_id @ '' '' @ file @ '':'' @ nat_to_dec line @ ''] '' @ message @ [CHR 0x0A]"
proof (cases "dir = []")
  case True
  then show ?thesis using find_last_of_None [of slashes "file"] assms(1) by (simp add: DebugLog_def)
next
  case False
  then obtain d c where "dir = d @ [c]" "c \<in> set slashes" using assms(2) by (metis append_butlast_last_id)
  then show ?thesis using find_last_of_split [OF assms(1), of c d] by (simp add: DebugLog_def)
qed

end
