(* ===== verification/KrakenToken.thy ===== *)
theory KrakenToken
  imports Base64 KrakenRest CoreEnvironment
begin

text \<open>
  kraken/credentials.cc, kraken/websocket_token.h and
  kraken/websocket_token_generator.cc: the signed request for a websocket token
  and the token's lifetime. The environment, the clocks, OpenSSL, the parser and
  the REST host are arguments.
\<close>

section \<open>kraken/credentials.cc\<close>

record Credentials =
  public_key :: string
  private_key :: string

definition Credentials_FromEnvironment :: "(string \<Rightarrow> int \<times> string option) \<Rightarrow> Credentials result" where
  "Credentials_FromEnvironment dupenv_s =
     (let throw_if_empty = (\<lambda>variable_name.
            let r = ReadEnvironmentVariable dupenv_s variable_name
            in if has_value r then Inr (the (ev_value r))
               else Inl (runtime_error (''Missing environment variable '' @ ev_name r @ ''!'')))
      in bindR (throw_if_empty ''KRAKEN_API_KEY'') (\<lambda>pub.
         bindR (throw_if_empty ''KRAKEN_PRIVATE_KEY'') (\<lambda>priv.
           Inr \<lparr>public_key = pub, private_key = priv\<rparr>)))"

section \<open>kraken/websocket_token.h\<close>

text \<open>Times are nanoseconds of the steady clock, the lifetime is in seconds.\<close>

record WebsocketToken =
  token :: string
  expires :: int
  generation_timestamp :: int
  established :: bool

definition token_expired :: "int \<Rightarrow> WebsocketToken \<Rightarrow> bool" where
  "token_expired now t \<longleftrightarrow> \<not> established t \<and> now - generation_timestamp t \<ge> expires t * 1000000000"

definition token_valid :: "int \<Rightarrow> WebsocketToken \<Rightarrow> bool" where
  "token_valid now t \<longleftrightarrow> token t \<noteq> [] \<and> \<not> token_expired now t"

definition connection_established :: "WebsocketToken \<Rightarrow> WebsocketToken" where
  "connection_established t = t\<lparr>established := True\<rparr>"

lemma valid_once_connected: "token t \<noteq> [] \<Longrightarrow> token_valid now (connection_established t)"
  by (simp add: token_valid_def token_expired_def connection_established_def)

lemma expired_stays: "token_expired now t \<Longrightarrow> now \<le> later \<Longrightarrow> token_expired later t"
  by (simp add: token_expired_def)

section \<open>kraken/websocket_token_generator.cc\<close>

definition kTokenEndpoint :: string where "kTokenEndpoint = ''/0/private/GetWebSocketsToken''"

record openssl =
  evp_encode :: "byte list \<Rightarrow> string"
  evp_decode :: "string \<Rightarrow> byte list option"
  hmac_sha512 :: "byte list \<Rightarrow> byte list \<Rightarrow> byte list option"
  sha_256 :: "byte list \<Rightarrow> byte list option"

definition GenerateNonce :: "int \<Rightarrow> string" where
  "GenerateNonce now_milliseconds = int_to_dec now_milliseconds"

definition GenerateApiSignature :: "openssl \<Rightarrow> string \<Rightarrow> string \<Rightarrow> string \<Rightarrow> string \<Rightarrow> string result" where
  "GenerateApiSignature ssl private_key_b64 path nonce body =
     bindR (Sha256 (sha_256 ssl) (nonce @ body)) (\<lambda>inner.
     bindR (Base64Decode (evp_decode ssl) private_key_b64) (\<lambda>key.
     bindR (HmacSha512 (hmac_sha512 ssl) key (map of_char path @ inner)) (\<lambda>mac.
       Inr (Base64Encode (evp_encode ssl) mac))))"

record token_request =
  tr_target :: string
  tr_api_key :: string
  tr_api_sign :: string
  tr_body :: string

definition GetInt :: "json \<Rightarrow> int result" where
  "GetInt v =
     (case v of
        JNumber s \<Rightarrow>
          (let neg = s \<noteq> [] \<and> hd s = CHR ''-''; ds = (if neg then tl s else s);
               n = (if neg then - int (dec_value ds) else int (dec_value ds))
           in if ds \<noteq> [] \<and> list_all is_digit ds \<and> - (2 ^ 31) \<le> n \<and> n < 2 ^ 31 then Inr n
              else Inl undefined_behaviour)
      | _ \<Rightarrow> Inl undefined_behaviour)"

definition GenerateToken ::
    "openssl \<Rightarrow> (string \<Rightarrow> json option) \<Rightarrow> (token_request \<Rightarrow> string result) \<Rightarrow> int \<Rightarrow> int \<Rightarrow> Credentials \<Rightarrow>
     WebsocketToken result" where
  "GenerateToken ssl parse http now_milliseconds steady_now credentials =
     (let nonce = GenerateNonce now_milliseconds;
          body = ''{\"nonce\":\"'' @ nonce @ ''\"}''
      in bindR (GenerateApiSignature ssl (private_key credentials) kTokenEndpoint nonce body) (\<lambda>signature.
         bindR (http \<lparr>tr_target = kTokenEndpoint, tr_api_key = public_key credentials,
                      tr_api_sign = signature, tr_body = body\<rparr>) (\<lambda>response.
           let document = parse_body parse response
           in bindR (ThrowOnRestError document ''Errors when requesting the websocket token: '') (\<lambda>_.
              bindR (member document ''result'') (\<lambda>result_object.
              bindR (member result_object ''token'') (\<lambda>t. bindR (GetCString t) (\<lambda>token.
              bindR (member result_object ''expires'') (\<lambda>e. bindR (GetInt e) (\<lambda>expires.
                Inr \<lparr>token = token, expires = expires, generation_timestamp = steady_now,
                     established = False\<rparr>)))))))))"

section \<open>Properties\<close>

lemma GetInt_spelled: "GetInt (JNumber (int_to_dec k)) = Inr n \<Longrightarrow> n = k"
proof -
  have "hd (nat_to_dec (nat k)) \<noteq> CHR ''-''" "nat_to_dec (nat k) \<noteq> []"
    using nat_to_dec_digits [of "nat k"] nat_to_dec_nonempty [of "nat k"]
    by (cases "nat_to_dec (nat k)", auto simp: is_digit_def simp del: nat_to_dec_nonempty)+
  then show "GetInt (JNumber (int_to_dec k)) = Inr n \<Longrightarrow> n = k"
    by (auto simp: GetInt_def int_to_dec_def Let_def split: if_splits)
qed

text \<open>
  C38. A token the generator returns was asked for the way Kraken documents, the
  request's parts written out here: the path of the token endpoint, the API key,
  a JSON body with the nonce, and as signature the Base64 text (RFC 4648) of the
  HMAC-SHA512, under the key the private key's Base64 text stands for, of the
  path followed by the SHA-256 of nonce and body. Kraken's answer had no error;
  the token is the text in its \<^verbatim>\<open>result.token\<close> and the lifetime the integer in its
  \<^verbatim>\<open>result.expires\<close>, in seconds: the token is valid exactly while fewer have passed,
  or for good once a connection is established with it. (The digests are
  OpenSSL's; that its Base64 routines compute RFC 4648's encoding and decode it
  with the padding as zero bytes is the documented behaviour assumed here.)
\<close>

theorem generated_token:
  assumes "GenerateToken ssl parse http ms steady credentials = Inr t"
    and "filter (\<lambda>c. c \<in> set base64_alphabet \<or> c = CHR ''='') (private_key credentials) = base64 key" and "key \<noteq> []"
    and "length key < 2 ^ 62"
    and "evp_encode ssl = base64"
    and "evp_decode ssl (base64 key) = Some (key @ replicate (base64_pad key) 0)"
  shows "\<exists>digest mac response result_object chars number.
    sha_256 ssl (map of_char (int_to_dec ms @ ''{\"nonce\":\"'' @ int_to_dec ms @ ''\"}'')) = Some digest \<and>
    hmac_sha512 ssl key (map of_char ''/0/private/GetWebSocketsToken'' @ digest) = Some mac \<and>
    http \<lparr>tr_target = ''/0/private/GetWebSocketsToken'', tr_api_key = public_key credentials,
          tr_api_sign = base64 mac, tr_body = ''{\"nonce\":\"'' @ int_to_dec ms @ ''\"}''\<rparr> = Inr response \<and>
    FindMember (parse_body parse response) ''error'' = Some (JArray []) \<and>
    FindMember (parse_body parse response) ''result'' = Some result_object \<and>
    FindMember result_object ''token'' = Some (JString chars) \<and> token t = c_str chars \<and>
    FindMember result_object ''expires'' = Some (JNumber number) \<and>
    (\<forall>seconds. number = int_to_dec seconds \<longrightarrow> expires t = seconds) \<and>
    (\<forall>now. token_valid now t \<longleftrightarrow> token t \<noteq> [] \<and> now < steady + expires t * 1000000000) \<and>
    (\<forall>now. token_valid now (connection_established t) \<longleftrightarrow> token t \<noteq> [])"
proof -
  let ?body = "''{\"nonce\":\"'' @ int_to_dec ms @ ''\"}''"
  obtain signature response result_object tv ev where
    s: "GenerateApiSignature ssl (private_key credentials) kTokenEndpoint (int_to_dec ms) ?body = Inr signature"
    and r: "http \<lparr>tr_target = kTokenEndpoint, tr_api_key = public_key credentials, tr_api_sign = signature,
          tr_body = ?body\<rparr> = Inr response"
    and e: "ThrowOnRestError (parse_body parse response) ''Errors when requesting the websocket token: '' = Inr ()"
    and o: "member (parse_body parse response) ''result'' = Inr result_object"
      "member result_object ''token'' = Inr tv" "GetCString tv = Inr (token t)"
      "member result_object ''expires'' = Inr ev" "GetInt ev = Inr (expires t)"
    and t: "generation_timestamp t = steady" "\<not> established t"
    using assms(1) by (auto simp: GenerateToken_def GenerateNonce_def Let_def bindR_Inr_iff)
  obtain digest mac where d: "sha_256 ssl (map of_char (int_to_dec ms @ ?body)) = Some digest"
    "hmac_sha512 ssl key (map of_char kTokenEndpoint @ digest) = Some mac" "signature = base64 mac"
    using s decode_base64 [of "private_key credentials" key "evp_decode ssl", OF assms(2-4,6)] assms(5)
    by (auto simp: GenerateApiSignature_def bindR_Inr_iff Sha256_def HmacSha512_def Base64Encode_def
        split: option.splits if_splits)
  have no_error: "FindMember (parse_body parse response) ''error'' = Some (JArray [])"
    using e by (auto simp: ThrowOnRestError_def bindR_Inr_iff member_def defined_or_UB_def IsArray_def
        split: option.splits if_splits)
  obtain chars where chars: "FindMember result_object ''token'' = Some (JString chars)" "token t = c_str chars"
    using o(2,3) by (auto simp: member_def defined_or_UB_def GetCString_def split: option.splits json.splits)
  obtain number where number: "FindMember result_object ''expires'' = Some (JNumber number)" "ev = JNumber number"
    using o(4,5) by (auto simp: member_def defined_or_UB_def GetInt_def split: option.splits json.splits)
  have seconds: "\<forall>seconds. number = int_to_dec seconds \<longrightarrow> expires t = seconds"
    using o(5) number(2) GetInt_spelled by blast
  have "FindMember (parse_body parse response) ''result'' = Some result_object"
    using o(1) by (auto simp: member_def defined_or_UB_def split: option.splits)
  note answer = this no_error chars number(1) seconds
  have valid: "\<forall>now. token_valid now t \<longleftrightarrow> token t \<noteq> [] \<and> now < steady + expires t * 1000000000"
    "\<forall>now. token_valid now (connection_established t) \<longleftrightarrow> token t \<noteq> []"
    using t by (auto simp: token_valid_def token_expired_def connection_established_def)
  show ?thesis
    by (rule exI [of _ digest], rule exI [of _ mac], rule exI [of _ response], rule exI [of _ result_object],
        rule exI [of _ chars], rule exI [of _ number])
      (intro conjI answer valid d(1) d(2) [unfolded kTokenEndpoint_def] r [unfolded kTokenEndpoint_def d(3)])
qed

theorem generated_token_witness:
  "let ssl = \<lparr>evp_encode = base64, evp_decode = \<lambda>_. Some [1, 2, 0], hmac_sha512 = \<lambda>_ _. Some [7], sha_256 = \<lambda>_. Some [9]\<rparr>;
       answer = JObject [(''error'', JArray []), (''result'', JObject [(''token'', JString ''tok''), (''expires'', JNumber ''9'')])]
   in \<exists>t. GenerateToken ssl (\<lambda>_. Some answer) (\<lambda>_. Inr ''body'') 5 0 \<lparr>public_key = ''k'', private_key = ''AQI=''\<rparr> = Inr t \<and>
        token t = ''tok'' \<and> expires t = 9 \<and> token_valid 8999999999 t \<and> \<not> token_valid 9000000000 t"
proof -
  let ?ssl = "\<lparr>evp_encode = base64, evp_decode = \<lambda>_. Some [1, 2, 0], hmac_sha512 = \<lambda>_ _. Some [7], sha_256 = \<lambda>_. Some [9]\<rparr>"
  let ?answer = "JObject [(''error'', JArray []), (''result'', JObject [(''token'', JString ''tok''), (''expires'', JNumber ''9'')])]"
  let ?credentials = "\<lparr>public_key = ''k'', private_key = ''AQI=''\<rparr>"
  have key: "base64 [1, 2] = ''AQI=''"
    by (simp add: base64_def base64_pad_def three_bytes_def sextet_def base64_alphabet_def Let_def)
  have valid: "filter (\<lambda>c. c \<in> set base64_alphabet \<or> c = CHR ''='') ''AQI='' = base64 [1, 2]"
    unfolding key by (simp add: base64_alphabet_def)
  have padded: "Some [1, 2, 0] = Some ([1, 2] @ replicate (base64_pad [1 :: byte, 2]) (0 :: byte))"
    by (simp add: base64_pad_def)
  have short: "length [1 :: byte, 2] < 2 ^ 62"
    by simp
  have "Base64Decode (\<lambda>_. Some [1, 2, 0]) ''AQI='' = Inr [1, 2]"
    by (rule decode_base64 [OF valid _ short padded]) simp
  then have "GenerateApiSignature ?ssl ''AQI='' path nonce body = Inr (base64 [7])" for path nonce body
    by (simp add: GenerateApiSignature_def Sha256_def HmacSha512_def Base64Encode_def)
  then have "\<exists>t. GenerateToken ?ssl (\<lambda>_. Some ?answer) (\<lambda>_. Inr ''body'') 5 0 ?credentials = Inr t"
    by (simp add: GenerateToken_def parse_body_def ThrowOnRestError_def member_def c_str_def GetCString_def
        GetInt_def dec_value_def digit_val_def is_digit_def Let_def)
  then obtain t where t: "GenerateToken ?ssl (\<lambda>_. Some ?answer) (\<lambda>_. Inr ''body'') 5 0 ?credentials = Inr t" by blast
  have "filter (\<lambda>c. c \<in> set base64_alphabet \<or> c = CHR ''='') (private_key ?credentials) = base64 [1, 2]"
    using valid by simp
  moreover have "evp_decode ?ssl (base64 [1, 2]) = Some ([1, 2] @ replicate (base64_pad [1, 2]) 0)"
    using padded by simp
  moreover have "parse_body (\<lambda>_. Some ?answer) r = ?answer" for r by (simp add: parse_body_def)
  moreover have "''9'' = int_to_dec 9" by code_simp
  ultimately have "token t = ''tok'' \<and> expires t = 9 \<and> token_valid 8999999999 t \<and> \<not> token_valid 9000000000 t"
    using generated_token [OF t, of "[1, 2]"] by (auto simp: c_str_def)
  with t show ?thesis by (auto simp: Let_def)
qed

end
