(* ===== verification/CoinbaseL2Decoder.thy ===== *)
theory CoinbaseL2Decoder
  imports VenueL2Decoder
begin

text \<open>
  coinbase/l2_decoder.h and coinbase/l2_decoder.cc: frames of Coinbase's level2
  channel. The decoder keeps the last sequence number and the last heartbeat of
  its connection. \<open>parse\<close> is rapidjson's parser with numbers kept as strings.
\<close>

section \<open>The code\<close>

record CoinbaseDecoder =
  last_sequence :: "u64 option"
  last_heartbeat :: "u64 option"

definition CoinbaseDecoder_new :: CoinbaseDecoder where
  "CoinbaseDecoder_new = \<lparr>last_sequence = None, last_heartbeat = None\<rparr>"

definition RequireUnsigned :: "json \<Rightarrow> string \<Rightarrow> u64 result" where
  "RequireUnsigned obj name =
     bindR (RequireJsonString obj name) (\<lambda>str.
       let r = from_chars_u64 str 0
       in if fc_ec r \<noteq> no_error \<or> fc_ptr r \<noteq> length str then Inl (MalformedJsonField name)
          else Inr (of_int (fc_value r)))"

definition quoted :: "string \<Rightarrow> string" where
  "quoted s = [CHR 0x22] @ s @ [CHR 0x22]"

definition RequireScaled :: "json \<Rightarrow> string \<Rightarrow> u32 \<Rightarrow> i64 result" where
  "RequireScaled level name decimals =
     bindR (RequireJsonString level name) (\<lambda>str.
       if str \<noteq> [] \<and> hd str = CHR ''-''
       then Inl (runtime_error (''Coinbase sent a negative '' @ quoted name @ '': '' @ str))
       else if FractionDigits str > decimals
       then Inl (runtime_error (''Coinbase sent a '' @ quoted name @ '' of '' @ str @ '', finer than the product'' @
              [CHR 0x27] @ ''s '' @ nat_to_dec (unat decimals) @ '' decimals; its increments must have changed''))
       else defined_or_UB (ScaleDecimalStringToI64 str decimals))"

definition ParseType :: "string \<Rightarrow> Type result" where
  "ParseType t =
     (if t \<noteq> ''snapshot'' \<and> t \<noteq> ''update''
      then Inl (runtime_error (''Coinbase sent a level2 event of type '' @ [CHR 0x27] @ t @ [CHR 0x27]))
      else Inr (if t = ''snapshot'' then kSnapshot else kUpdate))"

text \<open>\<^verbatim>\<open>SideOf(message, side).push_back(level)\<close>; the side is checked before the level is read.\<close>

datatype side_name = bid | offer

definition SideOf :: "string \<Rightarrow> side_name result" where
  "SideOf s =
     (if s \<noteq> ''bid'' \<and> s \<noteq> ''offer''
      then Inl (runtime_error (''Coinbase sent a level on side '' @ [CHR 0x27] @ s @ [CHR 0x27]))
      else Inr (if s = ''bid'' then bid else offer))"

definition push_back :: "side_name \<Rightarrow> Level \<Rightarrow> Message \<Rightarrow> Message" where
  "push_back side level message =
     (case side of
        bid \<Rightarrow> message\<lparr>buys := buys message @ [level]\<rparr>
      | offer \<Rightarrow> message\<lparr>sells := sells message @ [level]\<rparr>)"

fun updates_loop :: "PairPrecision \<Rightarrow> json list \<Rightarrow> Message \<Rightarrow> Message result" where
  "updates_loop precision [] message = Inr message"
| "updates_loop precision (update # updates) message =
     bindR (RequireJsonString update ''side'') (\<lambda>s. bindR (SideOf s) (\<lambda>side.
     bindR (RequireScaled update ''price_level'' (price_decimals precision)) (\<lambda>p.
     bindR (RequireScaled update ''new_quantity'' (qty_decimals precision)) (\<lambda>q.
       updates_loop precision updates (push_back side \<lparr>price = p, quantity = q\<rparr> message)))))"

definition DecodeEvent :: "'o find \<Rightarrow> 'o emit \<Rightarrow> i64 \<Rightarrow> i64 \<Rightarrow> json \<Rightarrow> 'o \<Rightarrow> 'o \<times> unit result" where
  "DecodeEvent Find Emit venue_time capture_time event out =
     (case bindR (RequireJsonString event ''product_id'') (\<lambda>product.
           bindR (RequireJsonString event ''type'') (\<lambda>t. bindR (ParseType t) (\<lambda>t. Inr (product, t)))) of
        Inl e \<Rightarrow> (out, Inl e)
      | Inr (product, t) \<Rightarrow>
          (case Find out product t of
             None \<Rightarrow> (out, Inr ())
           | Some precision \<Rightarrow>
               (case bindR (RequireJsonMember event ''updates'' IsArray) (\<lambda>updates.
                     updates_loop precision (GetArray updates)
                       \<lparr>msg_type = t, checksum = 0, venue_time_ns = venue_time, capture_time_ns = capture_time,
                        msg_symbol = product, buys = [], sells = []\<rparr>) of
                  Inl e \<Rightarrow> (out, Inl e)
                | Inr message \<Rightarrow> (Emit message out, Inr ()))))"

fun events_loop :: "'o find \<Rightarrow> 'o emit \<Rightarrow> i64 \<Rightarrow> i64 \<Rightarrow> json list \<Rightarrow> 'o \<Rightarrow> 'o \<times> unit result" where
  "events_loop Find Emit vt ct [] out = (out, Inr ())"
| "events_loop Find Emit vt ct (event # events) out =
     (case DecodeEvent Find Emit vt ct event out of
        (out, Inl e) \<Rightarrow> (out, Inl e)
      | (out, Inr _) \<Rightarrow> events_loop Find Emit vt ct events out)"

definition Advance :: "u64 option \<Rightarrow> u64 \<Rightarrow> string \<Rightarrow> (u64 option \<times> bool) result" where
  "Advance prev n desc =
     (case prev of
        None \<Rightarrow> Inr (Some n, True)
      | Some l \<Rightarrow>
          if n \<le> l then Inr (prev, False)
          else if n \<noteq> l + 1
          then Inl (runtime_error (''Coinbase skipped '' @ desc @ '' '' @ nat_to_dec (unat (l + 1)) @ '' to '' @
                 nat_to_dec (unat (n - 1)) @ ''; reconnecting for fresh snapshots''))
          else Inr (Some n, True))"

fun heartbeats_loop :: "json list \<Rightarrow> CoinbaseDecoder \<Rightarrow> CoinbaseDecoder \<times> unit result" where
  "heartbeats_loop [] d = (d, Inr ())"
| "heartbeats_loop (heartbeat # rest) d =
     (case bindR (RequireUnsigned heartbeat ''heartbeat_counter'') (\<lambda>n. Advance (last_heartbeat d) n ''heartbeats'') of
        Inl e \<Rightarrow> (d, Inl e)
      | Inr (prev, _) \<Rightarrow> heartbeats_loop rest (d\<lparr>last_heartbeat := prev\<rparr>))"

definition EventsVenueTime :: "(int \<Rightarrow> int \<Rightarrow> int \<Rightarrow> int) \<Rightarrow> json \<Rightarrow> i64 result" where
  "EventsVenueTime unspec document =
     bindR (FindJsonString document ''timestamp'') (\<lambda>str.
       case str of
         None \<Rightarrow> Inr 0
       | Some s \<Rightarrow> bindR (ParseIso8601ToUnixNanos unspec s) (\<lambda>t. Inr (case t of None \<Rightarrow> 0 | Some v \<Rightarrow> v)))"

text \<open>What follows once a frame's sequence number was accepted.\<close>

definition DecodeEvents ::
    "(int \<Rightarrow> int \<Rightarrow> int \<Rightarrow> int) \<Rightarrow> json \<Rightarrow> string \<Rightarrow> (CoinbaseDecoder, 'o) decode" where
  "DecodeEvents unspec document channel Find Emit frame d out =
     (case RequireJsonMember document ''events'' IsArray of
        Inl e \<Rightarrow> ((d, out), Inl e)
      | Inr events \<Rightarrow>
          if channel = ''heartbeats''
          then (case heartbeats_loop (GetArray events) d of (d, r) \<Rightarrow> ((d, out), r))
          else if channel \<noteq> ''l2_data'' then ((d, out), Inr ())
          else (case EventsVenueTime unspec document of
                  Inl e \<Rightarrow> ((d, out), Inl e)
                | Inr vt \<Rightarrow>
                    (case events_loop Find Emit vt (frame_capture_time_ns frame) (GetArray events) out of
                       (out, r) \<Rightarrow> ((d, out), r))))"

definition Coinbase_Decode ::
    "(string \<Rightarrow> json option) \<Rightarrow> (int \<Rightarrow> int \<Rightarrow> int \<Rightarrow> int) \<Rightarrow> (CoinbaseDecoder, 'o) decode" where
  "Coinbase_Decode parse unspec Find Emit frame d out =
     (case parse (json_text frame) of
        None \<Rightarrow> ((d, out), Inr ())
      | Some document \<Rightarrow>
          if \<not> IsObject document then ((d, out), Inr ())
          else case FindJsonString document ''type'' of
            Inl e \<Rightarrow> ((d, out), Inl e)
          | Inr t \<Rightarrow>
              if t = Some ''error'' then ((d, out), Inr ())
              else case FindJsonString document ''channel'' of
                Inl e \<Rightarrow> ((d, out), Inl e)
              | Inr None \<Rightarrow> ((d, out), Inr ())
              | Inr (Some channel) \<Rightarrow>
                  (case bindR (RequireUnsigned document ''sequence_num'') (\<lambda>n.
                        Advance (last_sequence d) n ''sequence numbers'') of
                     Inl e \<Rightarrow> ((d, out), Inl e)
                   | Inr (prev, False) \<Rightarrow> ((d\<lparr>last_sequence := prev\<rparr>, out), Inr ())
                   | Inr (prev, True) \<Rightarrow>
                       DecodeEvents unspec document channel Find Emit frame (d\<lparr>last_sequence := prev\<rparr>) out))"

section \<open>The decoder's contract\<close>

lemma updates_loop_keeps:
  "updates_loop precision us m = Inr m' \<Longrightarrow>
     msg_type m' = msg_type m \<and> msg_symbol m' = msg_symbol m \<and> capture_time_ns m' = capture_time_ns m \<and>
     venue_time_ns m' = venue_time_ns m \<and> checksum m' = checksum m"
proof (induction us arbitrary: m)
  case (Cons u us)
  then obtain side l where "updates_loop precision us (push_back side l m) = Inr m'"
    by (auto simp: bindR_Inr_iff)
  from Cons.IH [OF this] show ?case by (cases side) (simp_all add: push_back_def)
qed simp

lemma no_emission: "\<exists>ms. emits Find Emit out ms out \<and> list_all P ms"
  by (intro exI [of _ "[]"]) simp

lemma DecodeEvent_cases:
  assumes "DecodeEvent Find Emit vt ct event out = (out', r)"
  obtains (none) "out' = out"
  | (one) m precision where "r = Inr ()" "Find out (msg_symbol m) (msg_type m) = Some precision"
      "out' = Emit m out" "capture_time_ns m = ct"
proof -
  have "out' = out \<or> (\<exists>product t precision updates m. r = Inr () \<and> Find out product t = Some precision \<and>
      updates_loop precision updates \<lparr>msg_type = t, checksum = 0, venue_time_ns = vt, capture_time_ns = ct,
        msg_symbol = product, buys = [], sells = []\<rparr> = Inr m \<and> out' = Emit m out)"
    using assms unfolding DecodeEvent_def
    by (simp split: option.split_asm sum.split_asm prod.split_asm add: bindR_Inr_iff) blast+
  then consider "out' = out"
    | product t precision updates m where "r = Inr ()" "Find out product t = Some precision" "out' = Emit m out"
        "updates_loop precision updates \<lparr>msg_type = t, checksum = 0, venue_time_ns = vt, capture_time_ns = ct,
          msg_symbol = product, buys = [], sells = []\<rparr> = Inr m"
    by blast
  then show ?thesis
  proof cases
    case 1
    then show ?thesis by (rule none)
  next
    case (2 product t precision updates m)
    then show ?thesis using one [of m precision] updates_loop_keeps [OF 2(4)] by simp
  qed
qed

lemma events_loop_each:
  assumes "events_loop Find Emit vt ct events out = (out', r)"
    and "\<And>event out out' r. event \<in> set events \<Longrightarrow> DecodeEvent Find Emit vt ct event out = (out', r) \<Longrightarrow>
      \<exists>ms. emits Find Emit out ms out' \<and> list_all P ms"
  shows "\<exists>ms. emits Find Emit out ms out' \<and> list_all P ms"
  using assms
proof (induction events arbitrary: out)
  case Nil
  then show ?case by (auto intro: no_emission)
next
  case (Cons event events)
  obtain out1 r1 where e: "DecodeEvent Find Emit vt ct event out = (out1, r1)" by fastforce
  then obtain ms where ms: "emits Find Emit out ms out1" "list_all P ms"
    using Cons.prems(2) by (metis list.set_intros(1))
  show ?case
  proof (cases r1)
    case (Inl x)
    with Cons.prems e ms show ?thesis by auto
  next
    case (Inr u)
    with Cons.prems(1) e have "events_loop Find Emit vt ct events out1 = (out', r)" by simp
    from Cons.IH [OF this] Cons.prems(2) obtain ms' where "emits Find Emit out1 ms' out'" "list_all P ms'" by force
    with ms show ?thesis by (intro exI [of _ "ms @ ms'"]) (simp add: emits_append)
  qed
qed

lemma events_loop_emits:
  "events_loop Find Emit vt ct events out = (out', r) \<Longrightarrow>
     \<exists>ms. emits Find Emit out ms out' \<and> list_all (\<lambda>m. capture_time_ns m = ct) ms"
proof (erule events_loop_each)
  fix event out out' r
  assume "DecodeEvent Find Emit vt ct event out = (out', r)"
  then show "\<exists>ms. emits Find Emit out ms out' \<and> list_all (\<lambda>m. capture_time_ns m = ct) ms"
  proof (cases rule: DecodeEvent_cases)
    case (one m precision)
    then show ?thesis by (intro exI [of _ "[m]"]) (simp add: emits_Cons)
  qed (simp add: no_emission)
qed

lemma DecodeEvents_emits:
  assumes "DecodeEvents unspec document channel Find Emit frame d out = ((d', out'), r)"
  shows "(\<exists>ms. emits Find Emit out ms out' \<and> list_all (\<lambda>m. capture_time_ns m = frame_capture_time_ns frame) ms)"
proof -
  have "out' = out \<or> (\<exists>vt events. events_loop Find Emit vt (frame_capture_time_ns frame) events out = (out', r))"
    using assms unfolding DecodeEvents_def
    by (simp split: sum.split_asm if_split_asm prod.split_asm) blast+
  then show ?thesis by (auto intro: no_emission events_loop_emits)
qed

text \<open>A frame that is not ignored is one \<open>DecodeEvents\<close> gets, with its number accepted.\<close>

lemma Coinbase_Decode_cases:
  assumes "Coinbase_Decode parse unspec Find Emit frame d out = ((d', out'), r)"
  shows "out' = out \<and> last_heartbeat d' = last_heartbeat d \<or>
    (\<exists>document channel l. DecodeEvents unspec document channel Find Emit frame (d\<lparr>last_sequence := l\<rparr>) out = ((d', out'), r))"
  using assms unfolding Coinbase_Decode_def
  by (simp split: option.split_asm sum.split_asm if_split_asm prod.split_asm bool.split_asm) (blast | fastforce)+

interpretation coinbase: l2_decoder "Coinbase_Decode parse unspec"
proof
  fix Find :: "'a find" and Emit frame d out d' out' r
  assume "Coinbase_Decode parse unspec Find Emit frame d out = ((d', out'), r)"
  from Coinbase_Decode_cases [OF this]
  show "\<exists>ms. emits Find Emit out ms out' \<and>
      list_all (\<lambda>m. capture_time_ns m = frame_capture_time_ns frame) ms"
    by (auto intro: no_emission DecodeEvents_emits)
qed

section \<open>Its messages are well typed\<close>

lemma RequireScaled_Inr:
  "RequireScaled level name decimals = Inr v \<Longrightarrow>
     \<exists>str. FindJsonMember level name = Some (JString str) \<and> ScaleDecimalStringToI64 str decimals = Some v"
  by (auto simp: RequireScaled_def bindR_Inr_iff defined_or_UB_Inr split: if_splits)

lemma updates_loop_typed:
  assumes "updates_loop precision us m = Inr m'" and "Message_ok m"
  shows "Message_ok m'" and "length (buys m') + length (sells m') = length (buys m) + length (sells m) + length us"
    and "u \<in> set us \<Longrightarrow> 15 \<le> json_width u"
proof -
  have "Message_ok m' \<and> length (buys m') + length (sells m') = length (buys m) + length (sells m) + length us \<and>
      (\<forall>u \<in> set us. 15 \<le> json_width u)"
    using assms
  proof (induction us arbitrary: m)
    case (Cons u us)
    obtain side p q where loop: "updates_loop precision us (push_back side \<lparr>price = p, quantity = q\<rparr> m) = Inr m'"
      and pq: "RequireScaled u ''price_level'' (price_decimals precision) = Inr p"
        "RequireScaled u ''new_quantity'' (qty_decimals precision) = Inr q"
      using Cons.prems(1) by (auto simp: bindR_Inr_iff)
    obtain ps where ps: "FindJsonMember u ''price_level'' = Some (JString ps)" "in_i64 p"
      using RequireScaled_Inr [OF pq(1)] ScaleDecimal_in_i64 by blast
    moreover have "in_i64 q" using RequireScaled_Inr [OF pq(2)] ScaleDecimal_in_i64 by blast
    ultimately have "Message_ok (push_back side \<lparr>price = p, quantity = q\<rparr> m)"
      using Cons.prems(2) by (cases side) (simp_all add: push_back_def Message_ok_def Level_ok_def)
    from Cons.IH [OF loop this] show ?case
      using object_width1 [OF ps(1)] by (cases side) (simp_all add: push_back_def member_width_def)
  qed simp
  then show "Message_ok m'" "length (buys m') + length (sells m') = length (buys m) + length (sells m) + length us"
    "u \<in> set us \<Longrightarrow> 15 \<le> json_width u" by blast+
qed

lemma DecodeEvent_typed:
  assumes "DecodeEvent Find Emit vt ct event out = (out', r)" and "in_i64 vt" and "in_i64 ct"
    and "json_width event + 13 \<le> length (json_text frame)"
  shows "\<exists>ms. emits Find Emit out ms out' \<and> list_all (typed_of frame) ms"
proof (cases "out' = out")
  case True
  then show ?thesis by (intro exI [of _ "[]"]) simp
next
  case False
  obtain product str t p updates m where head: "FindJsonMember event ''product_id'' = Some (JString product)"
      "FindJsonMember event ''type'' = Some (JString str)" "Find out product t = Some p"
    and updates: "FindJsonMember event ''updates'' = Some updates" "IsArray updates" "out' = Emit m out"
    and loop: "updates_loop p (GetArray updates) \<lparr>msg_type = t, checksum = 0, venue_time_ns = vt,
      capture_time_ns = ct, msg_symbol = product, buys = [], sells = []\<rparr> = Inr m"
    using assms(1) False unfolding DecodeEvent_def
    by (auto simp: bindR_Inr_iff split: sum.split_asm option.split_asm)
  obtain us where us: "updates = JArray us" using updates(2) by (auto simp: IsArray_iff)
  have start: "Message_ok \<lparr>msg_type = t, checksum = 0, venue_time_ns = vt,
      capture_time_ns = ct, msg_symbol = product, buys = [], sells = []\<rparr>"
    using assms(2,3) by (simp add: Message_ok_def)
  note typed = updates_loop_typed [OF loop [unfolded us GetArray.simps] start]
  have "length us * (15 + 1) < json_width (JArray us)" by (rule array_width_each) (rule typed(3))
  then have "34 + length us * 16 \<le> json_width event"
    using object_width3 [OF head(1,2) updates(1)] by (simp add: member_width_def us)
  then have "typed_of frame m" using assms(4) typed(1,2) by (simp add: typed_of_def)
  then show ?thesis
    using updates(3) head(3) updates_loop_keeps [OF loop] by (intro exI [of _ "[m]"]) (auto simp: emits_Cons)
qed


lemma EventsVenueTime_in_i64: "EventsVenueTime unspec document = Inr v \<Longrightarrow> in_i64 v"
  by (auto simp: EventsVenueTime_def bindR_Inr_iff split: option.splits) (rule ParseIso8601_in_i64)

interpretation coinbase_typed: typed_decoder "Coinbase_Decode parse unspec" parse
proof
  fix frame and Find :: "'a find" and Emit d out d' out' r
  assume within: "json_within parse" and frame: "frame_typed frame"
    and run: "Coinbase_Decode parse unspec Find Emit frame d out = ((d', out'), r)"
  show "\<exists>ms. emits Find Emit out ms out' \<and> list_all (typed_of frame) ms"
  proof (cases "out' = out")
    case False
    obtain document channel l where doc: "parse (json_text frame) = Some document"
      and "DecodeEvents unspec document channel Find Emit frame (d\<lparr>last_sequence := l\<rparr>) out = ((d', out'), r)"
      using run False unfolding Coinbase_Decode_def
      by (simp split: option.split_asm sum.split_asm if_split_asm prod.split_asm bool.split_asm)
    then obtain events vt where events: "FindJsonMember document ''events'' = Some (JArray events)"
      and vt: "EventsVenueTime unspec document = Inr vt"
      and loop: "events_loop Find Emit vt (frame_capture_time_ns frame) events out = (out', r)"
      using False unfolding DecodeEvents_def
      by (auto simp: IsArray_iff split: sum.split_asm if_split_asm prod.split_asm)
    have "json_width document \<le> length (json_text frame)" using within doc by (simp add: json_within_def)
    then have "json_width (JArray events) + 11 \<le> length (json_text frame)"
      using object_width1 [OF events] by (simp add: member_width_def)
    then have "json_width event + 13 \<le> length (json_text frame)" if "event \<in> set events" for event
      using array_width_member [OF that] by simp
    then show ?thesis
      using frame EventsVenueTime_in_i64 [OF vt]
      by (intro events_loop_each [OF loop], elim DecodeEvent_typed) (simp_all add: frame_typed_def)
  qed (simp add: no_emission)
qed

section \<open>Sequence numbers\<close>

text \<open>The number of a frame the decoder must take in order, if it is one.\<close>

definition frame_number :: "(string \<Rightarrow> json option) \<Rightarrow> RawFrame \<Rightarrow> u64 option" where
  "frame_number parse frame =
     (case parse (json_text frame) of
        None \<Rightarrow> None
      | Some document \<Rightarrow>
          if \<not> IsObject document then None
          else case (FindJsonString document ''type'', FindJsonString document ''channel'') of
            (Inr t, Inr (Some channel)) \<Rightarrow>
              if t = Some ''error'' then None
              else (case RequireUnsigned document ''sequence_num'' of Inl _ \<Rightarrow> None | Inr n \<Rightarrow> Some n)
          | _ \<Rightarrow> None)"

lemma heartbeats_loop_keeps: "heartbeats_loop hs d = (d', r) \<Longrightarrow> last_sequence d' = last_sequence d"
  by (induction hs arbitrary: d) (auto split: sum.splits prod.splits)

lemma DecodeEvents_keeps:
  "DecodeEvents unspec document channel Find Emit frame d out = ((d', out'), r) \<Longrightarrow> last_sequence d' = last_sequence d"
  unfolding DecodeEvents_def
  by (auto split: sum.split_asm if_split_asm prod.split_asm dest: heartbeats_loop_keeps)

lemma Decode_unnumbered:
  assumes "Coinbase_Decode parse unspec Find Emit frame d out = ((d', out'), r)" and "frame_number parse frame = None"
  shows "d' = d \<and> out' = out"
  using assms unfolding Coinbase_Decode_def frame_number_def
  by (auto simp: bindR_def split: option.split_asm sum.split_asm if_split_asm prod.split_asm bool.split_asm)

lemma Decode_numbered:
  assumes "frame_number parse frame = Some n"
  shows "\<exists>document channel. Coinbase_Decode parse unspec Find Emit frame d out =
    (case Advance (last_sequence d) n ''sequence numbers'' of
       Inl e \<Rightarrow> ((d, out), Inl e)
     | Inr (prev, False) \<Rightarrow> ((d\<lparr>last_sequence := prev\<rparr>, out), Inr ())
     | Inr (prev, True) \<Rightarrow> DecodeEvents unspec document channel Find Emit frame (d\<lparr>last_sequence := prev\<rparr>) out)"
proof -
  obtain document t channel where "parse (json_text frame) = Some document" "IsObject document"
    "FindJsonString document ''type'' = Inr t" "t \<noteq> Some ''error''"
    "FindJsonString document ''channel'' = Inr (Some channel)" "RequireUnsigned document ''sequence_num'' = Inr n"
    using assms unfolding frame_number_def
    by (auto split: option.split_asm sum.split_asm if_split_asm)
  then have "Coinbase_Decode parse unspec Find Emit frame d out =
    (case Advance (last_sequence d) n ''sequence numbers'' of
       Inl e \<Rightarrow> ((d, out), Inl e)
     | Inr (prev, False) \<Rightarrow> ((d\<lparr>last_sequence := prev\<rparr>, out), Inr ())
     | Inr (prev, True) \<Rightarrow> DecodeEvents unspec document channel Find Emit frame (d\<lparr>last_sequence := prev\<rparr>) out)"
    by (simp add: Coinbase_Decode_def)
  then show ?thesis by blast
qed

text \<open>One frame: a number already passed changes nothing, one too far throws, the next is taken.\<close>

lemma Decode_step:
  assumes "Coinbase_Decode parse unspec Find Emit frame d out = ((d', out'), r)" and "frame_number parse frame = Some n"
  shows "case last_sequence d of
      None \<Rightarrow> last_sequence d' = Some n
    | Some l \<Rightarrow>
        if n \<le> l then d' = d \<and> out' = out \<and> r = Inr ()
        else if n = l + 1 then last_sequence d' = Some n
        else d' = d \<and> out' = out \<and> (\<exists>e. r = Inl e)"
proof -
  obtain document channel where k: "Coinbase_Decode parse unspec Find Emit frame d out =
    (case Advance (last_sequence d) n ''sequence numbers'' of
       Inl e \<Rightarrow> ((d, out), Inl e)
     | Inr (prev, False) \<Rightarrow> ((d\<lparr>last_sequence := prev\<rparr>, out), Inr ())
     | Inr (prev, True) \<Rightarrow> DecodeEvents unspec document channel Find Emit frame (d\<lparr>last_sequence := prev\<rparr>) out)"
    using Decode_numbered [OF assms(2), of unspec Find Emit d out] by blast
  show ?thesis
  proof (cases "last_sequence d")
    case None
    with k assms(1) have "DecodeEvents unspec document channel Find Emit frame (d\<lparr>last_sequence := Some n\<rparr>) out =
        ((d', out'), r)" by (simp add: Advance_def)
    from DecodeEvents_keeps [OF this] None show ?thesis by simp
  next
    case (Some l)
    then have same: "d\<lparr>last_sequence := Some l\<rparr> = d" by (intro CoinbaseDecoder.equality) simp_all
    consider "n \<le> l" | "\<not> n \<le> l" "n = l + 1" | "\<not> n \<le> l" "n \<noteq> l + 1" by blast
    then show ?thesis
    proof cases
      case 2
      with k assms(1) Some have "DecodeEvents unspec document channel Find Emit frame
          (d\<lparr>last_sequence := Some n\<rparr>) out = ((d', out'), r)" by (simp add: Advance_def)
      from DecodeEvents_keeps [OF this] 2 Some show ?thesis by simp
    qed (use Some k assms(1) same in \<open>simp_all add: Advance_def\<close>)
  qed
qed

text \<open>The frames of one connection, until one throws.\<close>

fun Coinbase_run ::
    "(string \<Rightarrow> json option) \<Rightarrow> (int \<Rightarrow> int \<Rightarrow> int \<Rightarrow> int) \<Rightarrow> 'o find \<Rightarrow> 'o emit \<Rightarrow> RawFrame list \<Rightarrow>
     CoinbaseDecoder \<Rightarrow> 'o \<Rightarrow> (CoinbaseDecoder \<times> 'o) \<times> unit result" where
  "Coinbase_run parse unspec Find Emit [] d out = ((d, out), Inr ())"
| "Coinbase_run parse unspec Find Emit (f # fs) d out =
     (case Coinbase_Decode parse unspec Find Emit f d out of
        ((d, out), Inl e) \<Rightarrow> ((d, out), Inl e)
      | ((d, out), Inr _) \<Rightarrow> Coinbase_run parse unspec Find Emit fs d out)"

definition numbers :: "(string \<Rightarrow> json option) \<Rightarrow> RawFrame list \<Rightarrow> u64 set" where
  "numbers parse fs = {n. \<exists>f \<in> set fs. frame_number parse f = Some n}"

lemma numbers_Cons: "numbers parse (f # fs) = set_option (frame_number parse f) \<union> numbers parse fs"
  by (auto simp: numbers_def)

lemma run_from_number:
  assumes "Coinbase_run parse unspec Find Emit fs d out = ((d', out'), Inr ())" and "last_sequence d = Some l"
  shows "\<exists>m. last_sequence d' = Some m \<and> l \<le> m \<and> {l<..m} \<subseteq> numbers parse fs \<and> (\<forall>n \<in> numbers parse fs. n \<le> m)"
  using assms
proof (induction fs arbitrary: d out l)
  case Nil
  then show ?case by (simp add: numbers_def)
next
  case (Cons f fs)
  obtain d1 out1 r1 where k: "Coinbase_Decode parse unspec Find Emit f d out = ((d1, out1), r1)"
    by (metis surj_pair)
  have r1: "r1 = Inr ()" and rest: "Coinbase_run parse unspec Find Emit fs d1 out1 = ((d', out'), Inr ())"
    using Cons.prems(1) k by (auto split: sum.splits)
  show ?case
  proof (cases "frame_number parse f")
    case None
    with Decode_unnumbered [OF k] Cons.IH [OF rest] Cons.prems(2) show ?thesis
      by (auto simp: numbers_Cons)
  next
    case (Some n)
    note step = Decode_step [OF k Some]
    show ?thesis
    proof (cases "n \<le> l")
      case True
      with step Cons.IH [OF rest] Cons.prems(2) Some show ?thesis by (fastforce simp: numbers_Cons)
    next
      case False
      with step r1 Cons.prems(2) have n: "n = l + 1" "last_sequence d1 = Some n" by (auto split: if_splits)
      from Cons.IH [OF rest n(2)] obtain m where m: "last_sequence d' = Some m" "n \<le> m"
        "{n<..m} \<subseteq> numbers parse fs" "\<forall>k \<in> numbers parse fs. k \<le> m" by blast
      have "{l<..m} \<subseteq> insert n {n<..m}"
      proof
        fix x assume x: "x \<in> {l<..m}"
        then have "n \<le> x" using n(1) inc_le [of l x] by simp
        with x show "x \<in> insert n {n<..m}" by (auto simp: order_le_less)
      qed
      with m n False Some show ?thesis
        by (intro exI [of _ m]) (auto simp: numbers_Cons not_le)
    qed
  qed
qed

section \<open>Events as Coinbase documents them\<close>

definition update_json :: "side_name \<times> decimal_text \<times> decimal_text \<Rightarrow> json" where
  "update_json u = (case u of (side, p, q) \<Rightarrow>
     JObject [(''side'', JString (case side of bid \<Rightarrow> ''bid'' | offer \<Rightarrow> ''offer'')),
       (''price_level'', JString (text_of p)), (''new_quantity'', JString (text_of q))])"

definition event_json :: "string \<Rightarrow> string \<Rightarrow> (side_name \<times> decimal_text \<times> decimal_text) list \<Rightarrow> json" where
  "event_json t product us =
     JObject [(''type'', JString t), (''product_id'', JString product), (''updates'', JArray (map update_json us))]"

definition exact_text :: "u32 \<Rightarrow> decimal_text \<Rightarrow> bool" where
  "exact_text d n \<longleftrightarrow> decimal_ok d n \<and> length (snd n) < 2 ^ 32 \<and> cuts_nothing d n"

definition update_ok :: "PairPrecision \<Rightarrow> side_name \<times> decimal_text \<times> decimal_text \<Rightarrow> bool" where
  "update_ok p u = (case u of (side, a, b) \<Rightarrow> exact_text (price_decimals p) a \<and> exact_text (qty_decimals p) b)"

definition update_level :: "PairPrecision \<Rightarrow> side_name \<times> decimal_text \<times> decimal_text \<Rightarrow> Level" where
  "update_level p u = (case u of (side, a, b) \<Rightarrow>
     \<lparr>price = scaled (price_decimals p) a, quantity = scaled (qty_decimals p) b\<rparr>)"

lemma RequireScaled_text:
  assumes "FindJsonMember level name = Some (JString (text_of n))" and "decimal_ok d n" and "length (snd n) < 2 ^ 32"
  shows "cuts_nothing d n \<Longrightarrow> RequireScaled level name d = Inr (scaled d n)"
    and "\<not> cuts_nothing d n \<Longrightarrow> \<exists>e. RequireScaled level name d = Inl (runtime_error e)"
  using assms text_of_no_dash [OF assms(2)] FractionDigits_text_of [OF assms(2,3)] Scale_text_of [OF assms(2)]
  by (auto simp: RequireScaled_def RequireJsonString_eq not_le [symmetric])

lemma updates_loop_levels:
  assumes "list_all (update_ok p) us"
  shows "updates_loop p (map update_json us) m =
    Inr (m\<lparr>buys := buys m @ map (update_level p) (filter (\<lambda>u. fst u = bid) us),
          sells := sells m @ map (update_level p) (filter (\<lambda>u. fst u = offer) us)\<rparr>)"
  using assms
proof (induction us arbitrary: m)
  case (Cons u us)
  obtain side a b where u: "u = (side, a, b)" by (metis surj_pair)
  let ?u = "update_json u"
  have ok: "exact_text (price_decimals p) a" "exact_text (qty_decimals p) b"
    using Cons.prems u by (simp_all add: update_ok_def)
  have p: "RequireScaled ?u ''price_level'' (price_decimals p) = Inr (scaled (price_decimals p) a)"
    "RequireScaled ?u ''new_quantity'' (qty_decimals p) = Inr (scaled (qty_decimals p) b)"
    using ok by (auto intro!: RequireScaled_text simp: update_json_def u exact_text_def)
  have s: "RequireJsonString ?u ''side'' = Inr (case side of bid \<Rightarrow> ''bid'' | offer \<Rightarrow> ''offer'')"
    by (simp add: update_json_def u)
  have "SideOf (case side of bid \<Rightarrow> ''bid'' | offer \<Rightarrow> ''offer'') = Inr side"
    by (cases side) (simp_all add: SideOf_def)
  with Cons.IH Cons.prems p show ?case
    unfolding list.map updates_loop.simps s
    by (cases side) (simp_all add: push_back_def update_level_def u)
qed simp

text \<open>What a level is: exactly its text, or an exception.\<close>

section \<open>Properties\<close>

text \<open>
  C14. No gap goes unseen: however many frames one connection brings, if none of
  them throws, every sequence number from the first one taken to the last one
  taken was on some frame, and none is beyond the last. A number that skips
  throws before anything of its frame is emitted, and one already passed is
  ignored (the lemma \<open>Decode_step\<close> says so for each frame).
\<close>

theorem coinbase_no_gap_unseen:
  assumes "Coinbase_run parse unspec Find Emit (f # fs) CoinbaseDecoder_new out = ((d', out'), Inr ())"
    and "frame_number parse f = Some first"
  shows "\<exists>m. last_sequence d' = Some m \<and> first \<le> m \<and> {first..m} \<subseteq> numbers parse (f # fs) \<and>
    (\<forall>n \<in> numbers parse (f # fs). n \<le> m)"
proof -
  obtain d1 out1 r1 where k: "Coinbase_Decode parse unspec Find Emit f CoinbaseDecoder_new out = ((d1, out1), r1)"
    by (metis surj_pair)
  have "last_sequence d1 = Some first"
    using Decode_step [OF k assms(2)] by (simp add: CoinbaseDecoder_new_def)
  moreover have "Coinbase_run parse unspec Find Emit fs d1 out1 = ((d', out'), Inr ())"
    using assms(1) k by (auto split: sum.splits)
  ultimately obtain m where m: "last_sequence d' = Some m" "first \<le> m" "{first<..m} \<subseteq> numbers parse fs"
    "\<forall>n \<in> numbers parse fs. n \<le> m" using run_from_number [of parse unspec Find Emit fs d1 out1 d' out' first] by auto
  have "{first..m} = insert first {first<..m}" using m(2) by auto
  with m assms(2) show ?thesis by (auto simp: numbers_Cons)
qed

theorem coinbase_no_gap_unseen_witness:
  "let parse = (\<lambda>s. Some (JObject [(''channel'', JString ''subscriptions''), (''sequence_num'', JString s), (''events'', JArray [])]));
       frame = (\<lambda>s. \<lparr>json_text = s, frame_capture_time_ns = 0\<rparr>)
   in {4..5} \<subseteq> numbers parse [frame ''4'', frame ''5'', frame ''4'']"
proof -
  let ?parse = "\<lambda>s. Some (JObject [(''channel'', JString ''subscriptions''), (''sequence_num'', JString s), (''events'', JArray [])])"
  let ?frame = "\<lambda>s. \<lparr>json_text = s, frame_capture_time_ns = 0\<rparr>"
  have s: "list_all is_digit ''4''" "list_all is_digit ''5''" "dec_value ''4'' = 4" "dec_value ''5'' = 5"
    by (simp_all add: is_digit_def dec_value_def digit_val_def)
  have n: "RequireUnsigned (JObject [(''channel'', JString ''subscriptions''), (''sequence_num'', JString ''4''), (''events'', JArray [])]) ''sequence_num'' = Inr 4"
    "RequireUnsigned (JObject [(''channel'', JString ''subscriptions''), (''sequence_num'', JString ''5''), (''events'', JArray [])]) ''sequence_num'' = Inr 5"
    using s by (simp_all add: RequireUnsigned_def RequireJsonString_eq from_chars_u64_def from_chars_digits)
  have "Coinbase_run ?parse (\<lambda>_ _ _. 0) (\<lambda>_ _ _. None) (#) [?frame ''4'', ?frame ''5'', ?frame ''4''] CoinbaseDecoder_new [] =
      ((\<lparr>last_sequence = Some 5, last_heartbeat = None\<rparr>, []), Inr ())"
    by (simp add: Coinbase_Decode_def CoinbaseDecoder_new_def FindJsonString_eq n Advance_def DecodeEvents_def
        RequireJsonMember_def)
  moreover have "frame_number ?parse (?frame ''4'') = Some 4"
    by (simp add: frame_number_def FindJsonString_eq n)
  ultimately show ?thesis using coinbase_no_gap_unseen [of ?parse] by (fastforce simp: Let_def)
qed

text \<open>
  C32. An event laid out as Coinbase documents it, for a product the output wants,
  emits exactly one message: of the event's type, without a checksum, with every
  update on the side it names, in order, each price and quantity its exact
  decimal text at the product's precision. An event for another product emits
  nothing, and neither throws.
\<close>

theorem coinbase_decodes_event:
  assumes "ParseType t = Inr ty" and "Find out product ty = wanted"
    and "\<And>p. wanted = Some p \<Longrightarrow> list_all (update_ok p) us"
  shows "DecodeEvent Find Emit vt ct (event_json t product us) out =
    (case wanted of
       None \<Rightarrow> (out, Inr ())
     | Some p \<Rightarrow> (Emit \<lparr>msg_type = ty, checksum = 0, venue_time_ns = vt, capture_time_ns = ct, msg_symbol = product,
           buys = map (update_level p) (filter (\<lambda>u. fst u = bid) us),
           sells = map (update_level p) (filter (\<lambda>u. fst u = offer) us)\<rparr> out, Inr ()))"
proof -
  let ?e = "event_json t product us"
  have "RequireJsonString ?e ''product_id'' = Inr product" "RequireJsonString ?e ''type'' = Inr t"
    "RequireJsonMember ?e ''updates'' IsArray = Inr (JArray (map update_json us))"
    by (simp_all add: event_json_def)
  note members = this
  show ?thesis
    unfolding DecodeEvent_def members bindR_simps GetArray.simps assms(1)
    using assms(2,3) by (simp add: updates_loop_levels split: option.split)
qed

theorem coinbase_decodes_event_witness:
  "DecodeEvent (\<lambda>_ _ _. Some \<lparr>price_decimals = 2, qty_decimals = 1\<rparr>) (#) 5 6
     (event_json ''update'' ''A-B'' [(offer, (''1'', ''5''), (''0'', ''20'')), (bid, (''1'', []), (''0'', []))]) [] =
   ([\<lparr>msg_type = kUpdate, checksum = 0, venue_time_ns = 5, capture_time_ns = 6, msg_symbol = ''A-B'',
      buys = [\<lparr>price = 100, quantity = 0\<rparr>], sells = [\<lparr>price = 150, quantity = 2\<rparr>]\<rparr>], Inr ())"
proof -
  let ?us = "[(offer, (''1'', ''5''), (''0'', ''20'')), (bid, (''1'', []), (''0'', []))]"
  let ?p = "\<lparr>price_decimals = 2, qty_decimals = 1\<rparr>"
  have v: "scaled_value ''1'' ''5'' 2 = 150" "scaled_value ''0'' ''20'' (Suc 0) = 2" "scaled_value ''1'' [] 2 = 100"
    "scaled_value ''0'' [] (Suc 0) = 0"
    by (simp_all add: scaled_value_def eval_digits)
  have ok: "list_all (update_ok ?p) ?us"
    by (simp add: update_ok_def exact_text_def decimal_ok_def cuts_nothing_def v is_digit_def)
  have "ParseType ''update'' = Inr kUpdate" by (simp add: ParseType_def)
  from coinbase_decodes_event [OF this, of "\<lambda>_ _ _. Some ?p" "[]" "''A-B''" "Some ?p" ?us "(#)" 5 6] ok
  show ?thesis by (simp add: update_level_def scaled_def v)
qed

text \<open>
  A level is read exactly or refused: for every decimal text that fits, the
  number read is the text's own value at the product's decimals, and a text finer
  than those decimals throws instead of being cut off.
\<close>

theorem coinbase_level_exact_or_refused:
  assumes "FindJsonMember level name = Some (JString (text_of n))" and "decimal_ok d n" and "length (snd n) < 2 ^ 32"
  shows "case RequireScaled level name d of
      Inr v \<Rightarrow> v * 10 ^ length (snd n) = int (dec_value (fst n @ snd n)) * 10 ^ unat d
    | Inl e \<Rightarrow> scaled d n * 10 ^ length (snd n) \<noteq> int (dec_value (fst n @ snd n)) * 10 ^ unat d"
proof -
  have digits: "list_all is_digit (snd n)" using assms(2) by (simp add: decimal_ok_def)
  have "scaled d n * 10 ^ length (snd n) = int (dec_value (fst n @ snd n)) * 10 ^ unat d \<longleftrightarrow>
      int (scaled_value (fst n) (snd n) (unat d) * 10 ^ length (snd n)) = int (dec_value (fst n @ snd n) * 10 ^ unat d)"
    by (simp add: scaled_def)
  then have "cuts_nothing d n \<longleftrightarrow> scaled d n * 10 ^ length (snd n) = int (dec_value (fst n @ snd n)) * 10 ^ unat d"
    using scaled_value_exact_iff [OF digits, of "fst n" "unat d"]
    by (simp only: of_nat_eq_iff cuts_nothing_def)
  then show ?thesis
    using RequireScaled_text [OF assms] by (cases "cuts_nothing d n") (auto split: sum.split)
qed

theorem coinbase_level_exact_or_refused_witness:
  "\<not> (\<exists>v. RequireScaled (JObject [(''price_level'', JString ''0.125'')]) ''price_level'' 2 = Inr v)"
proof
  assume "\<exists>v. RequireScaled (JObject [(''price_level'', JString ''0.125'')]) ''price_level'' 2 = Inr v"
  then obtain v where r: "RequireScaled (JObject [(''price_level'', JString ''0.125'')]) ''price_level'' 2 = Inr v" ..
  have d: "scaled_value ''0'' ''125'' 2 = 12" "dec_value ''0125'' = 125"
    by (simp_all add: scaled_value_def eval_digits)
  have t: "text_of (''0'', ''125'') = ''0.125''" by (simp add: text_of_def)
  have "decimal_ok 2 (''0'', ''125'')" by (simp add: decimal_ok_def is_digit_def d)
  from coinbase_level_exact_or_refused [OF _ this, of "JObject [(''price_level'', JString ''0.125'')]" "''price_level''"] r
  have "v * 1000 = 12500" by (simp add: t d)
  then have "2 * v = 25" by simp
  then show False by presburger
qed

end
