(* ===== verification/CoinbaseProducts.thy ===== *)
theory CoinbaseProducts
  imports Decimal VenueAdapter
begin

text \<open>
  coinbase/products.cc, coinbase/adapter.cc and coinbase/constants.h: what
  Coinbase's REST answers mean, and Coinbase as the manager sees it. \<open>parse\<close> is
  rapidjson's parser in its default mode; a GET answers with a status and a body
  or throws.
\<close>

section \<open>coinbase/products.cc\<close>

record response =
  status :: int
  body :: string

type_synonym rest_host = "string \<Rightarrow> response result"

definition ParseObject :: "(string \<Rightarrow> json option) \<Rightarrow> string \<Rightarrow> json result" where
  "ParseObject parse str =
     (case parse str of
        Some d \<Rightarrow>
          if IsObject d then Inr d
          else Inl (runtime_error (''Coinbase answered with no JSON object: '' @ take 200 str))
      | None \<Rightarrow> Inl (runtime_error (''Coinbase answered with no JSON object: '' @ take 200 str)))"

definition IsSet :: "json \<Rightarrow> string \<Rightarrow> bool" where
  "IsSet product name \<longleftrightarrow> FindJsonMember product name = Some (JBool True)"

definition in_quotes :: "string \<Rightarrow> string" where
  "in_quotes s = [CHR 0x27] @ s @ [CHR 0x27]"

definition WhyUnstreamable :: "json \<Rightarrow> string option result" where
  "WhyUnstreamable product =
     bindR (RequireJsonString product ''product_id'') (\<lambda>pid.
     bindR (FindJsonString product ''status'') (\<lambda>s.
       let s = (case s of None \<Rightarrow> [] | Some v \<Rightarrow> v)
       in if s \<noteq> ''online''
          then Inr (Some (''Coinbase lists '' @ pid @ '' as '' @ in_quotes s @ '', not '' @ in_quotes ''online''))
          else if IsSet product ''is_disabled'' \<or> IsSet product ''trading_disabled''
          then Inr (Some (''Coinbase has disabled trading in '' @ pid))
          else bindR (FindJsonString product ''alias'') (\<lambda>a.
                 let a = (case a of None \<Rightarrow> [] | Some v \<Rightarrow> v)
                 in if a \<noteq> []
                    then Inr (Some (''Coinbase streams '' @ pid @ '' as '' @ a @ ''; subscribe to that''))
                    else Inr None)))"

definition kRestHost :: string where "kRestHost = ''api.coinbase.com''"

definition kProductsEndpoint :: string where "kProductsEndpoint = ''/api/v3/brokerage/market/products''"

definition ThrowUnlessOk :: "response \<Rightarrow> string \<Rightarrow> unit result" where
  "ThrowUnlessOk r target =
     (if status r \<noteq> 200
      then Inl (runtime_error (''Coinbase answered '' @ target @ '' with HTTP '' @ int_to_dec (status r) @ '': '' @
             take 200 (body r)))
      else Inr ())"

definition ParseProductPrecision :: "(string \<Rightarrow> json option) \<Rightarrow> string \<Rightarrow> PairPrecision result" where
  "ParseProductPrecision parse str =
     bindR (ParseObject parse str) (\<lambda>product.
     bindR (WhyUnstreamable product) (\<lambda>why.
       case why of
         Some w \<Rightarrow> Inl (UnknownSymbolError w)
       | None \<Rightarrow>
           bindR (FindJsonString product ''price_increment'') (\<lambda>i.
             let price_increment = (case i of None \<Rightarrow> [] | Some v \<Rightarrow> v)
             in bindR (if price_increment = [] then RequireJsonString product ''quote_increment''
                       else Inr price_increment) (\<lambda>step.
                bindR (RequireJsonString product ''base_increment'') (\<lambda>base.
                  Inr \<lparr>price_decimals = FractionDigits step, qty_decimals = FractionDigits base\<rparr>)))))"

text \<open>The filter and the transformation of the products, lazily one after the other.\<close>

fun tradable_loop :: "json list \<Rightarrow> string list result" where
  "tradable_loop [] = Inr []"
| "tradable_loop (product # products) =
     bindR (WhyUnstreamable product) (\<lambda>why.
       if why \<noteq> None then tradable_loop products
       else bindR (RequireJsonString product ''product_id'') (\<lambda>pid.
            bindR (tradable_loop products) (\<lambda>ids. Inr (pid # ids))))"

definition ParseTradableProducts :: "(string \<Rightarrow> json option) \<Rightarrow> string \<Rightarrow> string list result" where
  "ParseTradableProducts parse str =
     bindR (ParseObject parse str) (\<lambda>document.
     bindR (RequireJsonMember document ''products'' IsArray) (\<lambda>products.
     bindR (tradable_loop (GetArray products)) (\<lambda>ids. Inr (sort ids))))"

definition FetchProductPrecision ::
    "(string \<Rightarrow> json option) \<Rightarrow> rest_host \<Rightarrow> string \<Rightarrow> PairPrecision result" where
  "FetchProductPrecision parse http product_id =
     (let target = kProductsEndpoint @ ''/'' @ product_id
      in bindR (http target) (\<lambda>r.
           if status r = 404 \<or> status r = 400
           then Inl (UnknownSymbolError (''Coinbase does not list '' @ product_id))
           else bindR (ThrowUnlessOk r target) (\<lambda>_. ParseProductPrecision parse (body r))))"

definition FetchTradableProducts :: "(string \<Rightarrow> json option) \<Rightarrow> rest_host \<Rightarrow> string list result" where
  "FetchTradableProducts parse http =
     (let target = kProductsEndpoint @ ''?product_type=SPOT''
      in bindR (http target) (\<lambda>r.
         bindR (ThrowUnlessOk r target) (\<lambda>_. ParseTradableProducts parse (body r))))"

section \<open>coinbase/adapter.cc\<close>

definition Coinbase_endpoints :: Endpoints where
  "Coinbase_endpoints =
     \<lparr>ep_host = ''advanced-trade-ws.coinbase.com'', ep_port = ''443'', ep_target = ''/''\<rparr>"

definition kDepths :: "u32 list" where "kDepths = [kFullDepth]"

definition Coinbase_CheckSymbol :: "string \<Rightarrow> unit expected" where
  "Coinbase_CheckSymbol symbol =
     (if IsWellFormedSymbol symbol ''-'' \<and> \<not> list_ex is_lower symbol then Inr ()
      else Failure kUnknownSymbol
        (''A Coinbase product is up to '' @ nat_to_dec kMaxSymbolLength @ '' capital letters, digits and '' @
         in_quotes ''-'' @ '', e.g. BTC-USD''))"

definition Coinbase_FetchPrecision ::
    "(string \<Rightarrow> json option) \<Rightarrow> rest_host \<Rightarrow> string \<Rightarrow> PairPrecision expected" where
  "Coinbase_FetchPrecision parse http symbol = CallVenue (FetchProductPrecision parse http symbol)"

definition Coinbase_FetchPairs :: "(string \<Rightarrow> json option) \<Rightarrow> rest_host \<Rightarrow> string list expected" where
  "Coinbase_FetchPairs parse http = CallVenue (FetchTradableProducts parse http)"

definition Coinbase_ConnectRequests :: "string list" where
  "Coinbase_ConnectRequests = [''{\"type\":\"subscribe\",\"channel\":\"heartbeats\"}'']"

definition Coinbase_MakeBookRequest :: "BookRequest \<Rightarrow> BookSpec \<Rightarrow> string" where
  "Coinbase_MakeBookRequest request book =
     ''{\"type\":\"'' @ (if request = kSubscribe then ''subscribe'' else ''unsubscribe'') @
     ''\",\"channel\":\"level2\",\"product_ids\":[\"'' @ bs_symbol book @ ''\"]}''"

definition Coinbase_adapter :: "(string \<Rightarrow> json option) \<Rightarrow> rest_host Adapter" where
  "Coinbase_adapter parse =
     \<lparr>ad_name = ''coinbase'',
      ad_endpoints = Coinbase_endpoints,
      ad_depths = kDepths,
      ad_book_checksum = None,
      ad_CheckSymbol = Coinbase_CheckSymbol,
      ad_FetchPrecision = Coinbase_FetchPrecision parse,
      ad_FetchPairs = Coinbase_FetchPairs parse,
      ad_ConnectRequests = Coinbase_ConnectRequests,
      ad_MakeBookRequest = Coinbase_MakeBookRequest\<rparr>"

section \<open>The adapter's contract\<close>

lemma Coinbase_checked_plain:
  "Coinbase_CheckSymbol symbol = Inr () \<Longrightarrow> symbol \<noteq> [] \<and> list_all plain_char symbol"
  using well_formed_plain [of symbol "''-''"] by (simp add: Coinbase_CheckSymbol_def split: if_splits)

lemma Coinbase_request_inj:
  assumes "bs_depth b = bs_depth b'" and "Coinbase_MakeBookRequest q b = Coinbase_MakeBookRequest q' b'"
  shows "q = q' \<and> b = b'"
proof -
  have "q = q'" using assms(2) by (cases q; cases q') (simp_all add: Coinbase_MakeBookRequest_def)
  with assms show ?thesis by (simp add: Coinbase_MakeBookRequest_def BookSpec.equality)
qed

interpretation coinbase_adapter: venue_adapter "Coinbase_adapter parse"
proof
  fix symbol e and b b' :: BookSpec and q q' :: BookRequest
  show "ad_CheckSymbol (Coinbase_adapter parse) symbol = Inr () \<Longrightarrow> symbol \<noteq> [] \<and> list_all plain_char symbol"
    by (simp add: Coinbase_adapter_def Coinbase_checked_plain)
  show "ad_CheckSymbol (Coinbase_adapter parse) symbol = Inl e \<Longrightarrow> code e = kUnknownSymbol"
    by (auto simp: Coinbase_adapter_def Coinbase_CheckSymbol_def Failure_def split: if_splits)
  assume "bs_depth b \<in> set (ad_depths (Coinbase_adapter parse))" "bs_depth b' \<in> set (ad_depths (Coinbase_adapter parse))"
    "ad_MakeBookRequest (Coinbase_adapter parse) q b = ad_MakeBookRequest (Coinbase_adapter parse) q' b'"
  then show "q = q' \<and> b = b'"
    by (intro Coinbase_request_inj) (simp_all add: Coinbase_adapter_def kDepths_def)
qed

section \<open>Lemmas\<close>

text \<open>A product that can be streamed: online, enabled and no other product's alias.\<close>

definition streamable :: "json \<Rightarrow> string \<Rightarrow> bool" where
  "streamable product pid \<longleftrightarrow>
     FindJsonMember product ''product_id'' = Some (JString pid) \<and>
     FindJsonMember product ''status'' = Some (JString ''online'') \<and>
     \<not> IsSet product ''is_disabled'' \<and> \<not> IsSet product ''trading_disabled'' \<and>
     FindJsonMember product ''alias'' \<in> {None, Some (JString [])}"

lemma WhyUnstreamable_None:
  "WhyUnstreamable product = Inr None \<longleftrightarrow> (\<exists>pid. streamable product pid)"
  unfolding WhyUnstreamable_def streamable_def Let_def
  by (auto simp: bindR_Inr_iff FindJsonString_Inr split: option.splits if_splits)

lemma tradable_loop_Inr:
  "tradable_loop products = Inr ids \<Longrightarrow>
     set ids = {pid. \<exists>product \<in> set products. streamable product pid}"
proof (induction products arbitrary: ids)
  case (Cons product products)
  then obtain why where w: "WhyUnstreamable product = Inr why" by (auto simp: bindR_Inr_iff)
  show ?case
  proof (cases why)
    case None
    then obtain pid where s: "streamable product pid" using w WhyUnstreamable_None by metis
    then have "RequireJsonString product ''product_id'' = Inr pid" by (simp add: streamable_def)
    with Cons.prems w None obtain rest where "tradable_loop products = Inr rest" "ids = pid # rest"
      by (auto simp: bindR_Inr_iff streamable_def)
    moreover have "streamable product q \<longleftrightarrow> q = pid" for q using s by (auto simp: streamable_def)
    ultimately show ?thesis using Cons.IH by auto
  next
    case (Some x)
    then have "\<not> streamable product q" for q using w WhyUnstreamable_None [of product] by auto
    then show ?thesis using Cons w Some by auto
  qed
qed simp

lemma ParseTradableProducts_Inr:
  assumes "ParseTradableProducts parse str = Inr ids"
  shows "sorted ids \<and> (\<exists>document products. parse str = Some document \<and>
    FindJsonMember document ''products'' = Some (JArray products) \<and>
    set ids = {pid. \<exists>product \<in> set products. streamable product pid})"
proof -
  obtain document products unsorted where "ParseObject parse str = Inr document"
    "FindJsonMember document ''products'' = Some products" "IsArray products"
    "tradable_loop (GetArray products) = Inr unsorted" "ids = sort unsorted"
    using assms by (auto simp: ParseTradableProducts_def bindR_Inr_iff)
  then show ?thesis
    using tradable_loop_Inr [of "GetArray products" unsorted]
    by (cases products) (auto simp: ParseObject_def split: option.splits if_splits)
qed

section \<open>Properties\<close>

text \<open>
  A product gets a precision only if it can be streamed (online, trading
  enabled, no other product's alias), and then the decimals of its price and base
  increments, the quote increment standing in for a missing price increment: at
  those decimals the increments lose nothing.
\<close>

theorem product_precision_fits_increments:
  assumes "ParseProductPrecision parse str = Inr p"
  shows "\<exists>product pid step base. parse str = Some product \<and> streamable product pid \<and>
    FindJsonMember product ''base_increment'' = Some (JString base) \<and>
    (FindJsonMember product ''price_increment'' = Some (JString step) \<and> step \<noteq> [] \<or>
     FindJsonMember product ''price_increment'' \<in> {None, Some (JString [])} \<and>
     FindJsonMember product ''quote_increment'' = Some (JString step)) \<and>
    p = \<lparr>price_decimals = FractionDigits step, qty_decimals = FractionDigits base\<rparr> \<and>
    (\<forall>n. step = text_of n \<longrightarrow> decimal_ok (price_decimals p) n \<longrightarrow> length (snd n) < 2 ^ 32 \<longrightarrow>
       cuts_nothing (price_decimals p) n) \<and>
    (\<forall>n. base = text_of n \<longrightarrow> decimal_ok (qty_decimals p) n \<longrightarrow> length (snd n) < 2 ^ 32 \<longrightarrow>
       cuts_nothing (qty_decimals p) n)"
proof -
  obtain product why where f: "ParseObject parse str = Inr product" "WhyUnstreamable product = Inr why"
    and rest: "(case why of
         Some w \<Rightarrow> Inl (UnknownSymbolError w)
       | None \<Rightarrow>
           bindR (FindJsonString product ''price_increment'') (\<lambda>i.
             let price_increment = (case i of None \<Rightarrow> [] | Some v \<Rightarrow> v)
             in bindR (if price_increment = [] then RequireJsonString product ''quote_increment''
                       else Inr price_increment) (\<lambda>step.
                bindR (RequireJsonString product ''base_increment'') (\<lambda>base.
                  Inr \<lparr>price_decimals = FractionDigits step, qty_decimals = FractionDigits base\<rparr>)))) = Inr p"
    using assms unfolding ParseProductPrecision_def bindR_Inr_iff by blast
  then have w: "why = None" by (cases why) simp_all
  obtain i step base where g: "FindJsonString product ''price_increment'' = Inr i"
    "(if (case i of None \<Rightarrow> [] | Some v \<Rightarrow> v) = [] then RequireJsonString product ''quote_increment''
      else Inr (case i of None \<Rightarrow> [] | Some v \<Rightarrow> v)) = Inr step"
    "RequireJsonString product ''base_increment'' = Inr base"
    "Inr \<lparr>price_decimals = FractionDigits step, qty_decimals = FractionDigits base\<rparr> = (Inr p :: PairPrecision result)"
    using rest unfolding w option.case Let_def bindR_Inr_iff by blast
  then have p: "p = \<lparr>price_decimals = FractionDigits step, qty_decimals = FractionDigits base\<rparr>" by simp
  obtain pid where "streamable product pid" using f(2) w WhyUnstreamable_None by metis
  moreover have "parse str = Some product" using f(1) by (auto simp: ParseObject_def split: option.splits if_splits)
  moreover have "FindJsonMember product ''price_increment'' = Some (JString step) \<and> step \<noteq> [] \<or>
     FindJsonMember product ''price_increment'' \<in> {None, Some (JString [])} \<and>
     FindJsonMember product ''quote_increment'' = Some (JString step)"
    using g(1,2) by (auto simp: FindJsonString_Inr split: option.splits if_splits)
  moreover have "cuts_nothing (FractionDigits (text_of n)) n"
    if "decimal_ok (FractionDigits (text_of n)) n" "length (snd n) < 2 ^ 32" for n
    using FractionDigits_text_of [OF that] by simp
  moreover have "FindJsonMember product ''base_increment'' = Some (JString base)" using g(3) by simp
  ultimately show ?thesis using p by auto
qed

theorem product_precision_fits_increments_witness:
  "let answer = JObject [(''product_id'', JString ''A-B''), (''status'', JString ''online''),
         (''quote_increment'', JString ''0.01''), (''base_increment'', JString ''1'')]
   in \<exists>p. ParseProductPrecision (\<lambda>_. Some answer) ''x'' = Inr p \<and>
        cuts_nothing (price_decimals p) (''0'', ''01'')"
proof -
  let ?answer = "JObject [(''product_id'', JString ''A-B''), (''status'', JString ''online''),
         (''quote_increment'', JString ''0.01''), (''base_increment'', JString ''1'')]"
  have d: "FractionDigits ''0.01'' = 2" by (simp add: FractionDigits_def)
  have "ParseProductPrecision (\<lambda>_. Some ?answer) ''x'' =
      Inr \<lparr>price_decimals = 2, qty_decimals = FractionDigits ''1''\<rparr>"
    by (simp add: ParseProductPrecision_def ParseObject_def WhyUnstreamable_def RequireJsonString_eq FindJsonString_eq
        IsSet_def d)
  then obtain p where p: "ParseProductPrecision (\<lambda>_. Some ?answer) ''x'' = Inr p" "price_decimals p = 2" by simp
  have "decimal_ok 2 (''0'', ''01'')"
    by (simp add: decimal_ok_def is_digit_def scaled_value_def eval_digits)
  with product_precision_fits_increments [OF p(1)] p(2) have "cuts_nothing (price_decimals p) (''0'', ''01'')"
    by (auto simp: text_of_def)
  with p(1) show ?thesis by (auto simp: Let_def)
qed

end
