(* ===== verification/TimingAggregator.thy ===== *)
theory TimingAggregator
  imports Prelude
begin

text \<open>
  timing/aggregator.h and timing/aggregator.cc: the timings' path from the threads that
  record them to the stats file. A step is what one thread does between two points at
  which another can see it: the atomics, a push into a thread's queue, the writer's pass
  over one queue under the registry's lock. A thread is a number; its \<^verbatim>\<open>Producer\<close>, shared by
  the thread and the registry, is named by it. Four lists beside the program's state
  remember, each sample with its thread, what was recorded while running, what the queues
  took, what was counted as dropped, and what the writers drained; and two numbers how long
  the last two were at the last \<^verbatim>\<open>Start\<close>.
\<close>

section \<open>The code: state\<close>

datatype Interval = kExchangeToParseStart | kReceiveToParseComplete

fun Interval_Name :: "Interval \<Rightarrow> string" where
  "Interval_Name kExchangeToParseStart = ''exchange_to_parse_start''"
| "Interval_Name kReceiveToParseComplete = ''receive_to_parse_complete''"

definition kQueueCapacity :: nat where "kQueueCapacity = 65536"

record Sample =
  sm_interval :: Interval
  sm_nanos :: i64

record Producer =
  pr_queue :: "Sample list"
  pr_retired :: bool

text \<open>
  Where a recording thread is: outside \<^verbatim>\<open>Record\<close>, past its look at \<^verbatim>\<open>running_\<close>, past a push
  that found the queue full, or gone.
\<close>

datatype recorder = Outside | Recording Sample | Refused Sample | Exited

text \<open>
  Where the writer is: at the head of its loop; in \<^verbatim>\<open>DrainInto\<close>, holding the lock, with the
  producers it keeps and those still to come, before or after it read whether the next
  one retired; past the pass; over.
\<close>

datatype writer_at =
    AtLoop
  | AtProducer "nat list" "nat list"
  | AtQueue "nat list" nat bool "nat list"
  | PastDrain
  | WriterOver

record Writer =
  wr_stop_requested :: bool
  wr_stopping :: bool
  wr_buffer :: string
  wr_path :: string
  wr_at :: writer_at

record Aggregator =
  ag_running :: bool
  ag_dropped :: u64
  ag_registry :: "nat list"
  ag_producer :: "nat \<Rightarrow> Producer option"
  ag_writer :: "Writer option"
  ag_recorder :: "nat \<Rightarrow> recorder"
  ag_files :: "string \<Rightarrow> string option"
  ag_recorded :: "(nat \<times> Sample) list"
  ag_taken :: "(nat \<times> Sample) list"
  ag_refused :: "(nat \<times> Sample) list"
  ag_drained :: "(nat \<times> Sample) list"
  ag_refused_from :: nat
  ag_drained_from :: nat

definition Aggregator_init :: "(string \<Rightarrow> string option) \<Rightarrow> Aggregator" where
  "Aggregator_init fs =
     \<lparr>ag_running = False, ag_dropped = 0, ag_registry = [], ag_producer = (\<lambda>_. None), ag_writer = None,
      ag_recorder = (\<lambda>_. Outside), ag_files = fs, ag_recorded = [], ag_taken = [],
      ag_refused = [], ag_drained = [], ag_refused_from = 0, ag_drained_from = 0\<rparr>"

section \<open>The code: recording\<close>

text \<open>\<^verbatim>\<open>Record\<close>: the look at \<^verbatim>\<open>running_\<close>, \<^verbatim>\<open>LocalProducer\<close>, the push, the count of a drop.\<close>

definition Record_load :: "nat \<Rightarrow> Sample \<Rightarrow> Aggregator \<Rightarrow> Aggregator" where
  "Record_load t sample s =
     (if ag_running s
      then s\<lparr>ag_recorder := (ag_recorder s)(t := Recording sample), ag_recorded := ag_recorded s @ [(t, sample)]\<rparr>
      else s)"

definition LocalProducer :: "nat \<Rightarrow> Aggregator \<Rightarrow> Aggregator" where
  "LocalProducer t s =
     (case ag_producer s t of
        Some _ \<Rightarrow> s
      | None \<Rightarrow> s\<lparr>ag_producer := (ag_producer s)(t := Some \<lparr>pr_queue = [], pr_retired = False\<rparr>),
                 ag_registry := ag_registry s @ [t]\<rparr>)"

definition Record_push :: "nat \<Rightarrow> Sample \<Rightarrow> Producer \<Rightarrow> Aggregator \<Rightarrow> Aggregator" where
  "Record_push t sample p s =
     (if length (pr_queue p) < kQueueCapacity
      then s\<lparr>ag_producer := (ag_producer s)(t := Some (p\<lparr>pr_queue := pr_queue p @ [sample]\<rparr>)),
             ag_recorder := (ag_recorder s)(t := Outside), ag_taken := ag_taken s @ [(t, sample)]\<rparr>
      else s\<lparr>ag_recorder := (ag_recorder s)(t := Refused sample)\<rparr>)"

definition Record_count :: "nat \<Rightarrow> Sample \<Rightarrow> Aggregator \<Rightarrow> Aggregator" where
  "Record_count t sample s =
     s\<lparr>ag_dropped := ag_dropped s + 1, ag_recorder := (ag_recorder s)(t := Outside),
       ag_refused := ag_refused s @ [(t, sample)]\<rparr>"

text \<open>A thread ends, with the destructor of its \<^verbatim>\<open>ProducerHandle\<close> if it has one.\<close>

definition Thread_exit :: "nat \<Rightarrow> Aggregator \<Rightarrow> Aggregator" where
  "Thread_exit t s =
     s\<lparr>ag_recorder := (ag_recorder s)(t := Exited),
       ag_producer := (ag_producer s)(t := map_option (\<lambda>p. p\<lparr>pr_retired := True\<rparr>) (ag_producer s t))\<rparr>"

section \<open>The code: the writer\<close>

definition sample_line :: "Sample \<Rightarrow> string" where
  "sample_line sample = Interval_Name (sm_interval sample) @ '' '' @ int_to_dec (sm_nanos sample) @ [CHR 0x0A]"

definition dropped_line :: "u64 \<Rightarrow> string" where
  "dropped_line n = ''# dropped '' @ nat_to_dec (unat n) @ [CHR 0x0A]"

definition append_file :: "string \<Rightarrow> string \<Rightarrow> Aggregator \<Rightarrow> Aggregator" where
  "append_file path str s = s\<lparr>ag_files := (ag_files s)(path := map_option (\<lambda>old. old @ str) (ag_files s path))\<rparr>"

text \<open>One step of \<^verbatim>\<open>Run\<close> and \<^verbatim>\<open>DrainInto\<close>.\<close>

definition Writer_move :: "Writer \<Rightarrow> Aggregator \<Rightarrow> Aggregator" where
  "Writer_move w s =
     (case wr_at w of
        AtLoop \<Rightarrow>
          if wr_stopping w
          then append_file (wr_path w) (dropped_line (ag_dropped s)) (s\<lparr>ag_writer := Some (w\<lparr>wr_at := WriterOver\<rparr>)\<rparr>)
          else s\<lparr>ag_writer := Some (w\<lparr>wr_stopping := wr_stop_requested w, wr_at := AtProducer [] (ag_registry s)\<rparr>)\<rparr>
      | AtProducer kept [] \<Rightarrow> s\<lparr>ag_registry := kept, ag_writer := Some (w\<lparr>wr_at := PastDrain\<rparr>)\<rparr>
      | AtProducer kept (t # rest) \<Rightarrow>
          s\<lparr>ag_writer := Some (w\<lparr>wr_at := AtQueue kept t (pr_retired (the (ag_producer s t))) rest\<rparr>)\<rparr>
      | AtQueue kept t retired rest \<Rightarrow>
          let p = the (ag_producer s t)
          in s\<lparr>ag_producer := (ag_producer s)(t := Some (p\<lparr>pr_queue := []\<rparr>)),
               ag_writer := Some (w\<lparr>wr_buffer := wr_buffer w @ concat (map sample_line (pr_queue p)),
                                    wr_at := AtProducer (if retired then kept else kept @ [t]) rest\<rparr>),
               ag_drained := ag_drained s @ map (\<lambda>sample. (t, sample)) (pr_queue p)\<rparr>
      | PastDrain \<Rightarrow>
          if wr_buffer w = [] then s\<lparr>ag_writer := Some (w\<lparr>wr_at := AtLoop\<rparr>)\<rparr>
          else append_file (wr_path w) (wr_buffer w) (s\<lparr>ag_writer := Some (w\<lparr>wr_buffer := [], wr_at := AtLoop\<rparr>)\<rparr>)
      | WriterOver \<Rightarrow> s)"

definition Writer_Step :: "Aggregator \<Rightarrow> Aggregator" where
  "Writer_Step s = (case ag_writer s of None \<Rightarrow> s | Some w \<Rightarrow> Writer_move w s)"

section \<open>The code: starting and stopping\<close>

text \<open>
  \<^verbatim>\<open>Stop\<close> up to its wait for the writer, and past it; and \<^verbatim>\<open>Start\<close> past its call of
  \<^verbatim>\<open>Stop\<close>, where \<open>opens\<close> is whether the file can be opened.
\<close>

definition Stop_request :: "Aggregator \<Rightarrow> Aggregator" where
  "Stop_request s =
     s\<lparr>ag_running := False, ag_writer := map_option (\<lambda>w. w\<lparr>wr_stop_requested := True\<rparr>) (ag_writer s)\<rparr>"

definition writer_over :: "Aggregator \<Rightarrow> bool" where
  "writer_over s \<longleftrightarrow> (case ag_writer s of None \<Rightarrow> True | Some w \<Rightarrow> wr_at w = WriterOver)"

definition Stop_join :: "Aggregator \<Rightarrow> Aggregator" where
  "Stop_join s = s\<lparr>ag_writer := None\<rparr>"

definition Aggregator_Start :: "string \<Rightarrow> bool \<Rightarrow> Aggregator \<Rightarrow> Aggregator \<times> unit result" where
  "Aggregator_Start path opens s =
     (if \<not> opens then (s, Inl (runtime_error (''Cannot open timing file '' @ path)))
      else (s\<lparr>ag_files := (ag_files s)(path := Some []), ag_dropped := 0,
              ag_writer := Some \<lparr>wr_stop_requested = False, wr_stopping = False, wr_buffer = [], wr_path = path, wr_at = AtLoop\<rparr>,
              ag_running := True, ag_refused_from := length (ag_refused s), ag_drained_from := length (ag_drained s)\<rparr>,
            Inr ()))"

end
