(* ===== verification/VenueL2Parser.thy ===== *)
theory VenueL2Parser
  imports KrakenL2Decoder CoinbaseL2Decoder TimingAggregator
begin

text \<open>
  venue/l2_parser.h, venue/l2_parser.cc and core/receiver.h: routing of a venue's
  book changes to the receivers attached for their pairs. Every method runs under
  the routes lock, so it is one step here. What the parser tells the outside
  (its receivers, the mismatch handler, the timing) is kept as a history, latest
  first; \<open>Attached\<close> and \<open>Started\<close> mark where a receiver's stream starts over.
  A receiver is named by its subscription's id.
\<close>

section \<open>The code\<close>

datatype Gap = kDisconnected | kResubscribing

type_synonym receiver = u64

datatype delivery =
    Receive receiver Message
  | OnGap receiver Gap
  | OnMismatch string
  | Recorded Interval i64
  | Attached receiver u32
  | Started

record Route =
  rt_precision :: PairPrecision
  rt_receiver :: receiver
  awaiting_snapshot :: bool
  rt_book :: Book

record L2Parser =
  checksum_check :: "(Book \<Rightarrow> u32) option"
  routes :: "(string \<times> Route) list"
  parse_start_ns :: i64
  history :: "delivery list"

definition L2Parser_new :: "(Book \<Rightarrow> u32) option \<Rightarrow> L2Parser" where
  "L2Parser_new check = \<lparr>checksum_check = check, routes = [], parse_start_ns = 0, history = []\<rparr>"

definition deliver :: "delivery \<Rightarrow> L2Parser \<Rightarrow> L2Parser" where
  "deliver e p = p\<lparr>history := e # history p\<rparr>"

definition set_route :: "string \<Rightarrow> Route \<Rightarrow> L2Parser \<Rightarrow> L2Parser" where
  "set_route symbol route p = p\<lparr>routes := insert_or_assign (<) symbol route (routes p)\<rparr>"

definition L2Parser_Start :: "L2Parser \<Rightarrow> L2Parser" where
  "L2Parser_Start p =
     deliver Started (p\<lparr>routes := map (\<lambda>(symbol, route). (symbol, route\<lparr>awaiting_snapshot := True\<rparr>)) (routes p)\<rparr>)"

definition L2Parser_Attach ::
    "string \<Rightarrow> PairPrecision \<Rightarrow> u32 \<Rightarrow> receiver \<Rightarrow> L2Parser \<Rightarrow> L2Parser result" where
  "L2Parser_Attach symbol precision depth receiver p =
     (if map_of (routes p) symbol \<noteq> None
      then Inl (invalid_argument (symbol @ '' already has a receiver''))
      else Inr (deliver (Attached receiver depth)
             (set_route symbol \<lparr>rt_precision = precision, rt_receiver = receiver, awaiting_snapshot = True,
                rt_book = Book_of_depth depth\<rparr> p)))"

definition L2Parser_Detach :: "string \<Rightarrow> L2Parser \<Rightarrow> L2Parser" where
  "L2Parser_Detach symbol p = p\<lparr>routes := erase (<) symbol (routes p)\<rparr>"

definition FindRoute :: "L2Parser \<Rightarrow> string \<Rightarrow> Type \<Rightarrow> Route option" where
  "FindRoute p symbol t =
     (case map_of (routes p) symbol of
        None \<Rightarrow> None
      | Some route \<Rightarrow> if t = kUpdate \<and> awaiting_snapshot route then None else Some route)"

definition L2Parser_Find :: "L2Parser \<Rightarrow> string \<Rightarrow> Type \<Rightarrow> PairPrecision option" where
  "L2Parser_Find p symbol t =
     (case FindRoute p symbol t of None \<Rightarrow> None | Some route \<Rightarrow> Some (rt_precision route))"

definition L2Parser_Emit :: "Message \<Rightarrow> L2Parser \<Rightarrow> L2Parser" where
  "L2Parser_Emit message p =
     (case FindRoute p (msg_symbol message) (msg_type message) of
        None \<Rightarrow> p
      | Some routed \<Rightarrow>
          let p = (if msg_type message = kUpdate \<and> venue_time_ns message \<noteq> 0
                   then deliver (Recorded kExchangeToParseStart (parse_start_ns p - venue_time_ns message)) p else p);
              routed = routed\<lparr>awaiting_snapshot := False\<rparr>;
              symbol = msg_symbol message
          in case checksum_check p of
               None \<Rightarrow> deliver (Receive (rt_receiver routed) message) (set_route symbol routed p)
             | Some check \<Rightarrow>
                 let routed = routed\<lparr>rt_book := Book_Apply message (rt_book routed)\<rparr>
                 in if checksum message \<noteq> 0 \<and> check (rt_book routed) \<noteq> checksum message
                    then deliver (OnMismatch symbol) (deliver (OnGap (rt_receiver routed) kResubscribing)
                           (set_route symbol (routed\<lparr>awaiting_snapshot := True, rt_book := Book_Clear (rt_book routed)\<rparr>) p))
                    else deliver (Receive (rt_receiver routed) message) (set_route symbol routed p))"

definition L2Parser_Dispatch ::
    "('d, L2Parser) decode \<Rightarrow> i64 \<Rightarrow> i64 \<Rightarrow> RawFrame \<Rightarrow> 'd \<times> L2Parser \<Rightarrow> ('d \<times> L2Parser) \<times> unit result" where
  "L2Parser_Dispatch Decode now later frame dp =
     (let p = (snd dp)\<lparr>parse_start_ns := now\<rparr>
      in case Decode L2Parser_Find L2Parser_Emit frame (fst dp) p of
           (dp, Inl e) \<Rightarrow> (dp, Inl e)
         | ((d, p), Inr _) \<Rightarrow> ((d, deliver (Recorded kReceiveToParseComplete (later - parse_start_ns p)) p), Inr ()))"

section \<open>A receiver's stream\<close>

text \<open>What a receiver got since its stream last broke, and the depth it is attached at.\<close>

fun stretch :: "receiver \<Rightarrow> delivery list \<Rightarrow> Message list" where
  "stretch r [] = []"
| "stretch r (Receive r' m # h) = (if r' = r then stretch r h @ [m] else stretch r h)"
| "stretch r (OnGap r' g # h) = (if r' = r then [] else stretch r h)"
| "stretch r (Attached r' d # h) = (if r' = r then [] else stretch r h)"
| "stretch r (Started # h) = []"
| "stretch r (OnMismatch s # h) = stretch r h"
| "stretch r (Recorded i v # h) = stretch r h"

fun depth_of :: "receiver \<Rightarrow> delivery list \<Rightarrow> u32" where
  "depth_of r [] = 0"
| "depth_of r (e # h) = (case e of Attached r' d \<Rightarrow> if r' = r then d else depth_of r h | _ \<Rightarrow> depth_of r h)"

text \<open>
  A message may be received: the first of a stretch is a snapshot, and its
  checksum is that of the book the stretch leaves with it.
\<close>

definition may_receive :: "(Book \<Rightarrow> u32) option \<Rightarrow> receiver \<Rightarrow> Message \<Rightarrow> delivery list \<Rightarrow> bool" where
  "may_receive check r m h \<longleftrightarrow>
     (stretch r h = [] \<longrightarrow> msg_type m = kSnapshot) \<and>
     (\<forall>f. check = Some f \<longrightarrow> checksum m \<noteq> 0 \<longrightarrow> f (replay (depth_of r h) (stretch r h @ [m])) = checksum m)"

fun history_ok :: "(Book \<Rightarrow> u32) option \<Rightarrow> delivery list \<Rightarrow> bool" where
  "history_ok check [] = True"
| "history_ok check (e # h) \<longleftrightarrow> history_ok check h \<and>
     (case e of Receive r m \<Rightarrow> may_receive check r m h | _ \<Rightarrow> True)"

lemma history_ok_split:
  "history_ok check (later @ Receive r m # earlier) \<Longrightarrow> may_receive check r m earlier"
  by (induction later) auto

text \<open>One route: what it remembers of its receiver's stream.\<close>

definition route_ok :: "(Book \<Rightarrow> u32) option \<Rightarrow> delivery list \<Rightarrow> Route \<Rightarrow> bool" where
  "route_ok check h rt \<longleftrightarrow>
     bk_depth (rt_book rt) = depth_of (rt_receiver rt) h \<and>
     (awaiting_snapshot rt \<longleftrightarrow> stretch (rt_receiver rt) h = []) \<and>
     (check \<noteq> None \<longrightarrow> \<not> awaiting_snapshot rt \<longrightarrow>
        rt_book rt = replay (depth_of (rt_receiver rt) h) (stretch (rt_receiver rt) h))"

definition receivers :: "L2Parser \<Rightarrow> receiver set" where
  "receivers p = {rt_receiver rt | rt symbol. map_of (routes p) symbol = Some rt}"

definition parser_ok :: "L2Parser \<Rightarrow> bool" where
  "parser_ok p \<longleftrightarrow> ordered (<) (routes p) \<and> history_ok (checksum_check p) (history p) \<and>
     (\<forall>symbol rt. map_of (routes p) symbol = Some rt \<longrightarrow> route_ok (checksum_check p) (history p) rt) \<and>
     (\<forall>symbol symbol' rt rt'. map_of (routes p) symbol = Some rt \<longrightarrow> map_of (routes p) symbol' = Some rt' \<longrightarrow>
        rt_receiver rt = rt_receiver rt' \<longrightarrow> symbol = symbol')"

lemma L2Parser_new_ok [simp]: "parser_ok (L2Parser_new check)"
  by (simp add: parser_ok_def L2Parser_new_def)

lemma parser_simps [simp]:
  "checksum_check (deliver e p) = checksum_check p" "routes (deliver e p) = routes p"
  "history (deliver e p) = e # history p" "parse_start_ns (deliver e p) = parse_start_ns p"
  "checksum_check (set_route s r p) = checksum_check p" "history (set_route s r p) = history p"
  "routes (set_route s r p) = insert_or_assign (<) s r (routes p)"
  "parse_start_ns (set_route s r p) = parse_start_ns p"
  by (simp_all add: deliver_def set_route_def)

text \<open>What the history gains without touching any stream.\<close>

lemma parser_ok_record:
  "parser_ok p \<Longrightarrow> parser_ok (deliver (Recorded i v) p)" "parser_ok p \<Longrightarrow> parser_ok (deliver (OnMismatch s) p)"
  by (simp_all add: parser_ok_def route_ok_def)

lemma parser_ok_start_ns: "parser_ok (p\<lparr>parse_start_ns := t\<rparr>) = parser_ok p"
  by (simp add: parser_ok_def)

text \<open>An event of one receiver together with the new state of its own route.\<close>

lemma parser_ok_event:
  assumes ok: "parser_ok p" and rt: "map_of (routes p) symbol = Some rt"
    and same: "rt_receiver rt' = rt_receiver rt"
    and e: "e = Receive (rt_receiver rt) m \<or> e = OnGap (rt_receiver rt) g"
    and "history_ok (checksum_check p) (e # history p)"
    and "route_ok (checksum_check p) (e # history p) rt'"
  shows "parser_ok (deliver e (set_route symbol rt' p))"
proof -
  have other: "route_ok (checksum_check p) (e # history p) r"
    if "map_of (routes p) s = Some r" "s \<noteq> symbol" for s r
  proof -
    have "rt_receiver r \<noteq> rt_receiver rt" using ok rt that by (auto simp: parser_ok_def)
    moreover have "route_ok (checksum_check p) (history p) r" using ok that by (auto simp: parser_ok_def)
    ultimately show ?thesis using e by (auto simp: route_ok_def)
  qed
  have inj: "symbol = s" if "map_of (routes p) s = Some r" "rt_receiver r = rt_receiver rt" for s r
    using ok rt that by (auto simp: parser_ok_def)
  show ?thesis
    unfolding parser_ok_def parser_simps
    using ok assms(5,6) other inj same
    by (auto simp: parser_ok_def map_ops
        split: if_splits)
qed

lemma FindRoute_Some:
  "FindRoute p s t = Some rt \<longleftrightarrow> map_of (routes p) s = Some rt \<and> (t = kUpdate \<longrightarrow> \<not> awaiting_snapshot rt)"
  by (auto simp: FindRoute_def split: option.splits if_splits)

lemma replay_snoc: "replay depth (ms @ [m]) = Book_Apply m (replay depth ms)"
  by (simp add: replay_def)

lemma depth_replay [simp]: "bk_depth (replay depth ms) = depth"
  by (simp add: replay_def)

text \<open>The book a routed message leaves is that of the stretch with the message.\<close>

lemma routed_book:
  assumes "route_ok check h rt" and "check \<noteq> None" and "msg_type m = kUpdate \<longrightarrow> \<not> awaiting_snapshot rt"
  shows "Book_Apply m (rt_book rt) = replay (depth_of (rt_receiver rt) h) (stretch (rt_receiver rt) h @ [m])"
proof (cases "awaiting_snapshot rt")
  case False
  then show ?thesis using assms by (auto simp: route_ok_def replay_snoc)
next
  case True
  then have snap: "msg_type m = kSnapshot" using assms(3) by (cases "msg_type m") auto
  show ?thesis using assms(1) True snapshot_forgets [OF snap, of "rt_book rt"]
    by (simp add: route_ok_def replay_def)
qed

lemma L2Parser_Emit_ok: "parser_ok p \<Longrightarrow> parser_ok (L2Parser_Emit m p)"
proof (cases "FindRoute p (msg_symbol m) (msg_type m)")
  case None
  then show "parser_ok p \<Longrightarrow> parser_ok (L2Parser_Emit m p)" by (simp add: L2Parser_Emit_def)
next
  case (Some rt)
  assume ok: "parser_ok p"
  define q where "q = (if msg_type m = kUpdate \<and> venue_time_ns m \<noteq> 0
    then deliver (Recorded kExchangeToParseStart (parse_start_ns p - venue_time_ns m)) p else p)"
  have q: "parser_ok q" using ok by (simp add: q_def parser_ok_record)
  have check: "checksum_check q = checksum_check p" by (simp add: q_def)
  have rt: "map_of (routes q) (msg_symbol m) = Some rt" and gate: "msg_type m = kUpdate \<longrightarrow> \<not> awaiting_snapshot rt"
    using Some by (auto simp: FindRoute_Some q_def)
  have rok: "route_ok (checksum_check q) (history q) rt" and hok: "history_ok (checksum_check q) (history q)"
    using q rt by (auto simp: parser_ok_def)
  have first: "stretch (rt_receiver rt) (history q) = [] \<Longrightarrow> msg_type m = kSnapshot"
    using rok gate by (cases "msg_type m") (auto simp: route_ok_def)
  show "parser_ok (L2Parser_Emit m p)"
  proof (cases "checksum_check q")
    case None
    have "parser_ok (deliver (Receive (rt_receiver rt) m) (set_route (msg_symbol m) (rt\<lparr>awaiting_snapshot := False\<rparr>) q))"
      by (rule parser_ok_event [OF q rt]) (use rok hok first None in \<open>auto simp: route_ok_def may_receive_def\<close>)
    then show ?thesis using Some None check by (simp add: L2Parser_Emit_def q_def [symmetric] Let_def)
  next
    case (Some f)
    let ?b = "Book_Apply m (rt_book rt)"
    have b: "?b = replay (depth_of (rt_receiver rt) (history q)) (stretch (rt_receiver rt) (history q) @ [m])"
      by (rule routed_book [OF rok _ gate]) (simp add: Some)
    have good: "parser_ok (deliver (Receive (rt_receiver rt) m)
        (set_route (msg_symbol m) (rt\<lparr>awaiting_snapshot := False, rt_book := ?b\<rparr>) q))"
      if "checksum m \<noteq> 0 \<longrightarrow> f ?b = checksum m"
      by (rule parser_ok_event [OF q rt])
        (use rok hok first Some that b in \<open>auto simp: route_ok_def may_receive_def\<close>)
    have bad: "parser_ok (deliver (OnMismatch (msg_symbol m)) (deliver (OnGap (rt_receiver rt) kResubscribing)
        (set_route (msg_symbol m) (rt\<lparr>awaiting_snapshot := True, rt_book := Book_Clear ?b\<rparr>) q)))"
      by (rule parser_ok_record, rule parser_ok_event [OF q rt])
        (use rok hok Some in \<open>auto simp: route_ok_def Book_Clear_def\<close>)
    show ?thesis using \<open>FindRoute p _ _ = Some rt\<close> Some check good bad
      by (auto simp: L2Parser_Emit_def q_def [symmetric] Let_def)
  qed
qed

lemma map_of_map_routes: "map_of (map (\<lambda>(k, v). (k, f v)) m) k = map_option f (map_of m k)"
  by (induction m) auto

lemma ordered_map_routes: "ordered lt (map (\<lambda>(k, v). (k, f v)) m) = ordered lt m"
  by (auto simp: ordered_def sorted_wrt_map split_beta)

lemma L2Parser_Start_ok: "parser_ok p \<Longrightarrow> parser_ok (L2Parser_Start p)"
  by (fastforce simp: parser_ok_def L2Parser_Start_def ordered_map_routes map_of_map_routes route_ok_def)

lemma L2Parser_Detach_ok: "parser_ok p \<Longrightarrow> parser_ok (L2Parser_Detach symbol p)"
  by (simp add: parser_ok_def L2Parser_Detach_def map_ops)

lemma L2Parser_Attach_ok:
  assumes "parser_ok p" and "r \<notin> receivers p" and "L2Parser_Attach symbol precision depth r p = Inr p'"
  shows "parser_ok p'"
proof -
  have other: "route_ok (checksum_check p) (Attached r depth # history p) rt"
    if "map_of (routes p) s = Some rt" for s rt
  proof -
    have "rt_receiver rt \<noteq> r" using assms(2) that by (auto simp: receivers_def)
    then show ?thesis using assms(1) that by (auto simp: parser_ok_def route_ok_def)
  qed
  have free: "map_of (routes p) symbol = None" and p': "p' = deliver (Attached r depth) (set_route symbol
      \<lparr>rt_precision = precision, rt_receiver = r, awaiting_snapshot = True, rt_book = Book_of_depth depth\<rparr> p)"
    using assms(3) by (simp_all add: L2Parser_Attach_def split: if_splits)
  have new: "rt_receiver rt \<noteq> r" if "map_of (routes p) s = Some rt" for s rt
    using assms(2) that by (auto simp: receivers_def)
  have inj: "s = s'" if "map_of (routes p) s = Some rt" "map_of (routes p) s' = Some rt'"
    "rt_receiver rt = rt_receiver rt'" for s s' rt rt'
    using assms(1) that unfolding parser_ok_def by blast
  have "ordered (<) (routes p')" "history_ok (checksum_check p') (history p')"
    using assms(1) by (simp_all add: p' parser_ok_def map_ops)
  moreover have "route_ok (checksum_check p') (history p') rt" if "map_of (routes p') s = Some rt" for s rt
    using that other by (auto simp: p' map_ops route_ok_def split: if_splits)
  moreover have "s = s'" if "map_of (routes p') s = Some rt" "map_of (routes p') s' = Some rt'"
    "rt_receiver rt = rt_receiver rt'" for s s' rt rt'
    using that new inj by (fastforce simp: p' map_ops split: if_splits)
  ultimately show ?thesis unfolding parser_ok_def by blast
qed

section \<open>Between connections\<close>

text \<open>
  What is left of the invariant when the connection ends: its receivers have seen
  a gap that only the next start tells the routes. Which receiver a pair goes to,
  and at which depth, is what the manager knows of the routes.
\<close>

definition parser_weak :: "L2Parser \<Rightarrow> bool" where
  "parser_weak p \<longleftrightarrow> parser_ok (L2Parser_Start p)"

definition routed :: "L2Parser \<Rightarrow> string \<Rightarrow> (receiver \<times> u32) option" where
  "routed p symbol = map_option (\<lambda>rt. (rt_receiver rt, bk_depth (rt_book rt))) (map_of (routes p) symbol)"

lemma parser_ok_weak: "parser_ok p \<Longrightarrow> parser_weak p"
  by (simp add: parser_weak_def L2Parser_Start_ok)

lemma parser_weak_iff:
  "parser_weak p \<longleftrightarrow> ordered (<) (routes p) \<and> history_ok (checksum_check p) (history p) \<and>
     (\<forall>symbol rt. map_of (routes p) symbol = Some rt \<longrightarrow>
        bk_depth (rt_book rt) = depth_of (rt_receiver rt) (history p)) \<and>
     (\<forall>symbol symbol' rt rt'. map_of (routes p) symbol = Some rt \<longrightarrow> map_of (routes p) symbol' = Some rt' \<longrightarrow>
        rt_receiver rt = rt_receiver rt' \<longrightarrow> symbol = symbol')"
  unfolding parser_weak_def parser_ok_def
  by (simp add: L2Parser_Start_def ordered_map_routes map_of_map_routes route_ok_def) fastforce

lemma parser_weak_gap: "parser_weak p \<Longrightarrow> parser_weak (deliver (OnGap r g) p)"
  by (simp add: parser_weak_iff)

lemma parser_weak_start_ns [simp]: "parser_weak (p\<lparr>parse_start_ns := t\<rparr>) = parser_weak p"
  by (simp add: parser_weak_iff)

lemma L2Parser_Detach_weak: "parser_weak p \<Longrightarrow> parser_weak (L2Parser_Detach symbol p)"
  by (simp add: parser_weak_iff L2Parser_Detach_def map_ops)

lemma L2Parser_Attach_weak:
  assumes "parser_weak p" and "r \<notin> receivers p" and "L2Parser_Attach symbol precision depth r p = Inr p'"
  shows "parser_weak p'"
proof -
  have "map_of (routes p) symbol = None" and p': "p' = deliver (Attached r depth) (set_route symbol
      \<lparr>rt_precision = precision, rt_receiver = r, awaiting_snapshot = True, rt_book = Book_of_depth depth\<rparr> p)"
    using assms(3) by (simp_all add: L2Parser_Attach_def split: if_splits)
  moreover have "rt_receiver rt \<noteq> r" if "map_of (routes p) s = Some rt" for s rt
    using assms(2) that by (auto simp: receivers_def)
  ultimately show ?thesis
    using assms(1) unfolding parser_weak_iff
    by (simp add: map_ops) metis
qed

lemma receivers_routed: "r \<in> receivers p \<longleftrightarrow> (\<exists>symbol d. routed p symbol = Some (r, d))"
  by (auto simp: receivers_def routed_def)

lemma routed_simps [simp]:
  "routed (L2Parser_new check) symbol = None"
  "routed (deliver e p) = routed p"
  "routed (p\<lparr>parse_start_ns := t\<rparr>) = routed p"
  "routed (L2Parser_Start p) = routed p"
  "routed (L2Parser_Emit m p) = routed p"
proof -
  show "routed (L2Parser_Emit m p) = routed p"
    by (auto simp: fun_eq_iff routed_def L2Parser_Emit_def Let_def FindRoute_Some Book_Clear_def
        map_ops split: option.split)
qed (auto simp: fun_eq_iff routed_def L2Parser_new_def L2Parser_Start_def map_of_map_routes option.map_comp comp_def)

lemma routed_Detach: "ordered (<) (routes p) \<Longrightarrow> routed (L2Parser_Detach symbol p) = (routed p)(symbol := None)"
  by (simp add: fun_eq_iff routed_def L2Parser_Detach_def map_ops)

lemma routed_Attach:
  "L2Parser_Attach symbol precision depth r p = Inr p' \<Longrightarrow> routed p' = (routed p)(symbol \<mapsto> (r, depth))"
  by (auto simp: fun_eq_iff routed_def L2Parser_Attach_def map_ops split: if_splits)

lemma Attach_free: "routed p symbol = None \<Longrightarrow> \<exists>p'. L2Parser_Attach symbol precision depth r p = Inr p'"
  by (simp add: routed_def L2Parser_Attach_def)

section \<open>Runs\<close>

text \<open>
  Everything that can happen to a parser and the decoder of its connection, in
  any order: the manager attaches and detaches receivers and starts it over with
  a fresh decoder, and frames are dispatched. A frame the decoder throws on ends
  the connection; the emissions before it stay.
\<close>

inductive parser_reach ::
    "('d, L2Parser) decode \<Rightarrow> 'd \<Rightarrow> (Book \<Rightarrow> u32) option \<Rightarrow> 'd \<Rightarrow> L2Parser \<Rightarrow> bool"
  for Decode :: "('d, L2Parser) decode" and fresh :: 'd and check :: "(Book \<Rightarrow> u32) option" where
  reach_new: "parser_reach Decode fresh check fresh (L2Parser_new check)"
| reach_start: "parser_reach Decode fresh check d p \<Longrightarrow> parser_reach Decode fresh check fresh (L2Parser_Start p)"
| reach_attach: "parser_reach Decode fresh check d p \<Longrightarrow> r \<notin> receivers p \<Longrightarrow>
     L2Parser_Attach symbol precision depth r p = Inr p' \<Longrightarrow> parser_reach Decode fresh check d p'"
| reach_detach: "parser_reach Decode fresh check d p \<Longrightarrow> parser_reach Decode fresh check d (L2Parser_Detach symbol p)"
| reach_dispatch: "parser_reach Decode fresh check d p \<Longrightarrow>
     L2Parser_Dispatch Decode now later frame (d, p) = ((d', p'), res) \<Longrightarrow> parser_reach Decode fresh check d' p'"

lemma check_simps [simp]:
  "checksum_check (L2Parser_new check) = check" "checksum_check (L2Parser_Start p) = checksum_check p"
  "checksum_check (L2Parser_Detach s p) = checksum_check p"
  "checksum_check (L2Parser_Emit m p) = checksum_check p"
  by (simp_all add: L2Parser_new_def L2Parser_Start_def L2Parser_Detach_def L2Parser_Emit_def Let_def
      split: option.splits)

locale parser_decoder = l2_decoder Decode for Decode :: "('d, L2Parser) decode"
begin

lemma Dispatch_ok:
  assumes "parser_ok p" and "L2Parser_Dispatch Decode now later frame (d, p) = ((d', p'), res)"
  shows "parser_ok p' \<and> checksum_check p' = checksum_check p"
proof -
  let ?P = "\<lambda>q. parser_ok q \<and> checksum_check q = checksum_check p"
  obtain d1 q r where run: "Decode L2Parser_Find L2Parser_Emit frame d (p\<lparr>parse_start_ns := now\<rparr>) = ((d1, q), r)"
    by (metis surj_pair)
  have "?P q"
    by (rule decode_keeps [OF run]) (use assms(1) in \<open>auto simp: parser_ok_start_ns L2Parser_Emit_ok\<close>)
  then show ?thesis using assms(2) run by (auto simp: L2Parser_Dispatch_def parser_ok_record split: sum.splits)
qed

lemma Dispatch_routed:
  assumes "L2Parser_Dispatch Decode now later frame (d, p) = ((d', p'), res)"
  shows "routed p' = routed p"
proof -
  obtain d1 q r where run: "Decode L2Parser_Find L2Parser_Emit frame d (p\<lparr>parse_start_ns := now\<rparr>) = ((d1, q), r)"
    by (metis surj_pair)
  have "routed q = routed p" by (rule decode_keeps [OF run]) simp_all
  then show ?thesis using assms run by (auto simp: L2Parser_Dispatch_def split: sum.splits)
qed

lemma reach_ok: "parser_reach Decode fresh check d p \<Longrightarrow> parser_ok p \<and> checksum_check p = check"
proof (induction rule: parser_reach.induct)
  case (reach_attach d p r symbol precision depth p')
  then have "parser_ok p'" using L2Parser_Attach_ok by blast
  then show ?case using reach_attach by (auto simp: L2Parser_Attach_def split: if_splits)
next
  case (reach_dispatch d p now later frame d' p' res)
  then show ?case using Dispatch_ok by blast
qed (simp_all add: L2Parser_Start_ok L2Parser_Detach_ok)

lemma received_is_checked:
  "parser_reach Decode fresh check d p \<Longrightarrow> history p = later @ Receive r m # earlier \<Longrightarrow> may_receive check r m earlier"
  using reach_ok history_ok_split by (metis parser_ok_def)

end

interpretation kraken_parser: parser_decoder "Kraken_Decode parse unspec"
  by unfold_locales

interpretation coinbase_parser: parser_decoder "Coinbase_Decode parse unspec"
  by unfold_locales

section \<open>Properties\<close>

text \<open>
  C5. Whatever attaches, detaches, reconnections and frames happened, a Kraken
  receiver's stream since it last broke starts with a snapshot, and the book it
  replays to with any message it receives has the checksum Kraken sent with it.
\<close>

theorem kraken_receives_only_verified:
  assumes "parser_reach (Kraken_Decode parse unspec) () (Some BookChecksum) d p"
    and "history p = later @ Receive r m # earlier"
  shows "(stretch r earlier = [] \<longrightarrow> msg_type m = kSnapshot) \<and>
    (checksum m \<noteq> 0 \<longrightarrow> BookChecksum (replay (depth_of r earlier) (stretch r earlier @ [m])) = checksum m)"
  using kraken_parser.received_is_checked [OF assms] by (simp add: may_receive_def)

definition demo_json :: "u32 \<Rightarrow> string \<Rightarrow> json option" where
  "demo_json crc s =
     (if length s < 200 then None
      else Some (book_frame ''snapshot'' ''A/B'' [((''1'', ''2''), (''3'', ''00''))] [] crc ''x''))"

definition demo_parser :: L2Parser where
  "demo_parser = (case L2Parser_Attach ''A/B'' \<lparr>price_decimals = 1, qty_decimals = 2\<rparr> 10 5
     (L2Parser_new (Some BookChecksum)) of Inr p \<Rightarrow> p | Inl e \<Rightarrow> L2Parser_new None)"

definition demo_frame :: RawFrame where
  "demo_frame = \<lparr>json_text = replicate 200 (CHR '' ''), frame_capture_time_ns = 7\<rparr>"

lemma demo_frame_typed [simp]: "frame_typed demo_frame"
  by (simp add: frame_typed_def demo_frame_def i64_range)

definition demo_message :: Message where
  "demo_message = \<lparr>msg_type = kSnapshot, checksum = 3757247383, venue_time_ns = 0, capture_time_ns = 7,
     msg_symbol = ''A/B'', buys = [\<lparr>price = 12, quantity = 300\<rparr>], sells = []\<rparr>"

definition demo_book :: Book where
  "demo_book = Book_Apply demo_message (Book_of_depth 10)"

lemma demo_checksum: "BookChecksum demo_book = 3757247383"
proof -
  have b: "demo_book = \<lparr>bk_depth = 10, bk_bids = [(12, 300)], bk_asks = []\<rparr>"
    by (simp add: demo_book_def demo_message_def Book_Apply_def Book_Clear_def Book_of_depth_def ApplyLevels_def)
  have "bk_bids demo_book = [(12, 300)]" "bk_asks demo_book = []" unfolding b by simp_all
  moreover have "int_to_dec 12 = ''12''" "int_to_dec 300 = ''300''" by code_simp+
  ultimately have "BookChecksum demo_book = Crc32 ''12300''"
    by (simp add: BookChecksum_def AppendSide_def kChecksumDepth_def)
  also have "\<dots> = 3757247383" unfolding Crc32_def Crc32_loop_serial by code_simp
  finally show ?thesis .
qed

lemma demo_decode:
  assumes "Find out ''A/B'' kSnapshot = Some \<lparr>price_decimals = 1, qty_decimals = 2\<rparr>"
  shows "Kraken_Decode (demo_json crc) (\<lambda>_ _ _. 0) Find Emit demo_frame d out =
    ((d, Emit (demo_message\<lparr>checksum := crc\<rparr>) out), Inr ())"
proof -
  let ?p = "\<lparr>price_decimals = 1, qty_decimals = 2\<rparr>"
  have v: "scaled_value ''1'' ''2'' (Suc 0) = 12" "scaled_value ''3'' ''00'' 2 = 300"
    by (simp_all add: scaled_value_def eval_digits)
  have "list_all (level_text_ok ?p) [((''1'', ''2''), (''3'', ''00''))]"
    by (simp add: level_text_ok_def decimal_ok_def v is_digit_def)
  moreover have "ParseIso8601ToUnixNanos (\<lambda>_ _ _. 0) ''x'' = Inr None"
    by (simp add: ParseIso8601ToUnixNanos_def kSecondsEnd_def)
  ultimately have "BookMessage (\<lambda>_ _ _. 0) (book_data ''A/B'' [((''1'', ''2''), (''3'', ''00''))] [] crc ''x'')
      kSnapshot ''A/B'' 7 ?p = Inr (demo_message\<lparr>checksum := crc\<rparr>)"
    using v by (subst BookMessage_book_data [where time = None]) (simp_all add: demo_message_def scaled_level_def scaled_def)
  moreover have frame: "demo_json crc (json_text demo_frame) =
      Some (book_frame ''snapshot'' ''A/B'' [((''1'', ''2''), (''3'', ''00''))] [] crc ''x'')"
    "frame_capture_time_ns demo_frame = 7"
    by (simp_all add: demo_json_def demo_frame_def)
  ultimately show ?thesis
    using assms by (subst Kraken_Decode_book_frame [where parse = "demo_json crc" and frame = demo_frame, OF frame(1)]) simp
qed

lemma demo_history:
  "history (snd (fst (L2Parser_Dispatch (Kraken_Decode (demo_json 3757247383) (\<lambda>_ _ _. 0)) 0 1 demo_frame
     ((), demo_parser)))) = [Recorded kReceiveToParseComplete 1, Receive 5 demo_message, Attached 5 10]"
proof -
  have same: "demo_message\<lparr>checksum := 3757247383\<rparr> = demo_message" by (simp add: demo_message_def)
  have "msg_symbol demo_message = ''A/B''" "msg_type demo_message = kSnapshot"
    "checksum demo_message = 3757247383" by (simp_all add: demo_message_def)
  moreover have "BookChecksum (Book_Apply demo_message (Book_of_depth 10)) = 3757247383"
    using demo_checksum by (simp add: demo_book_def)
  ultimately show ?thesis
    by (simp add: same L2Parser_Dispatch_def demo_decode L2Parser_Find_def FindRoute_def demo_parser_def
        L2Parser_Attach_def L2Parser_new_def L2Parser_Emit_def Let_def)
qed

theorem kraken_receives_only_verified_witness:
  "BookChecksum (replay 10 [demo_message]) = 3757247383"
proof -
  let ?run = "L2Parser_Dispatch (Kraken_Decode (demo_json 3757247383) (\<lambda>_ _ _. 0)) 0 1 demo_frame ((), demo_parser)"
  have "parser_reach (Kraken_Decode (demo_json 3757247383) (\<lambda>_ _ _. 0)) () (Some BookChecksum) () demo_parser"
    by (rule reach_attach [OF reach_new, of 5 _ "''A/B''" "\<lparr>price_decimals = 1, qty_decimals = 2\<rparr>" 10])
      (simp_all add: receivers_def L2Parser_new_def demo_parser_def L2Parser_Attach_def)
  then have "parser_reach (Kraken_Decode (demo_json 3757247383) (\<lambda>_ _ _. 0)) () (Some BookChecksum)
      (fst (fst ?run)) (snd (fst ?run))"
    by (rule reach_dispatch [where res = "snd ?run"]) (simp only: prod.collapse)
  from kraken_receives_only_verified [OF this, of "[Recorded kReceiveToParseComplete 1]" 5 demo_message
      "[Attached 5 10]"]
  show ?thesis by (simp add: demo_history) (simp add: demo_message_def)
qed

text \<open>
  C23. A change whose checksum differs from the book's is not delivered: its
  receiver is told of the gap and the mismatch is reported, every later update of
  the pair is dropped until a snapshot, which is still wanted, and no other pair's
  route changes.
\<close>

theorem mismatch_stops_the_pair:
  assumes "checksum_check p = Some check" and "FindRoute p (msg_symbol m) (msg_type m) = Some rt"
    and "checksum m \<noteq> 0" and "check (Book_Apply m (rt_book rt)) \<noteq> checksum m"
    and "list_all (\<lambda>u. msg_symbol u = msg_symbol m \<and> msg_type u = kUpdate) us"
  shows "fold L2Parser_Emit us (L2Parser_Emit m p) = L2Parser_Emit m p \<and>
    (\<exists>timed. set timed \<subseteq> {Recorded kExchangeToParseStart (parse_start_ns p - venue_time_ns m)} \<and>
       history (L2Parser_Emit m p) =
         OnMismatch (msg_symbol m) # OnGap (rt_receiver rt) kResubscribing # timed @ history p) \<and>
    L2Parser_Find (L2Parser_Emit m p) (msg_symbol m) kSnapshot = Some (rt_precision rt) \<and>
    (\<forall>symbol. symbol \<noteq> msg_symbol m \<longrightarrow>
       map_of (routes (L2Parser_Emit m p)) symbol = map_of (routes p) symbol)"
proof -
  let ?timed = "if msg_type m = kUpdate \<and> venue_time_ns m \<noteq> 0
    then [Recorded kExchangeToParseStart (parse_start_ns p - venue_time_ns m)] else []"
  let ?p = "L2Parser_Emit m p"
  have hist: "history ?p = OnMismatch (msg_symbol m) # OnGap (rt_receiver rt) kResubscribing # ?timed @ history p"
    and routes: "map_of (routes ?p) = (map_of (routes p))(msg_symbol m \<mapsto>
      rt\<lparr>awaiting_snapshot := True, rt_book := Book_Clear (Book_Apply m (rt_book rt))\<rparr>)"
    using assms(1-4) by (simp_all add: L2Parser_Emit_def Let_def map_ops)
  have drop: "L2Parser_Emit u ?p = ?p" if "msg_symbol u = msg_symbol m" "msg_type u = kUpdate" for u
    using that routes by (simp add: L2Parser_Emit_def [of u] FindRoute_def)
  have "fold L2Parser_Emit us ?p = ?p"
    using assms(5) by (induction us) (simp_all add: drop)
  moreover have "L2Parser_Find ?p (msg_symbol m) kSnapshot = Some (rt_precision rt)"
    using routes by (simp add: L2Parser_Find_def FindRoute_def)
  moreover have "set ?timed \<subseteq> {Recorded kExchangeToParseStart (parse_start_ns p - venue_time_ns m)}" by auto
  ultimately show ?thesis using hist routes by auto
qed

theorem mismatch_stops_the_pair_witness:
  "history (L2Parser_Emit (demo_message\<lparr>checksum := 1\<rparr>) demo_parser) =
     [OnMismatch ''A/B'', OnGap 5 kResubscribing, Attached 5 10] \<and>
   L2Parser_Emit (demo_message\<lparr>msg_type := kUpdate\<rparr>) (L2Parser_Emit (demo_message\<lparr>checksum := 1\<rparr>) demo_parser) =
     L2Parser_Emit (demo_message\<lparr>checksum := 1\<rparr>) demo_parser"
proof -
  let ?m = "demo_message\<lparr>checksum := 1\<rparr>"
  let ?rt = "\<lparr>rt_precision = \<lparr>price_decimals = 1, qty_decimals = 2\<rparr>, rt_receiver = 5, awaiting_snapshot = True,
    rt_book = Book_of_depth 10\<rparr>"
  have "Book_Apply ?m (Book_of_depth 10) = demo_book"
    by (simp add: demo_book_def Book_Apply_def demo_message_def)
  then have "BookChecksum (Book_Apply ?m (Book_of_depth 10)) \<noteq> 1" using demo_checksum by simp
  moreover have "checksum_check demo_parser = Some BookChecksum" "history demo_parser = [Attached 5 10]"
    "FindRoute demo_parser ''A/B'' kSnapshot = Some ?rt"
    by (simp_all add: demo_parser_def L2Parser_Attach_def L2Parser_new_def FindRoute_def)
  ultimately show ?thesis
    using mismatch_stops_the_pair [of demo_parser BookChecksum ?m ?rt "[demo_message\<lparr>msg_type := kUpdate\<rparr>]"]
    by (auto simp: demo_message_def L2Parser_Emit_def Let_def)
qed

end
