(* ===== verification/VenueL2Manager.thy ===== *)
theory VenueL2Manager
  imports VenueL2Parser VenueAdapter
begin

text \<open>
  venue/l2_manager.h and venue/l2_manager.cc: one venue's subscriptions. Each
  public method runs under the life cycle lock and is one step here, but
  \<^verbatim>\<open>Subscribe\<close>, whose round trip to the venue is outside the lock and takes the
  state at either lock. The network thread and the parser thread take a step per
  frame. A receiver is named by its subscription's id and its calls are in the
  parser's history; the feed's connection is the list of texts it was given to send.
\<close>

section \<open>The code: state\<close>

record Subscription =
  sub_book :: BookSpec
  sub_start_time_ns :: i64

record 'd L2Manager =
  connected :: bool
  failed :: bool
  subscriptions :: "(SubscriptionId \<times> Subscription) list"
  parser :: L2Parser
  parser_running :: bool
  decoder :: 'd
  raw_frames_queue :: "RawFrame list"
  feed :: "string list option"
  pending_resubscribes :: "string list"
  resubscribing :: "string option"
  last_resubscribed :: "(string \<times> int) list"
  pairs :: "string list"
  pairs_fetched_at :: int

text \<open>The steady clock in nanoseconds.\<close>

definition kMinResubscribeInterval :: int where "kMinResubscribeInterval = 1000000000"
definition kPairsLifetime :: int where "kPairsLifetime = 300000000000"

definition L2Manager_new :: "'w Adapter \<Rightarrow> 'd \<Rightarrow> 'd L2Manager" where
  "L2Manager_new a fresh =
     \<lparr>connected = False, failed = False, subscriptions = [], parser = L2Parser_new (ad_book_checksum a),
      parser_running = False, decoder = fresh, raw_frames_queue = [], feed = None,
      pending_resubscribes = [], resubscribing = None, last_resubscribed = [], pairs = [], pairs_fetched_at = 0\<rparr>"

definition healthy :: "'d L2Manager \<Rightarrow> bool" where
  "healthy m \<longleftrightarrow> connected m \<and> \<not> failed m"

section \<open>The code: the feed and the parser thread\<close>

definition Feed_Send :: "string \<Rightarrow> 'd L2Manager \<Rightarrow> 'd L2Manager" where
  "Feed_Send str m = m\<lparr>feed := map_option (\<lambda>sent. sent @ [str]) (feed m)\<rparr>"

definition SendLocked :: "'w Adapter \<Rightarrow> BookRequest \<Rightarrow> BookSpec \<Rightarrow> 'd L2Manager \<Rightarrow> 'd L2Manager" where
  "SendLocked a request book m = (if connected m then Feed_Send (ad_MakeBookRequest a request book) m else m)"

definition RequestResubscribe :: "string \<Rightarrow> 'd L2Manager \<Rightarrow> 'd L2Manager" where
  "RequestResubscribe symbol m =
     (if symbol \<in> set (pending_resubscribes m) then m
      else m\<lparr>pending_resubscribes := pending_resubscribes m @ [symbol]\<rparr>)"

text \<open>The mismatch handler's calls of one dispatch: the reports it added, oldest first.\<close>

fun reports :: "delivery list \<Rightarrow> string list" where
  "reports [] = []"
| "reports (e # h) = reports h @ (case e of OnMismatch symbol \<Rightarrow> [symbol] | _ \<Rightarrow> [])"

definition new_reports :: "L2Parser \<Rightarrow> L2Parser \<Rightarrow> string list" where
  "new_reports p p' = reports (take (length (history p') - length (history p)) (history p'))"

text \<open>
  The parser thread consumes one frame, with two readings of the clock. A decoder
  that throws ends the thread and fails the pipeline.
\<close>

definition Parser_Consume ::
    "('d, L2Parser) decode \<Rightarrow> i64 \<times> i64 \<Rightarrow> RawFrame \<Rightarrow> 'd L2Manager \<Rightarrow> 'd L2Manager" where
  "Parser_Consume Decode clock frame m =
     (case L2Parser_Dispatch Decode (fst clock) (snd clock) frame (decoder m, parser m) of
        ((d, p), r) \<Rightarrow>
          let m = fold RequestResubscribe (new_reports (parser m) p) (m\<lparr>decoder := d, parser := p\<rparr>)
          in case r of Inr _ \<Rightarrow> m | Inl _ \<Rightarrow> m\<lparr>parser_running := False, failed := True\<rparr>)"

definition Parser_Step ::
    "('d, L2Parser) decode \<Rightarrow> i64 \<times> i64 \<Rightarrow> 'd L2Manager \<Rightarrow> 'd L2Manager" where
  "Parser_Step Decode clock m =
     (case raw_frames_queue m of
        [] \<Rightarrow> m
      | frame # rest \<Rightarrow>
          if parser_running m then Parser_Consume Decode clock frame (m\<lparr>raw_frames_queue := rest\<rparr>) else m)"

text \<open>\<^verbatim>\<open>Stop\<close> lets a live thread drain the queue; a dead one leaves what it holds.\<close>

fun drain :: "('d, L2Parser) decode \<Rightarrow> (nat \<Rightarrow> i64 \<times> i64) \<Rightarrow> nat \<Rightarrow> 'd L2Manager \<Rightarrow> 'd L2Manager" where
  "drain Decode clock 0 m = m"
| "drain Decode clock (Suc n) m = drain Decode clock n (Parser_Step Decode (clock n) m)"

definition Parser_Stop ::
    "('d, L2Parser) decode \<Rightarrow> (nat \<Rightarrow> i64 \<times> i64) \<Rightarrow> 'd L2Manager \<Rightarrow> 'd L2Manager" where
  "Parser_Stop Decode clock m =
     (drain Decode clock (length (raw_frames_queue m)) m)\<lparr>parser_running := False\<rparr>"

section \<open>The code: connecting\<close>

definition DisconnectLocked ::
    "('d, L2Parser) decode \<Rightarrow> (nat \<Rightarrow> i64 \<times> i64) \<Rightarrow> 'd L2Manager \<Rightarrow> 'd L2Manager" where
  "DisconnectLocked Decode clock m =
     (let m = Parser_Stop Decode clock (m\<lparr>feed := None\<rparr>);
          m = m\<lparr>raw_frames_queue := []\<rparr>;
          m = (if connected m
               then m\<lparr>parser := fold (\<lambda>(i, s). deliver (OnGap i kDisconnected)) (subscriptions m) (parser m)\<rparr>
               else m)
      in m\<lparr>connected := False\<rparr>)"

text \<open>\<open>opened\<close> is what opening the connection comes to.\<close>

definition L2Manager_Connect ::
    "'w Adapter \<Rightarrow> ('d, L2Parser) decode \<Rightarrow> 'd \<Rightarrow> (nat \<Rightarrow> i64 \<times> i64) \<Rightarrow> unit result \<Rightarrow>
       'd L2Manager \<Rightarrow> 'd L2Manager \<times> unit result" where
  "L2Manager_Connect a Decode fresh clock opened m =
     (if healthy m then (m, Inr ())
      else
        let m = DisconnectLocked Decode clock m;
            m = m\<lparr>failed := False, parser := L2Parser_Start (parser m), decoder := fresh, parser_running := True\<rparr>
        in case opened of
             Inl e \<Rightarrow> (Parser_Stop Decode clock m, Inl e)
           | Inr _ \<Rightarrow>
               let m = m\<lparr>feed := Some [], connected := True\<rparr>;
                   m = fold Feed_Send (ad_ConnectRequests a) m;
                   m = fold (\<lambda>(i, s). SendLocked a kSubscribe (sub_book s)) (subscriptions m) m
               in (m, Inr ()))"

section \<open>The code: subscribing\<close>

definition FindSymbolLocked :: "'d L2Manager \<Rightarrow> string \<Rightarrow> (SubscriptionId \<times> Subscription) option" where
  "FindSymbolLocked m symbol = List.find (\<lambda>(i, s). bs_symbol (sub_book s) = symbol) (subscriptions m)"

definition depths_text :: "u32 list \<Rightarrow> string" where
  "depths_text ds =
     ''['' @ concat (case ds of [] \<Rightarrow> [] | d # ds \<Rightarrow>
        nat_to_dec (unat d) # map (\<lambda>d. '', '' @ nat_to_dec (unat d)) ds) @ '']''"

definition CheckBook :: "'w Adapter \<Rightarrow> BookSpec \<Rightarrow> unit expected" where
  "CheckBook a book =
     (if bs_depth book \<notin> set (ad_depths a)
      then Failure kInvalidDepth (ad_name a @ '' has no L2 depth '' @ nat_to_dec (unat (bs_depth book)) @
             '', only '' @ depths_text (ad_depths a))
      else ad_CheckSymbol a (bs_symbol book))"

definition ResolveTakenLocked ::
    "'d L2Manager \<Rightarrow> SubscriptionId \<Rightarrow> BookSpec \<Rightarrow> SubscriptionId expected option result" where
  "ResolveTakenLocked m i book =
     (if map_of (subscriptions m) i \<noteq> None
      then Inl (logic_error (''Subscription id '' @ nat_to_dec (unat i) @ '' is already in use''))
      else case FindSymbolLocked m (bs_symbol book) of
        None \<Rightarrow> Inr None
      | Some (j, taken) \<Rightarrow>
          let existing_depth = bs_depth (sub_book taken)
          in if SinkOf i = kRecord \<and> SinkOf j = kRecord \<and> existing_depth = bs_depth book
             then Inr (Some (Inr j))
             else Inr (Some (Failure kSymbolInUse (bs_symbol book @ '' is already subscribed to by subscription '' @
                    nat_to_dec (unat j) @ '' at depth '' @ nat_to_dec (unat existing_depth)))))"

text \<open>Under the second lock, with the precision; \<open>built\<close> is what building the receiver comes to.\<close>

definition SubscribeLocked ::
    "'w Adapter \<Rightarrow> SubscriptionId \<Rightarrow> BookSpec \<Rightarrow> PairPrecision \<Rightarrow> i64 \<Rightarrow> unit result \<Rightarrow>
       'd L2Manager \<Rightarrow> 'd L2Manager \<times> SubscriptionId expected result" where
  "SubscribeLocked a i book precision started built m =
     (case ResolveTakenLocked m i book of
        Inl e \<Rightarrow> (m, Inl e)
      | Inr (Some taken) \<Rightarrow> (m, Inr taken)
      | Inr None \<Rightarrow>
          (case built of
             Inl e \<Rightarrow> (m, Inl e)
           | Inr _ \<Rightarrow>
               let m = m\<lparr>subscriptions :=
                 emplace (<) i \<lparr>sub_book = book, sub_start_time_ns = started\<rparr> (subscriptions m)\<rparr>
               in (case L2Parser_Attach (bs_symbol book) precision (bs_depth book) i (parser m) of
                     Inl e \<Rightarrow> (m\<lparr>subscriptions := erase (<) i (subscriptions m)\<rparr>, Inl e)
                   | Inr p \<Rightarrow> (SendLocked a kSubscribe book (m\<lparr>parser := p\<rparr>), Inr (Inr i)))))"

definition L2Manager_Subscribe ::
    "'w Adapter \<Rightarrow> 'w \<Rightarrow> SubscriptionId \<Rightarrow> BookSpec \<Rightarrow> i64 \<Rightarrow> unit result \<Rightarrow> 'd L2Manager \<Rightarrow>
       'd L2Manager \<Rightarrow> 'd L2Manager \<times> SubscriptionId expected result" where
  "L2Manager_Subscribe a world i book started built first_locked m =
     (case CheckBook a book of
        Inl e \<Rightarrow> (m, Inr (Inl e))
      | Inr _ \<Rightarrow>
          (case ResolveTakenLocked first_locked i book of
             Inl e \<Rightarrow> (m, Inl e)
           | Inr (Some taken) \<Rightarrow> (m, Inr taken)
           | Inr None \<Rightarrow>
               (case ad_FetchPrecision a world (bs_symbol book) of
                  Inl e \<Rightarrow> (m, Inr (Inl e))
                | Inr precision \<Rightarrow> SubscribeLocked a i book precision started built m)))"

definition L2Manager_Unsubscribe ::
    "'w Adapter \<Rightarrow> SubscriptionId \<Rightarrow> 'd L2Manager \<Rightarrow> 'd L2Manager \<times> unit expected" where
  "L2Manager_Unsubscribe a i m =
     (case map_of (subscriptions m) i of
        None \<Rightarrow> (m, Failure kUnknownId (''No subscription '' @ nat_to_dec (unat i)))
      | Some s \<Rightarrow>
          let m = m\<lparr>parser := L2Parser_Detach (bs_symbol (sub_book s)) (parser m)\<rparr>;
              m = SendLocked a kUnsubscribe (sub_book s) m
          in (m\<lparr>subscriptions := erase (<) i (subscriptions m)\<rparr>, Inr ()))"

definition L2Manager_List :: "'d L2Manager \<Rightarrow> SubscriptionInfo list" where
  "L2Manager_List m =
     map (\<lambda>(i, s). \<lparr>si_id = i, si_book = sub_book s, si_start_time_ns = sub_start_time_ns s\<rparr>) (subscriptions m)"

definition L2Manager_ListPairs ::
    "'w Adapter \<Rightarrow> 'w \<Rightarrow> int \<Rightarrow> 'd L2Manager \<Rightarrow> 'd L2Manager \<times> PairList expected" where
  "L2Manager_ListPairs a world now m =
     (let answer = (\<lambda>m. (m, Inr \<lparr>pl_symbols = pairs m, pl_depths = ad_depths a\<rparr>))
      in if pairs m = [] \<or> now - pairs_fetched_at m \<ge> kPairsLifetime
         then (case ad_FetchPairs a world of
                 Inl e \<Rightarrow> (m, Inl e)
               | Inr fetched \<Rightarrow> answer (m\<lparr>pairs := fetched, pairs_fetched_at := now\<rparr>))
         else answer m)"

section \<open>The code: the resubscriber\<close>

definition Resubscribe :: "'w Adapter \<Rightarrow> string \<Rightarrow> 'd L2Manager \<Rightarrow> 'd L2Manager" where
  "Resubscribe a symbol m =
     (case FindSymbolLocked m symbol of
        None \<Rightarrow> m
      | Some (i, s) \<Rightarrow>
          if connected m
          then SendLocked a kSubscribe (sub_book s) (SendLocked a kUnsubscribe (sub_book s) m)
          else m)"

text \<open>The loop of \<^verbatim>\<open>ResubscribeQueued\<close>: a pair leaves the queue, waits out its interval, is resubscribed.\<close>

definition ResubscribeQueued_take :: "'d L2Manager \<Rightarrow> 'd L2Manager" where
  "ResubscribeQueued_take m =
     (case (resubscribing m, pending_resubscribes m) of
        (None, symbol # rest) \<Rightarrow> m\<lparr>resubscribing := Some symbol, pending_resubscribes := rest\<rparr>
      | _ \<Rightarrow> m)"

definition interval_over :: "int \<Rightarrow> string \<Rightarrow> 'd L2Manager \<Rightarrow> bool" where
  "interval_over now symbol m =
     (case map_of (last_resubscribed m) symbol of
        None \<Rightarrow> True
      | Some since \<Rightarrow> since + kMinResubscribeInterval \<le> now)"

definition ResubscribeQueued_do :: "'w Adapter \<Rightarrow> int \<Rightarrow> int \<Rightarrow> 'd L2Manager \<Rightarrow> 'd L2Manager" where
  "ResubscribeQueued_do a now later m =
     (case resubscribing m of
        None \<Rightarrow> m
      | Some symbol \<Rightarrow>
          if interval_over now symbol m
          then (Resubscribe a symbol m)\<lparr>resubscribing := None,
                 last_resubscribed := insert_or_assign (<) symbol later (last_resubscribed m)\<rparr>
          else m)"

end
