(* ===== verification/VenueL2ManagerRuns.thy ===== *)
theory VenueL2ManagerRuns
  imports VenueL2Manager KrakenAdapter CoinbaseProducts
begin

text \<open>
  What a venue's manager keeps true over everything that can happen to it: the
  subscription table, what its venue has been asked for, the routes of its parser,
  and what its receivers get. The locale \<open>venue_manager\<close> joins the adapter's and the
  decoder's contracts; it is interpreted on Kraken and on Coinbase.
\<close>

section \<open>The subscription table\<close>

text \<open>Who streams a pair, and at which depth.\<close>

definition table :: "(SubscriptionId \<times> Subscription) list \<Rightarrow> string \<Rightarrow> (SubscriptionId \<times> u32) option" where
  "table subs symbol =
     map_option (\<lambda>(i, s). (i, bs_depth (sub_book s)))
       (List.find (\<lambda>(i, s). bs_symbol (sub_book s) = symbol) subs)"

definition subs_ok :: "'w Adapter \<Rightarrow> (SubscriptionId \<times> Subscription) list \<Rightarrow> bool" where
  "subs_ok a subs \<longleftrightarrow> ordered (<) subs \<and>
     (\<forall>i s. map_of subs i = Some s \<longrightarrow> CheckBook a (sub_book s) = Inr ()) \<and>
     (\<forall>i j s t. map_of subs i = Some s \<longrightarrow> map_of subs j = Some t \<longrightarrow>
        bs_symbol (sub_book s) = bs_symbol (sub_book t) \<longrightarrow> i = j)"

lemma subs_ok_Nil [simp]: "subs_ok a []" "table [] symbol = None"
  by (simp_all add: subs_ok_def table_def)

lemma find_symbol_iff:
  assumes "subs_ok a subs"
  shows "List.find (\<lambda>(i, s). bs_symbol (sub_book s) = symbol) subs = Some (i, s) \<longleftrightarrow>
    map_of subs i = Some s \<and> bs_symbol (sub_book s) = symbol"
    (is "List.find ?P subs = _ \<longleftrightarrow> _")
proof -
  have mem: "map_of subs j = Some t \<longleftrightarrow> (j, t) \<in> set subs" for j t
    using assms by (simp add: subs_ok_def id_less.map_of_mem)
  show ?thesis
  proof (cases "List.find ?P subs")
    case None
    then have "\<not> (map_of subs i = Some s \<and> bs_symbol (sub_book s) = symbol)"
      using mem by (auto simp: find_None_iff)
    with None show ?thesis by auto
  next
    case (Some js)
    then have "js \<in> set subs" "?P js" by (auto simp: find_Some_iff) (metis nth_mem)
    then obtain j t where js: "js = (j, t)" "map_of subs j = Some t" "bs_symbol (sub_book t) = symbol"
      using mem by (cases js) auto
    have "i = j" if "map_of subs i = Some s" "bs_symbol (sub_book s) = symbol"
      using assms that js(2,3) unfolding subs_ok_def by blast
    then show ?thesis using Some js by auto
  qed
qed

lemma FindSymbolLocked_iff:
  "subs_ok a (subscriptions m) \<Longrightarrow>
     FindSymbolLocked m symbol = Some (i, s) \<longleftrightarrow>
       map_of (subscriptions m) i = Some s \<and> bs_symbol (sub_book s) = symbol"
  by (simp add: FindSymbolLocked_def find_symbol_iff)

lemma FindSymbolLocked_None:
  "subs_ok a (subscriptions m) \<Longrightarrow>
     FindSymbolLocked m symbol = None \<longleftrightarrow>
       (\<forall>i s. map_of (subscriptions m) i = Some s \<longrightarrow> bs_symbol (sub_book s) \<noteq> symbol)"
  using FindSymbolLocked_iff [of a m symbol] by (metis not_None_eq old.prod.exhaust)

lemma table_iff:
  assumes "subs_ok a subs"
  shows "table subs symbol = Some (i, d) \<longleftrightarrow>
    map_option sub_book (map_of subs i) = Some \<lparr>bs_symbol = symbol, bs_depth = d\<rparr>"
proof -
  have "table subs symbol = Some (i, d) \<longleftrightarrow>
      (\<exists>s. List.find (\<lambda>(i, s). bs_symbol (sub_book s) = symbol) subs = Some (i, s) \<and> bs_depth (sub_book s) = d)"
    by (auto simp: table_def)
  also have "\<dots> \<longleftrightarrow> (\<exists>s. map_of subs i = Some s \<and> sub_book s = \<lparr>bs_symbol = symbol, bs_depth = d\<rparr>)"
    by (simp only: find_symbol_iff [OF assms]) (metis BookSpec.cases BookSpec.select_convs)
  finally show ?thesis by auto
qed

lemma table_None_iff:
  assumes "subs_ok a subs"
  shows "table subs symbol = None \<longleftrightarrow> (\<forall>i s. map_of subs i = Some s \<longrightarrow> bs_symbol (sub_book s) \<noteq> symbol)"
proof -
  have "table subs symbol = None \<longleftrightarrow> List.find (\<lambda>(i, s). bs_symbol (sub_book s) = symbol) subs = None"
    by (simp add: table_def)
  then show ?thesis
    using find_symbol_iff [OF assms, of symbol] by (metis not_None_eq old.prod.exhaust)
qed

text \<open>Adding a subscription to a pair without one, and removing one.\<close>

lemma subs_ok_add:
  assumes "subs_ok a subs" and "CheckBook a (sub_book s) = Inr ()" and "map_of subs i = None"
    and "table subs (bs_symbol (sub_book s)) = None"
  shows "subs_ok a (emplace (<) i s subs)"
proof -
  have look: "map_of (emplace (<) i s subs) = (map_of subs)(i \<mapsto> s)"
    using assms(3) by (simp add: map_ops)
  have other: "bs_symbol (sub_book t) \<noteq> bs_symbol (sub_book s)" if "map_of subs j = Some t" for j t
    using assms(4) that by (simp add: table_None_iff [OF assms(1)])
  show ?thesis
    using assms(1,2) other unfolding subs_ok_def look
    by (auto simp: map_ops split: if_splits) (metis other)+
qed

lemma subs_ok_remove: "subs_ok a subs \<Longrightarrow> subs_ok a (erase (<) i subs)"
  by (auto simp: subs_ok_def map_ops)

lemma table_add:
  assumes "subs_ok a subs" and "CheckBook a (sub_book s) = Inr ()" and "map_of subs i = None"
    and "table subs (bs_symbol (sub_book s)) = None"
  shows "table (emplace (<) i s subs) = (table subs)(bs_symbol (sub_book s) \<mapsto> (i, bs_depth (sub_book s)))"
proof
  fix symbol
  have look: "map_of (emplace (<) i s subs) = (map_of subs)(i \<mapsto> s)"
    using assms(3) by (simp add: map_ops)
  have other: "bs_symbol (sub_book t) \<noteq> bs_symbol (sub_book s)" if "map_of subs j = Some t" for j t
    using assms(4) that by (simp add: table_None_iff [OF assms(1)])
  have "table (emplace (<) i s subs) symbol = Some jd \<longleftrightarrow>
      ((table subs)(bs_symbol (sub_book s) \<mapsto> (i, bs_depth (sub_book s)))) symbol = Some jd" for jd
  proof (cases jd)
    case (Pair j d)
    note new = table_iff [OF subs_ok_add [OF assms], unfolded look, of symbol j d]
      and old = table_iff [OF assms(1), of symbol j d]
    have "j = i \<Longrightarrow> table subs symbol \<noteq> Some (j, d)" using old assms(3) by simp
    moreover have "symbol = bs_symbol (sub_book s) \<Longrightarrow> table subs symbol = None" using assms(4) by simp
    ultimately show ?thesis using new old Pair by (cases "sub_book s") auto
  qed
  then show "table (emplace (<) i s subs) symbol =
      ((table subs)(bs_symbol (sub_book s) \<mapsto> (i, bs_depth (sub_book s)))) symbol"
    by (metis option.exhaust)
qed

lemma table_remove:
  assumes "subs_ok a subs" and "map_of subs i = Some s"
  shows "table (erase (<) i subs) = (table subs)(bs_symbol (sub_book s) := None)"
proof
  fix symbol
  have look: "map_of (erase (<) i subs) = (map_of subs)(i := None)"
    using assms(1) by (simp add: subs_ok_def map_ops fun_eq_iff)
  have inj: "j = i" if "map_of subs j = Some t" "bs_symbol (sub_book t) = bs_symbol (sub_book s)" for j t
    using assms that unfolding subs_ok_def by blast
  have "table (erase (<) i subs) symbol = Some jd \<longleftrightarrow>
      ((table subs)(bs_symbol (sub_book s) := None)) symbol = Some jd" for jd
  proof (cases jd)
    case (Pair j d)
    note new = table_iff [OF subs_ok_remove [OF assms(1)], of i symbol j d, unfolded look]
      and old = table_iff [OF assms(1), of symbol j d]
    have "symbol = bs_symbol (sub_book s) \<Longrightarrow> table subs symbol = Some (j, d) \<Longrightarrow> j = i"
      using old inj by fastforce
    then show ?thesis using new old Pair assms(2) by (cases "sub_book s") auto
  qed
  then show "table (erase (<) i subs) symbol = ((table subs)(bs_symbol (sub_book s) := None)) symbol"
    by (metis option.exhaust)
qed

section \<open>What the venue has been asked for\<close>

text \<open>
  What a venue streams on a connection, pair by pair: it refuses to subscribe a
  pair twice, and to unsubscribe from what it does not stream.
\<close>

fun venue_books :: "(string \<Rightarrow> u32 option) \<Rightarrow> (BookRequest \<times> BookSpec) list \<Rightarrow> (string \<Rightarrow> u32 option) option" where
  "venue_books S [] = Some S"
| "venue_books S ((kSubscribe, b) # rs) =
     (if S (bs_symbol b) = None then venue_books (S(bs_symbol b \<mapsto> bs_depth b)) rs else None)"
| "venue_books S ((kUnsubscribe, b) # rs) =
     (if S (bs_symbol b) = Some (bs_depth b) then venue_books (S(bs_symbol b := None)) rs else None)"

definition books :: "(SubscriptionId \<times> Subscription) list \<Rightarrow> string \<Rightarrow> u32 option" where
  "books subs symbol = map_option snd (table subs symbol)"

definition spelled :: "'w Adapter \<Rightarrow> (BookRequest \<times> BookSpec) list \<Rightarrow> string list" where
  "spelled a rs = ad_ConnectRequests a @ map (\<lambda>(q, b). ad_MakeBookRequest a q b) rs"

definition asked :: "'w Adapter \<Rightarrow> string list \<Rightarrow> (string \<Rightarrow> u32 option) \<Rightarrow> bool" where
  "asked a sent S \<longleftrightarrow> (\<exists>rs. sent = spelled a rs \<and> list_all (\<lambda>(q, b). CheckBook a b = Inr ()) rs \<and>
     venue_books (\<lambda>_. None) rs = Some S)"

lemma venue_books_append:
  "venue_books S (rs @ rs') = (case venue_books S rs of None \<Rightarrow> None | Some S' \<Rightarrow> venue_books S' rs')"
  by (induction S rs rule: venue_books.induct) (auto simp del: fun_upd_apply)

lemma asked_connect: "asked a (ad_ConnectRequests a) (\<lambda>_. None)"
  by (auto simp: asked_def spelled_def intro!: exI [of _ "[]"])

lemma asked_more:
  assumes "asked a sent S" and "CheckBook a b = Inr ()" and "venue_books S [(q, b)] = Some S'"
  shows "asked a (sent @ [ad_MakeBookRequest a q b]) S'"
proof -
  obtain rs where "sent = spelled a rs" "list_all (\<lambda>(q, b). CheckBook a b = Inr ()) rs"
    "venue_books (\<lambda>_. None) rs = Some S"
    using assms(1) by (auto simp: asked_def)
  then show ?thesis
    using assms(2,3) unfolding asked_def
    by (intro exI [of _ "rs @ [(q, b)]"]) (simp add: spelled_def venue_books_append)
qed

lemma subs_ok_Cons:
  assumes "subs_ok a ((i, s) # subs)"
  shows "CheckBook a (sub_book s) = Inr ()" "subs_ok a subs" "table subs (bs_symbol (sub_book s)) = None"
proof -
  have i: "map_of subs i = None"
    using assms by (simp add: subs_ok_def) (use id_less.map_of_None_before [of i s subs i] in simp)
  have keep: "map_of ((i, s) # subs) j = Some t \<and> j \<noteq> i" if "map_of subs j = Some t" for j t
    using that i by auto
  have inj: "j = k" if "map_of ((i, s) # subs) j = Some t" "map_of ((i, s) # subs) k = Some u"
    "bs_symbol (sub_book t) = bs_symbol (sub_book u)" for j k t u
    using assms that unfolding subs_ok_def by blast
  have check: "CheckBook a (sub_book t) = Inr ()" if "map_of ((i, s) # subs) j = Some t" for j t
    using assms that unfolding subs_ok_def by blast
  show "CheckBook a (sub_book s) = Inr ()" by (rule check [of i]) simp
  have "ordered (<) subs" using assms by (simp add: subs_ok_def)
  then show ok: "subs_ok a subs"
    unfolding subs_ok_def using keep inj check by blast
  show "table subs (bs_symbol (sub_book s)) = None"
    unfolding table_None_iff [OF ok]
  proof (intro allI impI notI)
    fix j t
    assume "map_of subs j = Some t" and sym: "bs_symbol (sub_book t) = bs_symbol (sub_book s)"
    then have j: "map_of ((i, s) # subs) j = Some t" "j \<noteq> i" using keep by blast+
    have "j = i" by (rule inj [OF j(1) _ sym]) simp
    with j(2) show False ..
  qed
qed

lemma books_Nil [simp]: "books [] = (\<lambda>_. None)"
  by (simp add: books_def fun_eq_iff)

lemma books_Cons: "books ((i, s) # subs) = (books subs)(bs_symbol (sub_book s) \<mapsto> bs_depth (sub_book s))"
  by (auto simp: books_def table_def fun_eq_iff)

text \<open>Subscribing to every pair of the table, one after another.\<close>

lemma asked_all:
  assumes "subs_ok a subs" and "asked a sent S" and "\<And>symbol. books subs symbol \<noteq> None \<Longrightarrow> S symbol = None"
  shows "asked a (sent @ map (\<lambda>(i, s). ad_MakeBookRequest a kSubscribe (sub_book s)) subs) (S ++ books subs)"
  using assms
proof (induction subs arbitrary: sent S)
  case (Cons x subs)
  obtain i s where x: "x = (i, s)" by fastforce
  note ok = subs_ok_Cons [OF Cons.prems(1) [unfolded x]]
  let ?sym = "bs_symbol (sub_book s)" and ?d = "bs_depth (sub_book s)"
  have "S ?sym = None" using Cons.prems(3) [of ?sym] by (simp add: x books_Cons)
  then have "asked a (sent @ [ad_MakeBookRequest a kSubscribe (sub_book s)]) (S(?sym \<mapsto> ?d))"
    using asked_more [OF Cons.prems(2) ok(1), of kSubscribe] by simp
  then have "asked a ((sent @ [ad_MakeBookRequest a kSubscribe (sub_book s)]) @
      map (\<lambda>(i, s). ad_MakeBookRequest a kSubscribe (sub_book s)) subs) (S(?sym \<mapsto> ?d) ++ books subs)"
    by (rule Cons.IH [OF ok(2)]) (use Cons.prems(3) ok(3) in \<open>auto simp: x books_Cons books_def split: if_splits\<close>)
  moreover have "books subs ?sym = None" using ok(3) by (simp add: books_def)
  then have "S(?sym \<mapsto> ?d) ++ books subs = S ++ books ((i, s) # subs)"
    by (auto simp: books_Cons fun_eq_iff map_add_def split: option.splits)
  ultimately show ?case by (simp add: x)
qed simp

section \<open>The manager's invariant\<close>

text \<open>
  At any time: the table has a pair once; the parser routes each pair to its
  subscription, at its depth; while connected, the connection has been asked for
  exactly the pairs of the table; the parser runs while connected unless it failed.
\<close>

definition core_ok :: "'w Adapter \<Rightarrow> 'd L2Manager \<Rightarrow> bool" where
  "core_ok a m \<longleftrightarrow> subs_ok a (subscriptions m) \<and> parser_weak (parser m) \<and>
     (parser_running m \<longrightarrow> parser_ok (parser m)) \<and>
     checksum_check (parser m) = ad_book_checksum a \<and> routed (parser m) = table (subscriptions m) \<and>
     distinct (pending_resubscribes m)"

definition feed_ok :: "'w Adapter \<Rightarrow> 'd L2Manager \<Rightarrow> bool" where
  "feed_ok a m \<longleftrightarrow>
     (case feed m of
        None \<Rightarrow> \<not> connected m \<and> \<not> parser_running m \<and> raw_frames_queue m = []
      | Some sent \<Rightarrow> connected m \<and> asked a sent (books (subscriptions m)) \<and>
          (parser_running m \<or> failed m) \<and> length (raw_frames_queue m) \<le> kMaxQueuedFrames)"

definition manager_ok :: "'w Adapter \<Rightarrow> 'd L2Manager \<Rightarrow> bool" where
  "manager_ok a m \<longleftrightarrow> core_ok a m \<and> feed_ok a m"

lemma manager_ok_new: "manager_ok a (L2Manager_new a fresh)"
  by (simp add: manager_ok_def core_ok_def feed_ok_def L2Manager_new_def parser_ok_weak fun_eq_iff)

lemma manager_ok_fields [simp]:
  "manager_ok a (m\<lparr>pairs := ps\<rparr>) = manager_ok a m" "manager_ok a (m\<lparr>pairs_fetched_at := t\<rparr>) = manager_ok a m"
  "manager_ok a (m\<lparr>resubscribing := r\<rparr>) = manager_ok a m" "manager_ok a (m\<lparr>last_resubscribed := l\<rparr>) = manager_ok a m"
  by (simp_all add: manager_ok_def core_ok_def feed_ok_def cong: option.case_cong)

lemma RequestResubscribe_simps [simp]:
  "connected (RequestResubscribe s m) = connected m" "failed (RequestResubscribe s m) = failed m"
  "subscriptions (RequestResubscribe s m) = subscriptions m" "parser (RequestResubscribe s m) = parser m"
  "parser_running (RequestResubscribe s m) = parser_running m" "feed (RequestResubscribe s m) = feed m"
  "raw_frames_queue (RequestResubscribe s m) = raw_frames_queue m"
  by (simp_all add: RequestResubscribe_def)

lemma RequestResubscribe_fold [simp]:
  "connected (fold RequestResubscribe ss m) = connected m" "failed (fold RequestResubscribe ss m) = failed m"
  "subscriptions (fold RequestResubscribe ss m) = subscriptions m"
  "parser (fold RequestResubscribe ss m) = parser m"
  "parser_running (fold RequestResubscribe ss m) = parser_running m"
  "feed (fold RequestResubscribe ss m) = feed m"
  "raw_frames_queue (fold RequestResubscribe ss m) = raw_frames_queue m"
  by (induction ss arbitrary: m) simp_all

lemma RequestResubscribe_distinct:
  "distinct (pending_resubscribes m) \<Longrightarrow> distinct (pending_resubscribes (fold RequestResubscribe ss m))"
  by (induction ss arbitrary: m) (simp_all add: RequestResubscribe_def)

lemma Feed_Send_simps [simp]:
  "connected (Feed_Send str m) = connected m" "failed (Feed_Send str m) = failed m"
  "subscriptions (Feed_Send str m) = subscriptions m" "parser (Feed_Send str m) = parser m"
  "parser_running (Feed_Send str m) = parser_running m"
  "raw_frames_queue (Feed_Send str m) = raw_frames_queue m"
  "pending_resubscribes (Feed_Send str m) = pending_resubscribes m"
  "feed (Feed_Send str m) = map_option (\<lambda>sent. sent @ [str]) (feed m)"
  by (simp_all add: Feed_Send_def)

lemma SendLocked_simps [simp]:
  "connected (SendLocked a q b m) = connected m" "failed (SendLocked a q b m) = failed m"
  "subscriptions (SendLocked a q b m) = subscriptions m" "parser (SendLocked a q b m) = parser m"
  "parser_running (SendLocked a q b m) = parser_running m"
  "raw_frames_queue (SendLocked a q b m) = raw_frames_queue m"
  "pending_resubscribes (SendLocked a q b m) = pending_resubscribes m"
  "feed (SendLocked a q b m) =
     (if connected m then map_option (\<lambda>sent. sent @ [ad_MakeBookRequest a q b]) (feed m) else feed m)"
  by (simp_all add: SendLocked_def)

lemma core_ok_Send [simp]: "core_ok a (SendLocked a' q b m) = core_ok a m" "core_ok a (Feed_Send str m) = core_ok a m"
  by (simp_all add: core_ok_def)

lemma books_add:
  "subs_ok a subs \<Longrightarrow> CheckBook a (sub_book s) = Inr () \<Longrightarrow> map_of subs i = None \<Longrightarrow>
     table subs (bs_symbol (sub_book s)) = None \<Longrightarrow>
     books (emplace (<) i s subs) = (books subs)(bs_symbol (sub_book s) \<mapsto> bs_depth (sub_book s))"
  by (simp add: books_def fun_eq_iff table_add)

lemma books_remove:
  "subs_ok a subs \<Longrightarrow> map_of subs i = Some s \<Longrightarrow>
     books (erase (<) i subs) = (books subs)(bs_symbol (sub_book s) := None)"
  by (simp add: books_def fun_eq_iff table_remove)

lemma books_of:
  "subs_ok a subs \<Longrightarrow> map_of subs i = Some s \<Longrightarrow> books subs (bs_symbol (sub_book s)) = Some (bs_depth (sub_book s))"
  using table_iff [of a subs "bs_symbol (sub_book s)" i "bs_depth (sub_book s)"] by (simp add: books_def)

lemma FindSymbolLocked_table:
  "FindSymbolLocked m symbol = None \<longleftrightarrow> table (subscriptions m) symbol = None"
  by (simp add: FindSymbolLocked_def table_def)

text \<open>The one branch of \<^verbatim>\<open>Subscribe\<close> that changes anything.\<close>

lemma SubscribeLocked_new:
  assumes ok: "manager_ok a m" and check: "CheckBook a book = Inr ()"
    and i: "map_of (subscriptions m) i = None" and free: "table (subscriptions m) (bs_symbol book) = None"
  shows "\<exists>p. SubscribeLocked a i book precision started (Inr ()) m =
      (SendLocked a kSubscribe book (m\<lparr>subscriptions :=
         emplace (<) i \<lparr>sub_book = book, sub_start_time_ns = started\<rparr> (subscriptions m), parser := p\<rparr>), Inr (Inr i)) \<and>
    L2Parser_Attach (bs_symbol book) precision (bs_depth book) i (parser m) = Inr p \<and>
    manager_ok a (fst (SubscribeLocked a i book precision started (Inr ()) m))"
proof -
  let ?s = "\<lparr>sub_book = book, sub_start_time_ns = started\<rparr>"
  have subs: "subs_ok a (subscriptions m)" and routed: "routed (parser m) = table (subscriptions m)"
    using ok by (simp_all add: manager_ok_def core_ok_def)
  note new = subs_ok_add [OF subs _ i, of ?s] table_add [OF subs _ i, of ?s] books_add [OF subs _ i, of ?s]
  have "i \<notin> receivers (parser m)"
    using i by (auto simp: receivers_routed routed table_iff [OF subs])
  moreover obtain p where p: "L2Parser_Attach (bs_symbol book) precision (bs_depth book) i (parser m) = Inr p"
    using Attach_free [of "parser m" "bs_symbol book" precision "bs_depth book" i] free routed by auto
  ultimately have "(parser_weak (parser m) \<longrightarrow> parser_weak p) \<and> (parser_ok (parser m) \<longrightarrow> parser_ok p)"
    using L2Parser_Attach_weak L2Parser_Attach_ok by blast
  moreover have "checksum_check p = checksum_check (parser m)"
    using p by (auto simp: L2Parser_Attach_def split: if_splits)
  moreover have "asked a (sent @ [ad_MakeBookRequest a kSubscribe book])
      (books (emplace (<) i ?s (subscriptions m)))" if "asked a sent (books (subscriptions m))" for sent
    using free by (intro asked_more [OF that check]) (simp add: new check books_def)
  moreover have step: "SubscribeLocked a i book precision started (Inr ()) m =
      (SendLocked a kSubscribe book (m\<lparr>subscriptions := emplace (<) i ?s (subscriptions m), parser := p\<rparr>), Inr (Inr i))"
    using i p free [folded FindSymbolLocked_table] by (simp add: SubscribeLocked_def ResolveTakenLocked_def)
  ultimately have "manager_ok a (fst (SubscribeLocked a i book precision started (Inr ()) m))"
    using ok free check routed_Attach [OF p] routed
    by (auto simp: manager_ok_def core_ok_def feed_ok_def new split: option.split_asm)
  with step p show ?thesis by blast
qed

lemma Unsubscribe_found:
  assumes ok: "manager_ok a m" and i: "map_of (subscriptions m) i = Some s"
  shows "manager_ok a (fst (L2Manager_Unsubscribe a i m))"
proof -
  have subs: "subs_ok a (subscriptions m)" and routed: "routed (parser m) = table (subscriptions m)"
    and sorted: "ordered (<) (routes (parser m))"
    using ok by (simp_all add: manager_ok_def core_ok_def parser_weak_iff)
  have check: "CheckBook a (sub_book s) = Inr ()" using subs i by (simp add: subs_ok_def)
  have "asked a (sent @ [ad_MakeBookRequest a kUnsubscribe (sub_book s)]) (books (erase (<) i (subscriptions m)))"
    if "asked a sent (books (subscriptions m))" for sent
    by (rule asked_more [OF that check]) (simp add: books_remove [OF subs i] books_of [OF subs i])
  moreover have "checksum_check (L2Parser_Detach sym p) = checksum_check p" for sym p by simp
  ultimately show ?thesis
    using ok routed i
    by (auto simp: L2Manager_Unsubscribe_def Let_def manager_ok_def core_ok_def feed_ok_def L2Parser_Detach_weak
        L2Parser_Detach_ok subs_ok_remove routed_Detach [OF sorted] table_remove [OF subs i] split: option.split_asm)
qed

lemma Resubscribe_ok:
  assumes ok: "manager_ok a m"
  shows "manager_ok a (Resubscribe a symbol m)"
proof (cases "FindSymbolLocked m symbol")
  case None
  then show ?thesis using ok by (simp add: Resubscribe_def)
next
  case (Some x)
  obtain i s where x: "x = (i, s)" by fastforce
  have subs: "subs_ok a (subscriptions m)" using ok by (simp add: manager_ok_def core_ok_def)
  have i: "map_of (subscriptions m) i = Some s" using Some x FindSymbolLocked_iff [OF subs] by simp
  have check: "CheckBook a (sub_book s) = Inr ()" using subs i by (simp add: subs_ok_def)
  let ?S = "books (subscriptions m)" and ?r = "\<lambda>q. ad_MakeBookRequest a q (sub_book s)"
  have "asked a ((sent @ [?r kUnsubscribe]) @ [?r kSubscribe]) ?S" if "asked a sent ?S" for sent
  proof (rule asked_more [OF asked_more [OF that check] check])
    show "venue_books ?S [(kUnsubscribe, sub_book s)] = Some (?S(bs_symbol (sub_book s) := None))"
      by (simp add: books_of [OF subs i])
    show "venue_books (?S(bs_symbol (sub_book s) := None)) [(kSubscribe, sub_book s)] = Some ?S"
      using books_of [OF subs i] by (simp add: fun_upd_idem)
  qed
  then show ?thesis
    using ok Some x
    by (auto simp: Resubscribe_def manager_ok_def feed_ok_def split: option.split_asm)
qed

locale venue_manager = venue_adapter a + parser_decoder Decode
  for a :: "'w Adapter" and Decode :: "('d, L2Parser) decode"
begin

lemma Parser_Step_core:
  assumes "core_ok a m"
  shows "core_ok a (Parser_Step Decode clock m)"
proof (cases "parser_running m \<and> raw_frames_queue m \<noteq> []")
  case False
  then show ?thesis using assms by (auto simp: Parser_Step_def split: list.split)
next
  case True
  then obtain frame rest where q: "raw_frames_queue m = frame # rest" and run: "parser_running m"
    by (cases "raw_frames_queue m") auto
  obtain d p r where disp: "L2Parser_Dispatch Decode (fst clock) (snd clock) frame (decoder m, parser m) = ((d, p), r)"
    by (metis surj_pair)
  have "parser_ok p \<and> checksum_check p = checksum_check (parser m)"
    using Dispatch_ok [OF _ disp] assms run by (simp add: core_ok_def)
  moreover have "routed p = routed (parser m)" by (rule Dispatch_routed [OF disp])
  ultimately show ?thesis
    using assms q run disp
    by (simp add: Parser_Step_def Parser_Consume_def core_ok_def parser_ok_weak RequestResubscribe_distinct Let_def
        split: sum.split)
qed

lemma Parser_Step_simps:
  "connected (Parser_Step Decode clock m) = connected m" "subscriptions (Parser_Step Decode clock m) = subscriptions m"
  "feed (Parser_Step Decode clock m) = feed m"
  "raw_frames_queue (Parser_Step Decode clock m) =
     (if parser_running m then tl (raw_frames_queue m) else raw_frames_queue m)"
  "parser_running m \<or> failed m \<Longrightarrow> parser_running (Parser_Step Decode clock m) \<or> failed (Parser_Step Decode clock m)"
  "\<not> parser_running m \<Longrightarrow> \<not> parser_running (Parser_Step Decode clock m)"
  by (auto simp: Parser_Step_def Parser_Consume_def Let_def split: list.split prod.split sum.split)

lemma drain_core: "core_ok a m \<Longrightarrow> core_ok a (drain Decode clock n m)"
  by (induction n arbitrary: m) (simp_all add: Parser_Step_core)

lemma drain_simps [simp]:
  "connected (drain Decode clock n m) = connected m" "subscriptions (drain Decode clock n m) = subscriptions m"
  "feed (drain Decode clock n m) = feed m"
  by (induction n arbitrary: m) (simp_all add: Parser_Step_simps)

lemma Parser_Stop_core: "core_ok a m \<Longrightarrow> core_ok a (Parser_Stop Decode clock m)"
  using drain_core [of m clock "length (raw_frames_queue m)"] by (simp add: Parser_Stop_def core_ok_def)

lemma gaps_weak:
  "parser_weak p \<Longrightarrow> parser_weak (fold (\<lambda>(i, s). deliver (OnGap i g)) subs p) \<and>
     checksum_check (fold (\<lambda>(i, s). deliver (OnGap i g)) subs p) = checksum_check p \<and>
     routed (fold (\<lambda>(i, s). deliver (OnGap i g)) subs p) = routed p"
  by (induction subs arbitrary: p) (auto simp: parser_weak_gap)

lemma DisconnectLocked_ok:
  assumes "core_ok a m"
  shows "manager_ok a (DisconnectLocked Decode clock m) \<and> \<not> connected (DisconnectLocked Decode clock m) \<and>
    feed (DisconnectLocked Decode clock m) = None \<and>
    subscriptions (DisconnectLocked Decode clock m) = subscriptions m"
proof -
  let ?s = "Parser_Stop Decode clock (m\<lparr>feed := None\<rparr>)"
  have "core_ok a ?s" using assms by (intro Parser_Stop_core) (simp add: core_ok_def)
  moreover have "connected ?s = connected m" "subscriptions ?s = subscriptions m" "feed ?s = None"
    "\<not> parser_running ?s"
    by (simp_all add: Parser_Stop_def)
  ultimately show ?thesis
    using gaps_weak [of "parser ?s" kDisconnected "subscriptions m"]
    by (cases "connected m") (simp_all add: DisconnectLocked_def Let_def manager_ok_def core_ok_def feed_ok_def)
qed

lemma fold_Feed_Send [simp]:
  "feed (fold Feed_Send strs m) = map_option (\<lambda>sent. sent @ strs) (feed m)"
  "connected (fold Feed_Send strs m) = connected m" "failed (fold Feed_Send strs m) = failed m"
  "subscriptions (fold Feed_Send strs m) = subscriptions m"
  "parser_running (fold Feed_Send strs m) = parser_running m"
  "raw_frames_queue (fold Feed_Send strs m) = raw_frames_queue m"
  "core_ok a (fold Feed_Send strs m) = core_ok a m"
  by (induction strs arbitrary: m) (simp_all add: option.map_comp comp_def option.map_ident)

lemma fold_SendLocked:
  assumes "connected m"
  shows "feed (fold (\<lambda>(i, s). SendLocked a q (sub_book s)) subs m) =
      map_option (\<lambda>sent. sent @ map (\<lambda>(i, s). ad_MakeBookRequest a q (sub_book s)) subs) (feed m)"
    and "connected (fold (\<lambda>(i, s). SendLocked a q (sub_book s)) subs m)"
    and "failed (fold (\<lambda>(i, s). SendLocked a q (sub_book s)) subs m) = failed m"
    and "subscriptions (fold (\<lambda>(i, s). SendLocked a q (sub_book s)) subs m) = subscriptions m"
    and "parser_running (fold (\<lambda>(i, s). SendLocked a q (sub_book s)) subs m) = parser_running m"
    and "raw_frames_queue (fold (\<lambda>(i, s). SendLocked a q (sub_book s)) subs m) = raw_frames_queue m"
    and "core_ok a (fold (\<lambda>(i, s). SendLocked a q (sub_book s)) subs m) = core_ok a m"
  using assms
  by (induction subs arbitrary: m) (auto simp: option.map_comp comp_def option.map_ident)

lemma Connect_ok:
  assumes "core_ok a m" and "feed_ok a m"
    and "L2Manager_Connect a Decode fresh clock opened m = (m', r)"
  shows "manager_ok a m' \<and> subscriptions m' = subscriptions m \<and> (connected m' \<longleftrightarrow> r = Inr ())"
proof (cases "healthy m")
  case True
  then show ?thesis using assms by (auto simp: L2Manager_Connect_def manager_ok_def healthy_def)
next
  case False
  define m1 where "m1 = DisconnectLocked Decode clock m"
  define m2 where "m2 = m1\<lparr>failed := False, parser := L2Parser_Start (parser m1), decoder := fresh, parser_running := True\<rparr>"
  have m1: "core_ok a m1" "\<not> connected m1" "feed m1 = None" "subscriptions m1 = subscriptions m"
    "raw_frames_queue m1 = []"
    using DisconnectLocked_ok [OF assms(1), of clock] by (auto simp: m1_def manager_ok_def feed_ok_def)
  have m2: "core_ok a m2"
    using m1(1) by (simp add: core_ok_def m2_def parser_weak_def parser_ok_weak [unfolded parser_weak_def])
  show ?thesis
  proof (cases opened)
    case (Inl e)
    have "core_ok a (Parser_Stop Decode clock m2)" by (rule Parser_Stop_core [OF m2])
    then show ?thesis
      using False Inl assms(3) m1
      by (auto simp: L2Manager_Connect_def m1_def [symmetric] m2_def manager_ok_def feed_ok_def Parser_Stop_def Let_def)
  next
    case (Inr u)
    define m3 where "m3 = fold Feed_Send (ad_ConnectRequests a) (m2\<lparr>feed := Some [], connected := True\<rparr>)"
    have "core_ok a (m2\<lparr>feed := Some [], connected := True\<rparr>)" using m2 by (simp add: core_ok_def)
    then have core: "core_ok a m3" by (simp add: m3_def)
    have m3: "connected m3" "feed m3 = Some (ad_ConnectRequests a)" "parser_running m3"
      "raw_frames_queue m3 = []" "subscriptions m3 = subscriptions m"
      using m1 by (simp_all add: m3_def m2_def)
    have m': "m' = fold (\<lambda>(i, s). SendLocked a kSubscribe (sub_book s)) (subscriptions m3) m3" "r = Inr ()"
      using False Inr assms(3) m3(5) m1(4)
      by (simp_all add: L2Manager_Connect_def m1_def [symmetric] m2_def [symmetric] m3_def [symmetric] Let_def)
    have "asked a (ad_ConnectRequests a @ map (\<lambda>(i, s). ad_MakeBookRequest a kSubscribe (sub_book s)) (subscriptions m))
        ((\<lambda>_. None) ++ books (subscriptions m))"
      using assms(1) by (intro asked_all asked_connect) (simp_all add: core_ok_def)
    then show ?thesis
      using m3 core by (simp add: m' manager_ok_def feed_ok_def fold_SendLocked map_add_def)
  qed
qed

end

section \<open>Runs\<close>

text \<open>The steps a venue's manager takes on its own: network, parser, resubscriber.\<close>

inductive L2_moves :: "'w Adapter \<Rightarrow> ('d, L2Parser) decode \<Rightarrow> 'd L2Manager \<Rightarrow> 'd L2Manager \<Rightarrow> bool"
  for a :: "'w Adapter" and Decode :: "('d, L2Parser) decode" where
  move_frame: "feed m \<noteq> None \<Longrightarrow> length (raw_frames_queue m) < kMaxQueuedFrames \<Longrightarrow>
     L2_moves a Decode m (m\<lparr>raw_frames_queue := raw_frames_queue m @ [frame]\<rparr>)"
| move_parser: "L2_moves a Decode m (Parser_Step Decode reading m)"
| move_feed_fails: "feed m \<noteq> None \<Longrightarrow> L2_moves a Decode m (m\<lparr>failed := True\<rparr>)"
| move_take: "L2_moves a Decode m (ResubscribeQueued_take m)"
| move_resubscribe: "L2_moves a Decode m (ResubscribeQueued_do a now later m)"

text \<open>
  Everything that happens to a manager, in any order: the public methods, a frame
  the network thread pushes while the queue has room, the parser thread, a failure
  of the connection, the resubscriber.
\<close>

inductive manager_reach ::
    "'w Adapter \<Rightarrow> ('d, L2Parser) decode \<Rightarrow> 'd \<Rightarrow> 'd L2Manager \<Rightarrow> bool"
  for a :: "'w Adapter" and Decode :: "('d, L2Parser) decode" and fresh :: 'd where
  run_new: "manager_reach a Decode fresh (L2Manager_new a fresh)"
| run_connect: "manager_reach a Decode fresh m \<Longrightarrow> L2Manager_Connect a Decode fresh clock opened m = (m', r) \<Longrightarrow>
     manager_reach a Decode fresh m'"
| run_disconnect: "manager_reach a Decode fresh m \<Longrightarrow> manager_reach a Decode fresh (DisconnectLocked Decode clock m)"
| run_frame: "manager_reach a Decode fresh m \<Longrightarrow> feed m \<noteq> None \<Longrightarrow>
     length (raw_frames_queue m) < kMaxQueuedFrames \<Longrightarrow> frame_typed frame \<Longrightarrow>
     manager_reach a Decode fresh (m\<lparr>raw_frames_queue := raw_frames_queue m @ [frame]\<rparr>)"
| run_parser: "manager_reach a Decode fresh m \<Longrightarrow> manager_reach a Decode fresh (Parser_Step Decode reading m)"
| run_feed_fails: "manager_reach a Decode fresh m \<Longrightarrow> feed m \<noteq> None \<Longrightarrow> manager_reach a Decode fresh (m\<lparr>failed := True\<rparr>)"
| run_subscribe: "manager_reach a Decode fresh m \<Longrightarrow>
     L2Manager_Subscribe a world i book started built first_locked m = (m', answer) \<Longrightarrow> manager_reach a Decode fresh m'"
| run_unsubscribe: "manager_reach a Decode fresh m \<Longrightarrow> L2Manager_Unsubscribe a i m = (m', gone) \<Longrightarrow>
     manager_reach a Decode fresh m'"
| run_pairs: "manager_reach a Decode fresh m \<Longrightarrow> L2Manager_ListPairs a world now m = (m', listed) \<Longrightarrow>
     manager_reach a Decode fresh m'"
| run_take: "manager_reach a Decode fresh m \<Longrightarrow> manager_reach a Decode fresh (ResubscribeQueued_take m)"
| run_resubscribe: "manager_reach a Decode fresh m \<Longrightarrow> manager_reach a Decode fresh (ResubscribeQueued_do a now later m)"

lemma Subscribe_ok:
  assumes ok: "manager_ok a m"
    and run: "L2Manager_Subscribe a world i book started built first_locked m = (m', answer)"
  shows "manager_ok a m'"
proof (cases "m' = m")
  case False
  have check: "CheckBook a book = Inr ()"
    using run False by (auto simp: L2Manager_Subscribe_def split: sum.splits)
  obtain precision where sub: "SubscribeLocked a i book precision started built m = (m', answer)"
    using run False by (auto simp: L2Manager_Subscribe_def split: sum.splits option.splits)
  have "ResolveTakenLocked m i book = Inr None" "built = Inr ()"
    using sub False by (auto simp: SubscribeLocked_def split: sum.splits option.splits)
  moreover from this have "map_of (subscriptions m) i = None" "table (subscriptions m) (bs_symbol book) = None"
    by (auto simp: ResolveTakenLocked_def FindSymbolLocked_table [symmetric] Let_def split: if_splits option.splits)
  ultimately show ?thesis using SubscribeLocked_new [OF ok check, of i precision started] sub by auto
qed (use ok in simp)

text \<open>Every outcome of \<^verbatim>\<open>Subscribe\<close>, with nothing in between its two locks.\<close>

lemma Subscribe_outcomes:
  assumes ok: "manager_ok a m"
  shows "L2Manager_Subscribe a world i book started built m m =
    (if CheckBook a book \<noteq> Inr () then (m, Inr (map_sum id (\<lambda>_. 0) (CheckBook a book)))
     else if map_of (subscriptions m) i \<noteq> None
     then (m, Inl (logic_error (''Subscription id '' @ nat_to_dec (unat i) @ '' is already in use'')))
     else case table (subscriptions m) (bs_symbol book) of
       Some (j, d) \<Rightarrow>
         (m, Inr (if SinkOf i = kRecord \<and> SinkOf j = kRecord \<and> d = bs_depth book then Inr j
            else Failure kSymbolInUse (bs_symbol book @ '' is already subscribed to by subscription '' @
              nat_to_dec (unat j) @ '' at depth '' @ nat_to_dec (unat d))))
     | None \<Rightarrow>
         (case ad_FetchPrecision a world (bs_symbol book) of
            Inl e \<Rightarrow> (m, Inr (Inl e))
          | Inr precision \<Rightarrow>
              (case built of
                 Inl e \<Rightarrow> (m, Inl e)
               | Inr _ \<Rightarrow> (SendLocked a kSubscribe book (m\<lparr>subscriptions :=
                     emplace (<) i \<lparr>sub_book = book, sub_start_time_ns = started\<rparr> (subscriptions m),
                   parser := projr (L2Parser_Attach (bs_symbol book) precision (bs_depth book) i (parser m))\<rparr>),
                 Inr (Inr i)))))"
proof (cases "CheckBook a book = Inr () \<and> map_of (subscriptions m) i = None \<and> table (subscriptions m) (bs_symbol book) = None")
  case True
  then have find: "FindSymbolLocked m (bs_symbol book) = None" by (simp add: FindSymbolLocked_table)
  have "routed (parser m) (bs_symbol book) = None" using ok True by (simp add: manager_ok_def core_ok_def)
  note free = Attach_free [OF this]
  define p where "p precision = projr (L2Parser_Attach (bs_symbol book) precision (bs_depth book) i (parser m))"
    for precision
  have p: "L2Parser_Attach (bs_symbol book) precision (bs_depth book) i (parser m) = Inr (p precision)" for precision
    using free [of precision "bs_depth book" i] by (auto simp: p_def)
  show ?thesis
    using True find by (auto simp: p simp: L2Manager_Subscribe_def ResolveTakenLocked_def SubscribeLocked_def split: sum.split)
next
  case False
  have table: "table (subscriptions m) (bs_symbol book) =
      map_option (\<lambda>(i, s). (i, bs_depth (sub_book s))) (FindSymbolLocked m (bs_symbol book))"
    by (simp add: table_def FindSymbolLocked_def)
  show ?thesis
    using False unfolding table
    by (cases "FindSymbolLocked m (bs_symbol book)")
      (auto simp: L2Manager_Subscribe_def ResolveTakenLocked_def Let_def split: sum.split if_splits)
qed

context venue_manager
begin

lemma Resubscribe_subscriptions [simp]: "subscriptions (Resubscribe a symbol m) = subscriptions m"
  by (simp add: Resubscribe_def split: option.split)

lemma L2_moves_ok: "L2_moves a Decode m m' \<Longrightarrow> manager_ok a m \<Longrightarrow> manager_ok a m' \<and> subscriptions m' = subscriptions m"
proof (induction rule: L2_moves.induct)
  case (move_parser m reading)
  then show ?case
    using Parser_Step_core [of m reading] Parser_Step_simps [where clock = reading and m = m]
    by (auto simp: manager_ok_def feed_ok_def split: option.split_asm)
next
  case (move_take m)
  then show ?case
    by (auto simp: ResubscribeQueued_take_def manager_ok_def core_ok_def feed_ok_def split: option.split list.split)
next
  case (move_resubscribe m now later)
  then show ?case
    using Resubscribe_ok by (auto simp: ResubscribeQueued_do_def split: option.split)
qed (auto simp: manager_ok_def core_ok_def feed_ok_def)

lemma reach_manager_ok: "manager_reach a Decode fresh m \<Longrightarrow> manager_ok a m"
proof (induction rule: manager_reach.induct)
  case (run_connect m clock opened m' r)
  then have "core_ok a m" "feed_ok a m" by (simp_all add: manager_ok_def)
  then show ?case using Connect_ok run_connect(2) by blast
next
  case (run_disconnect m clock)
  then show ?case using DisconnectLocked_ok by (simp add: manager_ok_def)
next
  case (run_unsubscribe m i m' gone)
  then show ?case
    using Unsubscribe_found [of a m i]
    by (cases "map_of (subscriptions m) i") (auto simp: L2Manager_Unsubscribe_def)
next
  case (run_pairs m world now m' listed)
  then show ?case
    by (auto simp: L2Manager_ListPairs_def Let_def split: if_splits sum.splits)
qed (simp_all add: manager_ok_new Subscribe_ok L2_moves_ok [OF L2_moves.intros(1)] L2_moves_ok [OF L2_moves.intros(2)]
  L2_moves_ok [OF L2_moves.intros(3)] L2_moves_ok [OF L2_moves.intros(4)] L2_moves_ok [OF L2_moves.intros(5)])

text \<open>What any receiver gets, over all its connections.\<close>

lemma reach_history_ok: "manager_reach a Decode fresh m \<Longrightarrow> history_ok (ad_book_checksum a) (history (parser m))"
  using reach_manager_ok by (fastforce simp: manager_ok_def core_ok_def parser_weak_iff)

text \<open>A request has one reading.\<close>

lemma spelled_inj:
  assumes "spelled a rs = spelled a rs'" and "list_all (\<lambda>(q, b). CheckBook a b = Inr ()) rs"
    and "list_all (\<lambda>(q, b). CheckBook a b = Inr ()) rs'"
  shows "rs = rs'"
proof -
  have checked: "ad_CheckSymbol a (bs_symbol b) = Inr () \<and> bs_depth b \<in> set (ad_depths a)"
    if "CheckBook a b = Inr ()" for b
    using that by (simp add: CheckBook_def split: if_splits)
  have "q = q' \<and> b = b'" if "(q, b) \<in> set rs \<union> set rs'" "(q', b') \<in> set rs \<union> set rs'"
    "ad_MakeBookRequest a q b = ad_MakeBookRequest a q' b'" for q q' b b'
    using that assms(2,3) checked [of b] checked [of b'] by (intro request_inj) (auto simp: list_all_iff)
  then have "inj_on (\<lambda>(q, b). ad_MakeBookRequest a q b) (set rs \<union> set rs')"
    by (intro inj_onI) (metis (mono_tags, lifting) case_prod_conv surj_pair)
  moreover have "map (\<lambda>(q, b). ad_MakeBookRequest a q b) rs = map (\<lambda>(q, b). ad_MakeBookRequest a q b) rs'"
    using assms(1) by (simp add: spelled_def)
  ultimately show ?thesis by (rule map_inj_on [rotated])
qed

end

interpretation kraken_manager: venue_manager "Kraken_adapter parse" "Kraken_Decode parse_frame unspec"
  by unfold_locales

interpretation coinbase_manager: venue_manager "Coinbase_adapter parse" "Coinbase_Decode parse_frame unspec"
  by unfold_locales

end
