(* ===== verification/VenueL2ManagerProperties.thy ===== *)
theory VenueL2ManagerProperties
  imports VenueL2ManagerRuns
begin

text \<open>
  The properties of a venue's manager, on Kraken and on Coinbase, with concrete
  managers as witnesses, and the resubscriber: that a pair whose book failed its
  checksum is resubscribed, and how often at most.
\<close>

section \<open>A concrete manager\<close>

text \<open>The AssetPairs answer of one pair, and a manager that streams it.\<close>

definition demo_answer :: "string \<Rightarrow> json option" where
  "demo_answer str = Some (JObject [(''error'', JArray []), (''result'', JObject [(''A/B'', JObject
     [(''status'', JString ''online''), (''pair_decimals'', JNumber ''1''), (''lot_decimals'', JNumber ''2'')])])])"

definition demo_http :: "string \<Rightarrow> string result" where
  "demo_http target = Inr ''body''"

abbreviation demo_adapter :: "(string \<Rightarrow> string result) Adapter" where
  "demo_adapter \<equiv> Kraken_adapter demo_answer"

abbreviation demo_decode :: "(unit, L2Parser) decode" where
  "demo_decode \<equiv> Kraken_Decode (demo_json 1) (\<lambda>_ _ _. 0)"

abbreviation demo_spec :: BookSpec where
  "demo_spec \<equiv> \<lparr>bs_symbol = ''A/B'', bs_depth = 10\<rparr>"

lemma demo_precision:
  "ad_FetchPrecision demo_adapter demo_http ''A/B'' = Inr \<lparr>price_decimals = 1, qty_decimals = 2\<rparr>"
  by (simp add: Kraken_adapter_def Kraken_FetchPrecision_def FetchPairPrecision_def parse_body_def demo_answer_def
      demo_http_def ReportsUnknownPair_def ThrowOnRestError_def member_def c_str_def GetUint_def dec_value_def
      digit_val_def is_digit_def map_ops)

lemma demo_check: "CheckBook demo_adapter demo_spec = Inr ()"
  by (simp add: CheckBook_def Kraken_adapter_def kL2Depths_def Kraken_CheckSymbol_Inr IsWellFormedSymbol_def
      kMaxSymbolLength_def is_alnum_def)

lemma demo_reach:
  "manager_reach demo_adapter demo_decode () (fst (L2Manager_Connect demo_adapter demo_decode () clock (Inr ())
     (L2Manager_new demo_adapter ())))"
  by (rule run_connect [OF run_new, of _ _ _ clock "Inr ()" _ "snd (L2Manager_Connect demo_adapter demo_decode ()
      clock (Inr ()) (L2Manager_new demo_adapter ()))"]) (simp only: prod.collapse)

definition demo_connected :: "unit L2Manager" where
  "demo_connected = fst (L2Manager_Connect demo_adapter demo_decode () (\<lambda>_. (0, 0)) (Inr ()) (L2Manager_new demo_adapter ()))"

lemma demo_connected_fields:
  "manager_reach demo_adapter demo_decode () demo_connected" "subscriptions demo_connected = []"
  "feed demo_connected = Some []" "connected demo_connected"
  using demo_reach [of "\<lambda>_. (0, 0)"]
  by (simp_all add: demo_connected_def L2Manager_Connect_def L2Manager_new_def healthy_def DisconnectLocked_def
      Parser_Stop_def Kraken_adapter_def Let_def)

section \<open>Properties\<close>

text \<open>
  C7. Whatever happens to Kraken's manager, each pair has at most one subscription;
  the parser routes exactly the subscribed pairs, each to its subscription and at its
  depth; and while connected the texts sent on the connection are, in one way only,
  requests of checked books that Kraken never refuses (nothing is subscribed twice, or
  unsubscribed without being subscribed) and that leave it streaming exactly the
  subscription table.
\<close>

theorem kraken_streams_the_table:
  assumes "manager_reach (Kraken_adapter parse) (Kraken_Decode parse_frame unspec) () m"
  shows "(\<forall>i j s t. map_of (subscriptions m) i = Some s \<longrightarrow> map_of (subscriptions m) j = Some t \<longrightarrow>
      bs_symbol (sub_book s) = bs_symbol (sub_book t) \<longrightarrow> i = j) \<and>
    (\<forall>symbol i d. routed (parser m) symbol = Some (i, d) \<longleftrightarrow>
      map_option sub_book (map_of (subscriptions m) i) = Some \<lparr>bs_symbol = symbol, bs_depth = d\<rparr>) \<and>
    (case feed m of
       None \<Rightarrow> \<not> connected m
     | Some sent \<Rightarrow> connected m \<and>
         (\<exists>!rs. sent = spelled (Kraken_adapter parse) rs \<and>
           list_all (\<lambda>(q, b). CheckBook (Kraken_adapter parse) b = Inr ()) rs \<and>
           venue_books (\<lambda>_. None) rs = Some (books (subscriptions m))))"
proof -
  let ?a = "Kraken_adapter parse"
  have ok: "manager_ok ?a m" by (rule kraken_manager.reach_manager_ok [OF assms])
  then have subs: "subs_ok ?a (subscriptions m)" and routed: "routed (parser m) = table (subscriptions m)"
    by (simp_all add: manager_ok_def core_ok_def)
  have "\<exists>!rs. sent = spelled ?a rs \<and> list_all (\<lambda>(q, b). CheckBook ?a b = Inr ()) rs \<and>
      venue_books (\<lambda>_. None) rs = Some (books (subscriptions m))" if "feed m = Some sent" for sent
    using ok that kraken_manager.spelled_inj [of parse]
    by (auto simp: manager_ok_def feed_ok_def asked_def)
  then show ?thesis
    using ok subs routed table_iff [OF subs]
    by (auto simp: manager_ok_def feed_ok_def subs_ok_def split: option.split)
qed

theorem kraken_streams_the_table_witness:
  "\<exists>!rs. list_all (\<lambda>(q, b). CheckBook demo_adapter b = Inr ()) rs \<and> spelled demo_adapter rs = [] \<and>
     venue_books (\<lambda>_. None) rs = Some (\<lambda>_. None)"
  using kraken_streams_the_table [OF demo_connected_fields(1)]
  by (simp add: demo_connected_fields books_Nil conj_commute conj_left_commute) metis

text \<open>
  Over any number of connections, what a receiver of Coinbase's manager gets
  after its stream last broke (it was attached, the connection ended or started over)
  begins with a snapshot; it never gets an update it cannot place.
\<close>

theorem coinbase_streams_start_with_snapshot:
  assumes "manager_reach (Coinbase_adapter parse) (Coinbase_Decode parse_frame unspec) CoinbaseDecoder_new m"
    and "history (parser m) = later @ Receive r msg # earlier" and "stretch r earlier = []"
  shows "msg_type msg = kSnapshot"
  using history_ok_split [of _ later r msg earlier] coinbase_manager.reach_history_ok [OF assms(1)] assms(2,3)
  by (simp add: may_receive_def)

definition demo_product :: "string \<Rightarrow> json option" where
  "demo_product str = Some (JObject [(''product_id'', JString ''A-B''), (''status'', JString ''online''),
     (''price_increment'', JString ''0.01''), (''base_increment'', JString ''0.1'')])"

definition cb_event :: json where
  "cb_event = JObject [(''product_id'', JString ''A-B''), (''type'', JString ''snapshot''), (''updates'', JArray [])]"

definition cb_document :: json where
  "cb_document = JObject [(''channel'', JString ''l2_data''), (''sequence_num'', JString ''0''),
     (''events'', JArray [cb_event])]"

abbreviation cb_adapter :: "rest_host Adapter" where
  "cb_adapter \<equiv> Coinbase_adapter demo_product"

abbreviation cb_decode :: "(CoinbaseDecoder, L2Parser) decode" where
  "cb_decode \<equiv> Coinbase_Decode (\<lambda>_. Some cb_document) (\<lambda>_ _ _. 0)"

definition cb_snapshot :: Message where
  "cb_snapshot = \<lparr>msg_type = kSnapshot, checksum = 0, venue_time_ns = 0, capture_time_ns = 7,
     msg_symbol = ''A-B'', buys = [], sells = []\<rparr>"

lemma cb_decodes:
  assumes "Find out ''A-B'' kSnapshot = Some p"
  shows "cb_decode Find Emit demo_frame CoinbaseDecoder_new out =
    ((CoinbaseDecoder_new\<lparr>last_sequence := Some 0\<rparr>, Emit cb_snapshot out), Inr ())"
proof -
  have doc: "IsObject cb_document" "FindJsonString cb_document ''type'' = Inr None"
    "FindJsonString cb_document ''channel'' = Inr (Some ''l2_data'')"
    "RequireJsonMember cb_document ''events'' IsArray = Inr (JArray [cb_event])"
    "EventsVenueTime (\<lambda>_ _ _. 0) cb_document = Inr 0" "RequireUnsigned cb_document ''sequence_num'' = Inr 0"
    by (simp_all add: cb_document_def FindJsonString_eq EventsVenueTime_def RequireUnsigned_def RequireJsonString_eq
        from_chars_u64_def from_chars_digits is_digit_def dec_value_def digit_val_def)
  have event: "RequireJsonString cb_event ''product_id'' = Inr ''A-B''"
    "RequireJsonString cb_event ''type'' = Inr ''snapshot''" "ParseType ''snapshot'' = Inr kSnapshot"
    "RequireJsonMember cb_event ''updates'' IsArray = Inr (JArray [])"
    by (simp_all add: cb_event_def RequireJsonString_eq ParseType_def)
  have "DecodeEvent Find Emit 0 7 cb_event out = (Emit cb_snapshot out, Inr ())"
    by (simp only: DecodeEvent_def event bindR_simps sum.case prod.case assms option.case GetArray.simps
        updates_loop.simps cb_snapshot_def)
  then show ?thesis
    by (simp add: doc Coinbase_Decode_def Advance_def DecodeEvents_def CoinbaseDecoder_new_def demo_frame_def)
qed

lemma cb_precision:
  "\<exists>p. ad_FetchPrecision cb_adapter (\<lambda>_. Inr \<lparr>status = 200, body = ''x''\<rparr>) ''A-B'' = Inr p"
  by (simp add: Coinbase_adapter_def Coinbase_FetchPrecision_def FetchProductPrecision_def Let_def ThrowUnlessOk_def
      ParseProductPrecision_def ParseObject_def demo_product_def WhyUnstreamable_def FindJsonString_eq IsSet_def
      RequireJsonString_eq)

text \<open>Connected, subscribed, a frame read and parsed.\<close>

abbreviation cb_connect :: "CoinbaseDecoder L2Manager \<Rightarrow> CoinbaseDecoder L2Manager \<times> unit result" where
  "cb_connect \<equiv> L2Manager_Connect cb_adapter cb_decode CoinbaseDecoder_new (\<lambda>_. (0, 0)) (Inr ())"

abbreviation cb_subscribe ::
    "CoinbaseDecoder L2Manager \<Rightarrow> CoinbaseDecoder L2Manager \<times> SubscriptionId expected result" where
  "cb_subscribe m \<equiv> L2Manager_Subscribe cb_adapter (\<lambda>_. Inr \<lparr>status = 200, body = ''x''\<rparr>) 5
     \<lparr>bs_symbol = ''A-B'', bs_depth = kFullDepth\<rparr> 0 (Inr ()) m m"

definition cb_before :: "CoinbaseDecoder L2Manager" where
  "cb_before = fst (cb_subscribe (fst (cb_connect (L2Manager_new cb_adapter CoinbaseDecoder_new))))"

definition cb_after :: "CoinbaseDecoder L2Manager" where
  "cb_after = Parser_Step cb_decode (0, 1) (cb_before\<lparr>raw_frames_queue := raw_frames_queue cb_before @ [demo_frame]\<rparr>)"

lemma cb_check: "CheckBook cb_adapter \<lparr>bs_symbol = ''A-B'', bs_depth = kFullDepth\<rparr> = Inr ()"
  by (simp add: CheckBook_def Coinbase_adapter_def kDepths_def Coinbase_CheckSymbol_def IsWellFormedSymbol_def
      kMaxSymbolLength_def is_alnum_def is_lower_def)

lemma cb_before_fields:
  "raw_frames_queue cb_before = []" "feed cb_before \<noteq> None" "parser_running cb_before"
  "decoder cb_before = CoinbaseDecoder_new" "history (parser cb_before) = [Attached 5 kFullDepth, Started]"
  "checksum_check (parser cb_before) = None"
  "\<exists>rt. map_of (routes (parser cb_before)) ''A-B'' = Some rt \<and> rt_receiver rt = 5"
  "subscriptions cb_before = [(5, \<lparr>sub_book = \<lparr>bs_symbol = ''A-B'', bs_depth = kFullDepth\<rparr>, sub_start_time_ns = 0\<rparr>)]"
proof -
  obtain p where p: "ad_FetchPrecision cb_adapter (\<lambda>_. Inr \<lparr>status = 200, body = ''x''\<rparr>) ''A-B'' = Inr p"
    using cb_precision by blast
  let ?m = "fst (cb_connect (L2Manager_new cb_adapter CoinbaseDecoder_new))"
  have none: "ad_book_checksum cb_adapter = None" by (simp add: Coinbase_adapter_def)
  have m: "subscriptions ?m = []" "parser ?m = L2Parser_Start (L2Parser_new None)" "connected ?m" "feed ?m \<noteq> None"
    "raw_frames_queue ?m = []" "parser_running ?m" "decoder ?m = CoinbaseDecoder_new"
    using none by (simp_all add: L2Manager_Connect_def L2Manager_new_def healthy_def DisconnectLocked_def Parser_Stop_def
        Let_def Coinbase_adapter_def Coinbase_ConnectRequests_def Feed_Send_def)
  have before: "cb_before = SendLocked cb_adapter kSubscribe \<lparr>bs_symbol = ''A-B'', bs_depth = kFullDepth\<rparr>
      (?m\<lparr>subscriptions := [(5, \<lparr>sub_book = \<lparr>bs_symbol = ''A-B'', bs_depth = kFullDepth\<rparr>, sub_start_time_ns = 0\<rparr>)],
        parser := deliver (Attached 5 kFullDepth) (set_route ''A-B'' \<lparr>rt_precision = p, rt_receiver = 5,
          awaiting_snapshot = True, rt_book = Book_of_depth kFullDepth\<rparr> (parser ?m))\<rparr>)"
    using m by (simp add: cb_before_def L2Manager_Subscribe_def cb_check ResolveTakenLocked_def FindSymbolLocked_def p
        SubscribeLocked_def L2Parser_Attach_def L2Parser_Start_def L2Parser_new_def emplace_def)
  show "raw_frames_queue cb_before = []" "feed cb_before \<noteq> None" "parser_running cb_before"
    "decoder cb_before = CoinbaseDecoder_new" "history (parser cb_before) = [Attached 5 kFullDepth, Started]"
    "checksum_check (parser cb_before) = None"
    "\<exists>rt. map_of (routes (parser cb_before)) ''A-B'' = Some rt \<and> rt_receiver rt = 5"
    "subscriptions cb_before = [(5, \<lparr>sub_book = \<lparr>bs_symbol = ''A-B'', bs_depth = kFullDepth\<rparr>, sub_start_time_ns = 0\<rparr>)]"
    unfolding before
    using m by (simp_all add: SendLocked_def Feed_Send_def L2Parser_Start_def L2Parser_new_def
        map_ops)
qed

lemma cb_after_reached:
  "manager_reach cb_adapter cb_decode CoinbaseDecoder_new cb_after"
proof -
  have "manager_reach cb_adapter cb_decode CoinbaseDecoder_new
      (fst (cb_connect (L2Manager_new cb_adapter CoinbaseDecoder_new)))"
    by (rule run_connect [OF run_new]) (rule prod.collapse [symmetric])
  then have "manager_reach cb_adapter cb_decode CoinbaseDecoder_new cb_before"
    unfolding cb_before_def by (rule run_subscribe) (rule prod.collapse [symmetric])
  then have "manager_reach cb_adapter cb_decode CoinbaseDecoder_new
      (cb_before\<lparr>raw_frames_queue := raw_frames_queue cb_before @ [demo_frame]\<rparr>)"
    by (rule run_frame) (simp_all add: cb_before_fields kMaxQueuedFrames_def)
  then show ?thesis unfolding cb_after_def by (rule run_parser)
qed

lemma cb_after_history:
  "history (parser cb_after) =
     [Recorded kReceiveToParseComplete 1, Receive 5 cb_snapshot, Attached 5 kFullDepth, Started]"
proof -
  obtain rt where rt: "map_of (routes (parser cb_before)) ''A-B'' = Some rt" "rt_receiver rt = 5"
    using cb_before_fields(7) by blast
  then have find: "L2Parser_Find (parser cb_before\<lparr>parse_start_ns := 0\<rparr>) ''A-B'' kSnapshot = Some (rt_precision rt)"
    by (simp add: L2Parser_Find_def FindRoute_def)
  show ?thesis
    using rt cb_before_fields(1,3-6) cb_decodes [of L2Parser_Find "parser cb_before\<lparr>parse_start_ns := 0\<rparr>" _ L2Parser_Emit, OF find]
    by (simp add: cb_after_def Parser_Step_def Parser_Consume_def L2Parser_Dispatch_def Let_def L2Parser_Emit_def
        cb_snapshot_def FindRoute_def)
qed

theorem coinbase_streams_start_with_snapshot_witness:
  "\<exists>m. manager_reach cb_adapter cb_decode CoinbaseDecoder_new m \<and> Receive 5 cb_snapshot \<in> set (history (parser m)) \<and>
     msg_type cb_snapshot = kSnapshot"
  using coinbase_streams_start_with_snapshot [OF cb_after_reached, of "[Recorded kReceiveToParseComplete 1]" 5 cb_snapshot
      "[Attached 5 kFullDepth, Started]"] cb_after_history cb_after_reached
  by auto

text \<open>
  What a call of \<^verbatim>\<open>Subscribe\<close> may come to. At a lock the id may be in use, which throws,
  or the pair may be streamed already: a recording joins a recording at the same depth
  and gets its id, anything else is refused.
\<close>

definition taken_at :: "'d L2Manager \<Rightarrow> SubscriptionId \<Rightarrow> BookSpec \<Rightarrow> bool" where
  "taken_at m i book \<longleftrightarrow> map_of (subscriptions m) i \<noteq> None \<or> routed (parser m) (bs_symbol book) \<noteq> None"

definition taken_answer ::
    "'d L2Manager \<Rightarrow> SubscriptionId \<Rightarrow> BookSpec \<Rightarrow> SubscriptionId expected result \<Rightarrow> bool" where
  "taken_answer m i book answer \<longleftrightarrow>
     (if map_of (subscriptions m) i \<noteq> None then \<exists>s. answer = Inl (logic_error s)
      else case routed (parser m) (bs_symbol book) of
        None \<Rightarrow> False
      | Some (j, d) \<Rightarrow>
          if SinkOf i = kRecord \<and> SinkOf j = kRecord \<and> d = bs_depth book then answer = Inr (Inr j)
          else \<exists>s. answer = Inr (Failure kSymbolInUse s))"

text \<open>
  The whole call: \<open>first\<close> is the manager at the first lock, \<open>m\<close> at the second, after the
  precision was fetched without a lock; \<open>m'\<close> is what the call leaves.
\<close>

definition subscribe_outcome ::
    "'w Adapter \<Rightarrow> 'w \<Rightarrow> SubscriptionId \<Rightarrow> BookSpec \<Rightarrow> i64 \<Rightarrow> unit result \<Rightarrow> 'd L2Manager \<Rightarrow> 'd L2Manager \<Rightarrow>
       'd L2Manager \<Rightarrow> SubscriptionId expected result \<Rightarrow> bool" where
  "subscribe_outcome a world i book started built first m m' answer \<longleftrightarrow>
     (if bs_depth book \<notin> set (ad_depths a) then m' = m \<and> (\<exists>s. answer = Inr (Failure kInvalidDepth s))
      else case ad_CheckSymbol a (bs_symbol book) of
        Inl e \<Rightarrow> m' = m \<and> answer = Inr (Inl e)
      | Inr _ \<Rightarrow>
          if taken_at first i book then m' = m \<and> taken_answer first i book answer
          else case ad_FetchPrecision a world (bs_symbol book) of
            Inl e \<Rightarrow> m' = m \<and> answer = Inr (Inl e)
          | Inr precision \<Rightarrow>
              if taken_at m i book then m' = m \<and> taken_answer m i book answer
              else case built of
                Inl e \<Rightarrow> m' = m \<and> answer = Inl e
              | Inr _ \<Rightarrow> answer = Inr (Inr i) \<and>
                  map_of (subscriptions m') = (map_of (subscriptions m))
                    (i \<mapsto> \<lparr>sub_book = book, sub_start_time_ns = started\<rparr>) \<and>
                  routed (parser m') = (routed (parser m))(bs_symbol book \<mapsto> (i, bs_depth book)) \<and>
                  feed m' = map_option (\<lambda>sent. sent @ [ad_MakeBookRequest a kSubscribe book]) (feed m) \<and>
                  connected m' = connected m \<and> raw_frames_queue m' = raw_frames_queue m)"

lemma ResolveTaken_outcome:
  assumes "manager_ok a m"
  shows "case ResolveTakenLocked m i book of
      Inl e \<Rightarrow> taken_at m i book \<and> taken_answer m i book (Inl e)
    | Inr None \<Rightarrow> \<not> taken_at m i book
    | Inr (Some t) \<Rightarrow> taken_at m i book \<and> taken_answer m i book (Inr t)"
proof -
  have "routed (parser m) (bs_symbol book) =
      map_option (\<lambda>(i, s). (i, bs_depth (sub_book s))) (FindSymbolLocked m (bs_symbol book))"
    using assms by (simp add: manager_ok_def core_ok_def table_def FindSymbolLocked_def)
  then show ?thesis
    by (cases "FindSymbolLocked m (bs_symbol book)")
      (auto simp: taken_at_def taken_answer_def ResolveTakenLocked_def Let_def)
qed

lemma Subscribe_free:
  assumes first: "manager_ok a first" and ok: "manager_ok a m"
    and run: "L2Manager_Subscribe a world i book started built first m = (m', answer)"
    and new: "CheckBook a book = Inr ()" "bs_depth book \<in> set (ad_depths a)" "ad_CheckSymbol a (bs_symbol book) = Inr ()"
      "\<not> taken_at first i book" "\<not> taken_at m i book"
  shows "subscribe_outcome a world i book started built first m m' answer"
proof -
  have routed: "routed (parser m) = table (subscriptions m)" and feed: "\<not> connected m \<Longrightarrow> feed m = None"
    using ok by (auto simp: manager_ok_def core_ok_def feed_ok_def split: option.splits)
  have free: "map_of (subscriptions m) i = None" "table (subscriptions m) (bs_symbol book) = None"
    using new by (auto simp: taken_at_def routed simp del: not_None_eq)
  have resolved: "ResolveTakenLocked first i book = Inr None" "ResolveTakenLocked m i book = Inr None"
    using new ResolveTaken_outcome [OF first, of i book] ResolveTaken_outcome [OF ok, of i book]
    by (auto split: sum.splits option.splits)
  show ?thesis
  proof (cases "ad_FetchPrecision a world (bs_symbol book)")
    case (Inl e)
    then show ?thesis using new run resolved by (simp add: L2Manager_Subscribe_def subscribe_outcome_def)
  next
    case (Inr precision)
    then have sub: "SubscribeLocked a i book precision started built m = (m', answer)"
      using new run resolved by (simp add: L2Manager_Subscribe_def)
    show ?thesis
    proof (cases built)
      case (Inl e)
      then show ?thesis
        using new Inr sub resolved by (simp add: SubscribeLocked_def subscribe_outcome_def)
    next
      case built: (Inr u)
      obtain p where p: "m' = SendLocked a kSubscribe book (m\<lparr>subscriptions :=
            emplace (<) i \<lparr>sub_book = book, sub_start_time_ns = started\<rparr> (subscriptions m), parser := p\<rparr>)"
          "answer = Inr (Inr i)" "L2Parser_Attach (bs_symbol book) precision (bs_depth book) i (parser m) = Inr p"
        using SubscribeLocked_new [OF ok _ free, of precision started] new sub built by auto
      show ?thesis
        using new Inr built p(2) free feed routed_Attach [OF p(3)] unfolding p(1)
        by (auto simp: subscribe_outcome_def map_ops fun_eq_iff)
    qed
  qed
qed

lemma Subscribe_outcome:
  assumes first: "manager_ok a first" and ok: "manager_ok a m"
    and run: "L2Manager_Subscribe a world i book started built first m = (m', answer)"
  shows "subscribe_outcome a world i book started built first m m' answer"
proof (cases "CheckBook a book")
  case (Inl e)
  then have "m' = m" "answer = Inr (Inl e)" using run by (simp_all add: L2Manager_Subscribe_def)
  then show ?thesis
    using Inl by (auto simp: CheckBook_def subscribe_outcome_def Failure_def split: if_splits)
next
  case checked: (Inr u)
  then have book: "bs_depth book \<in> set (ad_depths a)" "ad_CheckSymbol a (bs_symbol book) = Inr ()"
    by (simp_all add: CheckBook_def split: if_splits)
  show ?thesis
  proof (cases "taken_at first i book \<or> taken_at m i book")
    case True
    then show ?thesis
      using run checked book ResolveTaken_outcome [OF first, of i book] ResolveTaken_outcome [OF ok, of i book]
      by (auto simp: L2Manager_Subscribe_def SubscribeLocked_def subscribe_outcome_def split: sum.splits option.splits)
  next
    case False
    then have free: "\<not> taken_at first i book" "\<not> taken_at m i book" by simp_all
    show ?thesis by (rule Subscribe_free [OF first ok run checked [unfolded unit_eq [of u]] book free])
  qed
qed

text \<open>
  C30. Every outcome of \<^verbatim>\<open>Subscribe\<close>, for both venues and whatever other calls and
  threads do between its two locks (the managers at the locks are any reachable ones):
  a depth the venue does not have or a symbol the adapter refuses; at the first lock, an
  id in use (an exception) or a pair already streamed, which gives the id of an existing
  recording at the same depth to a recording and is refused otherwise; a precision the venue does not give; the same two
  at the second lock, for an id or a pair taken in the meantime; a receiver that cannot
  be built (its exception); and else the id, the one case that changes anything: the
  subscription is in the table, its pair is routed to it and, while connected, the venue
  is asked for it. In particular attaching to the parser never fails.
\<close>

theorem subscribe_has_these_outcomes:
  "(manager_reach (Kraken_adapter parse) (Kraken_Decode parse_frame unspec) () first \<longrightarrow>
      manager_reach (Kraken_adapter parse) (Kraken_Decode parse_frame unspec) () m \<longrightarrow>
      L2Manager_Subscribe (Kraken_adapter parse) world i book started built first m = (m', answer) \<longrightarrow>
      subscribe_outcome (Kraken_adapter parse) world i book started built first m m' answer) \<and>
    (manager_reach (Coinbase_adapter cb_parse) (Coinbase_Decode cb_parse_frame cb_unspec) CoinbaseDecoder_new cb_first \<longrightarrow>
      manager_reach (Coinbase_adapter cb_parse) (Coinbase_Decode cb_parse_frame cb_unspec) CoinbaseDecoder_new cb_m \<longrightarrow>
      L2Manager_Subscribe (Coinbase_adapter cb_parse) cb_world i book started built cb_first cb_m = (cb_m', answer) \<longrightarrow>
      subscribe_outcome (Coinbase_adapter cb_parse) cb_world i book started built cb_first cb_m cb_m' answer)"
  by (intro conjI impI Subscribe_outcome; (assumption | erule kraken_manager.reach_manager_ok
      coinbase_manager.reach_manager_ok)+)

theorem subscribe_has_these_outcomes_witness:
  "let (m1, won) = L2Manager_Subscribe demo_adapter demo_http 5 demo_spec 0 (Inr ()) demo_connected demo_connected;
       (m2, lost) = L2Manager_Subscribe demo_adapter demo_http 13 demo_spec 0 (Inr ()) demo_connected m1
   in won = Inr (Inr 5) \<and> routed (parser m1) ''A/B'' = Some (5, 10) \<and> m2 = m1 \<and>
      (\<exists>s. lost = Inr (Failure kSymbolInUse s))"
proof -
  obtain m1 won where 1: "L2Manager_Subscribe demo_adapter demo_http 5 demo_spec 0 (Inr ()) demo_connected demo_connected =
      (m1, won)" by fastforce
  obtain m2 lost where 2: "L2Manager_Subscribe demo_adapter demo_http 13 demo_spec 0 (Inr ()) demo_connected m1 =
      (m2, lost)" by fastforce
  note reach = demo_connected_fields(1)
  have reach1: "manager_reach demo_adapter demo_decode () m1" by (rule run_subscribe [OF reach 1])
  have "routed (parser demo_connected) ''A/B'' = None"
    using kraken_manager.reach_manager_ok [OF reach]
    by (simp add: manager_ok_def core_ok_def demo_connected_fields)
  then have free: "\<not> taken_at demo_connected i demo_spec" for i
    by (simp add: taken_at_def demo_connected_fields)
  have book: "10 \<in> set (ad_depths demo_adapter)" "ad_CheckSymbol demo_adapter ''A/B'' = Inr ()"
    using demo_check by (simp_all add: CheckBook_def split: if_splits)
  have won: "won = Inr (Inr 5)" "routed (parser m1) ''A/B'' = Some (5, 10)" "map_of (subscriptions m1) 13 = None"
    using mp [OF mp [OF mp [OF conjunct1 [OF subscribe_has_these_outcomes] reach] reach] 1] free
    by (simp_all add: subscribe_outcome_def book demo_precision demo_connected_fields)
  have "m2 = m1 \<and> (\<exists>s. lost = Inr (Failure kSymbolInUse s))"
    using mp [OF mp [OF mp [OF conjunct1 [OF subscribe_has_these_outcomes] reach] reach1] 2] free won
    by (simp add: subscribe_outcome_def book demo_precision taken_at_def taken_answer_def SinkOf_def kRecord_def)
  with won show ?thesis by (simp add: 1 2)
qed

text \<open>
  Unsubscribing undoes a new subscription: the table and the routes are what they
  were before it, and Kraken was asked to subscribe and then to unsubscribe. A second
  time, the id is unknown and nothing changes.
\<close>

theorem kraken_unsubscribe_undoes_subscribe:
  assumes "manager_reach (Kraken_adapter parse) (Kraken_Decode parse_frame unspec) () m"
    and "L2Manager_Subscribe (Kraken_adapter parse) world i book started built m m = (m1, Inr (Inr i))"
    and "map_of (subscriptions m) i = None"
    and "L2Manager_Unsubscribe (Kraken_adapter parse) i m1 = (m2, gone)"
  shows "gone = Inr () \<and> subscriptions m2 = subscriptions m \<and> routed (parser m2) = routed (parser m) \<and>
    feed m2 = map_option (\<lambda>sent. sent @ [Kraken_MakeBookRequest kSubscribe book,
      Kraken_MakeBookRequest kUnsubscribe book]) (feed m) \<and>
    (\<exists>s. L2Manager_Unsubscribe (Kraken_adapter parse) i m2 = (m2, Failure kUnknownId s))"
proof -
  let ?a = "Kraken_adapter parse" and ?s = "\<lparr>sub_book = book, sub_start_time_ns = started\<rparr>"
  have ok: "manager_ok ?a m" by (rule kraken_manager.reach_manager_ok [OF assms(1)])
  then have sorted: "ordered (<) (subscriptions m)" and off: "\<not> connected m \<Longrightarrow> feed m = None"
    and routes: "ordered (<) (routes (parser m))" and table: "routed (parser m) = table (subscriptions m)"
    by (auto simp: manager_ok_def core_ok_def subs_ok_def feed_ok_def parser_weak_iff split: option.splits)
  have "map_sum id (\<lambda>_. 0) c \<noteq> Inr i" if "c \<noteq> Inr ()" for c :: "unit expected"
    using that by (cases c) auto
  then have free: "table (subscriptions m) (bs_symbol book) = None" and check: "CheckBook ?a book = Inr ()"
    using assms(2,3) table_iff [of ?a "subscriptions m" "bs_symbol book" i] ok unfolding Subscribe_outcomes [OF ok]
    by (auto simp: manager_ok_def core_ok_def split: if_splits option.splits prod.splits sum.splits)
  obtain precision where at: "m1 = SendLocked ?a kSubscribe book (m\<lparr>subscriptions := emplace (<) i ?s (subscriptions m),
      parser := projr (L2Parser_Attach (bs_symbol book) precision (bs_depth book) i (parser m))\<rparr>)"
    using assms(2,3) free check unfolding Subscribe_outcomes [OF ok] by (auto split: sum.splits)
  obtain p where p: "L2Parser_Attach (bs_symbol book) precision (bs_depth book) i (parser m) = Inr p"
    using Attach_free free table by metis
  have m1: "m1 = SendLocked ?a kSubscribe book (m\<lparr>subscriptions := emplace (<) i ?s (subscriptions m), parser := p\<rparr>)"
    by (simp add: at p)
  have "ordered (<) (routes p)"
    using p routes by (auto simp: L2Parser_Attach_def map_ops split: if_splits)
  note r = routed_Detach [OF this] routed_Attach [OF p]
  have "map_of (emplace (<) i ?s (subscriptions m)) i = Some ?s" "ordered (<) (emplace (<) i ?s (subscriptions m))"
    using assms(3) sorted by (simp_all add: map_ops)
  moreover from this have "erase (<) i (emplace (<) i ?s (subscriptions m)) = subscriptions m"
    using sorted assms(3)
    by (intro id_less.ordered_ext) (auto simp: map_ops)
  moreover have "(routed (parser m))(bs_symbol book := None) = routed (parser m)"
    using free table by (simp add: fun_upd_idem)
  moreover have "ad_MakeBookRequest ?a = Kraken_MakeBookRequest" by (simp add: Kraken_adapter_def)
  ultimately show ?thesis
    using assms(3,4) off unfolding m1
    by (auto simp: L2Manager_Unsubscribe_def Let_def r option.map_comp comp_def)
qed

theorem kraken_unsubscribe_undoes_subscribe_witness:
  "\<exists>m1 m2. L2Manager_Subscribe demo_adapter demo_http 5 demo_spec 0 (Inr ()) demo_connected demo_connected =
      (m1, Inr (Inr 5)) \<and> L2Manager_Unsubscribe demo_adapter 5 m1 = (m2, Inr ()) \<and> subscriptions m2 = []"
proof -
  have "manager_ok demo_adapter demo_connected"
    by (rule kraken_manager.reach_manager_ok [OF demo_connected_fields(1)])
  note out = Subscribe_outcomes [OF this, of demo_http 5 demo_spec 0 "Inr ()"]
  obtain m1 where m1: "L2Manager_Subscribe demo_adapter demo_http 5 demo_spec 0 (Inr ()) demo_connected demo_connected =
      (m1, Inr (Inr 5))"
    by (simp add: out demo_check demo_connected_fields demo_precision)
  obtain m2 gone where m2: "L2Manager_Unsubscribe demo_adapter 5 m1 = (m2, gone)" by fastforce
  show ?thesis
    using kraken_unsubscribe_undoes_subscribe [OF demo_connected_fields(1) m1 _ m2] m1 m2
    by (auto simp: demo_connected_fields)
qed

text \<open>
  What \<^verbatim>\<open>ListPairs\<close> answers was fetched less than five minutes before, and a
  list that is not empty is served again, without asking the venue, until five minutes
  after it was fetched.
\<close>

theorem pairs_are_fresh_and_cached:
  assumes "L2Manager_ListPairs a world now m = (m1, Inr listed)"
  shows "now < pairs_fetched_at m1 + 300000000000 \<and> pl_depths listed = ad_depths a \<and> pl_symbols listed = pairs m1 \<and>
    (m1 = m \<or> ad_FetchPairs a world = Inr (pl_symbols listed) \<and> pairs_fetched_at m1 = now) \<and>
    (pl_symbols listed \<noteq> [] \<longrightarrow> later < pairs_fetched_at m1 + 300000000000 \<longrightarrow>
       L2Manager_ListPairs a world' later m1 = (m1, Inr listed))"
  using assms by (auto simp: L2Manager_ListPairs_def Let_def kPairsLifetime_def split: if_splits sum.splits)

theorem pairs_are_fresh_and_cached_witness:
  "\<exists>m1 listed. L2Manager_ListPairs demo_adapter demo_http 7 (L2Manager_new demo_adapter ()) = (m1, Inr listed) \<and>
     L2Manager_ListPairs demo_adapter (\<lambda>_. Inl undefined_behaviour) 9 m1 = (m1, Inr listed) \<and>
     pl_symbols listed = [''A/B'']"
proof -
  have "ad_FetchPairs demo_adapter demo_http = Inr [''A/B'']"
    by (simp add: Kraken_adapter_def Kraken_FetchPairs_def FetchTradablePairs_def parse_body_def demo_answer_def
        demo_http_def ThrowOnRestError_def member_def c_str_def GetCString_def)
  then have run: "L2Manager_ListPairs demo_adapter demo_http 7 (L2Manager_new demo_adapter ()) =
      ((L2Manager_new demo_adapter ())\<lparr>pairs := [''A/B''], pairs_fetched_at := 7\<rparr>,
       Inr \<lparr>pl_symbols = [''A/B''], pl_depths = ad_depths demo_adapter\<rparr>)"
    by (simp add: L2Manager_ListPairs_def L2Manager_new_def)
  from pairs_are_fresh_and_cached [OF run, of 9 "\<lambda>_. Inl undefined_behaviour"] run show ?thesis by auto
qed

section \<open>The resubscriber\<close>

text \<open>One turn of its loop: a pair is taken from the queue and, its interval over, resubscribed.\<close>

definition resubscriber_turn :: "'w Adapter \<Rightarrow> int \<times> int \<Rightarrow> 'd L2Manager \<Rightarrow> 'd L2Manager" where
  "resubscriber_turn a clock m = ResubscribeQueued_do a (fst clock) (snd clock) (ResubscribeQueued_take m)"

lemma Resubscribe_fields:
  assumes "connected m" and "feed m = Some sent"
  shows "\<exists>requests. feed (Resubscribe a symbol m) = Some (sent @ requests)"
    and "connected (Resubscribe a symbol m)" and "subscriptions (Resubscribe a symbol m) = subscriptions m"
    and "pending_resubscribes (Resubscribe a symbol m) = pending_resubscribes m"
    and "last_resubscribed (Resubscribe a symbol m) = last_resubscribed m"
  using assms
  by (auto simp: Resubscribe_def SendLocked_def Feed_Send_def split: option.split prod.split)

lemma resubscriber_turn_next:
  assumes "resubscribing m = None" and "pending_resubscribes m = next_symbol # rest"
    and "\<forall>since. map_of (last_resubscribed m) next_symbol = Some since \<longrightarrow> since + kMinResubscribeInterval \<le> fst clock"
    and "connected m" and "feed m = Some sent"
  shows "\<exists>requests. feed (resubscriber_turn a clock m) = Some (sent @ requests)"
    and "FindSymbolLocked m next_symbol = Some (i, s) \<Longrightarrow>
      feed (resubscriber_turn a clock m) = Some (sent @
        [ad_MakeBookRequest a kUnsubscribe (sub_book s), ad_MakeBookRequest a kSubscribe (sub_book s)])"
    and "resubscribing (resubscriber_turn a clock m) = None"
    and "pending_resubscribes (resubscriber_turn a clock m) = rest"
    and "connected (resubscriber_turn a clock m)"
    and "subscriptions (resubscriber_turn a clock m) = subscriptions m"
    and "symbol \<noteq> next_symbol \<Longrightarrow>
      map_of (last_resubscribed (resubscriber_turn a clock m)) symbol = map_of (last_resubscribed m) symbol"
proof -
  let ?m = "m\<lparr>resubscribing := Some next_symbol, pending_resubscribes := rest\<rparr>"
  have over: "interval_over (fst clock) next_symbol ?m"
    using assms(3) by (auto simp: interval_over_def split: option.split)
  have turn: "resubscriber_turn a clock m = (Resubscribe a next_symbol ?m)\<lparr>resubscribing := None,
      last_resubscribed := insert_or_assign (<) next_symbol (snd clock) (last_resubscribed ?m)\<rparr>"
    using assms(1,2) over by (simp add: resubscriber_turn_def ResubscribeQueued_take_def ResubscribeQueued_do_def)
  have "connected ?m" "feed ?m = Some sent" using assms(4,5) by simp_all
  note r = Resubscribe_fields [OF this, of a next_symbol]
  show "\<exists>requests. feed (resubscriber_turn a clock m) = Some (sent @ requests)"
    "resubscribing (resubscriber_turn a clock m) = None"
    "pending_resubscribes (resubscriber_turn a clock m) = rest"
    "connected (resubscriber_turn a clock m)"
    "subscriptions (resubscriber_turn a clock m) = subscriptions m"
    "symbol \<noteq> next_symbol \<Longrightarrow>
      map_of (last_resubscribed (resubscriber_turn a clock m)) symbol = map_of (last_resubscribed m) symbol"
    using r by (simp_all add: turn map_ops)
  show "feed (resubscriber_turn a clock m) = Some (sent @
        [ad_MakeBookRequest a kUnsubscribe (sub_book s), ad_MakeBookRequest a kSubscribe (sub_book s)])"
    if "FindSymbolLocked m next_symbol = Some (i, s)"
    using that assms(4,5) by (simp add: turn Resubscribe_def FindSymbolLocked_def)
qed

lemma resubscriber_reaches:
  assumes "resubscribing m = None" and "pending_resubscribes m = before @ symbol # after"
    and "distinct (pending_resubscribes m)" and "length clocks = Suc (length before)"
    and "\<And>q since clock. clock \<in> set clocks \<Longrightarrow> q \<in> set (before @ [symbol]) \<Longrightarrow>
      map_of (last_resubscribed m) q = Some since \<Longrightarrow> since + kMinResubscribeInterval \<le> fst clock"
    and "connected m" and "feed m = Some sent" and "FindSymbolLocked m symbol = Some (i, s)"
  shows "pending_resubscribes (fold (resubscriber_turn a) clocks m) = after \<and>
    (\<exists>others. feed (fold (resubscriber_turn a) clocks m) = Some (sent @ others @
      [ad_MakeBookRequest a kUnsubscribe (sub_book s), ad_MakeBookRequest a kSubscribe (sub_book s)]))"
  using assms
proof (induction before arbitrary: m clocks sent)
  case Nil
  then obtain clock where c: "clocks = [clock]" by (auto simp: length_Suc_conv)
  have pend: "pending_resubscribes m = symbol # after" using Nil(2) by simp
  have "\<forall>since. map_of (last_resubscribed m) symbol = Some since \<longrightarrow> since + kMinResubscribeInterval \<le> fst clock"
    using Nil(5) [of clock symbol] c by simp
  note t = resubscriber_turn_next [OF Nil(1) pend this Nil(6,7)]
  show ?case using t(2) [where a = a, OF Nil(8)] t(4) [where a = a] by (auto simp: c intro: exI [of _ "[]"])
next
  case (Cons q before)
  then obtain clock rest where c: "clocks = clock # rest" "length rest = Suc (length before)"
    by (auto simp: length_Suc_conv)
  have pend: "pending_resubscribes m = q # before @ symbol # after" using Cons.prems(2) by simp
  have "\<forall>since. map_of (last_resubscribed m) q = Some since \<longrightarrow> since + kMinResubscribeInterval \<le> fst clock"
    using Cons.prems(5) [of clock q] c by simp
  note t = resubscriber_turn_next [OF Cons.prems(1) pend this Cons.prems(6,7)]
  let ?m = "resubscriber_turn a clock m"
  obtain requests where feed: "feed ?m = Some (sent @ requests)" using t(1) by blast
  have find: "FindSymbolLocked ?m symbol = Some (i, s)"
    using Cons.prems(8) by (simp add: FindSymbolLocked_def t(6))
  have "distinct (pending_resubscribes ?m)" using Cons.prems(3) pend by (simp add: t(4))
  moreover have "since + kMinResubscribeInterval \<le> fst cl"
    if "cl \<in> set rest" "p \<in> set (before @ [symbol])" "map_of (last_resubscribed ?m) p = Some since" for p since cl
  proof -
    have "p \<noteq> q" using Cons.prems(3) pend that(2) by auto
    then have "map_of (last_resubscribed m) p = Some since" using that(3) t(7) [where a = a and symbol = p] by simp
    then show ?thesis by (rule Cons.prems(5) [rotated 2]) (use that(1,2) c(1) in auto)
  qed
  ultimately have "pending_resubscribes (fold (resubscriber_turn a) rest ?m) = after \<and>
    (\<exists>others. feed (fold (resubscriber_turn a) rest ?m) = Some ((sent @ requests) @ others @
      [ad_MakeBookRequest a kUnsubscribe (sub_book s), ad_MakeBookRequest a kSubscribe (sub_book s)]))"
    by (intro Cons.IH [OF t(3) t(4) _ c(2) _ t(5) feed find]) blast+
  then show ?case by (auto simp: c(1))
qed

text \<open>
  C26. A pair waiting in the queue is resubscribed: after as many turns of the
  resubscriber as there are pairs before it and one more, each turn late enough for the
  pairs it serves, Kraken has been asked to unsubscribe from it and to subscribe to it
  again, at its depth, whatever was sent before, and only the pairs behind it still wait.
\<close>

theorem kraken_resubscribes_waiting_pair:
  assumes "manager_reach (Kraken_adapter parse) (Kraken_Decode parse_frame unspec) () m"
    and "resubscribing m = None" and "pending_resubscribes m = before @ symbol # after"
    and "length clocks = Suc (length before)"
    and "\<forall>clock \<in> set clocks. \<forall>q \<in> set (before @ [symbol]). \<forall>since.
      map_of (last_resubscribed m) q = Some since \<longrightarrow> since + 1000000000 \<le> fst clock"
    and "connected m" and "feed m = Some sent" and "routed (parser m) symbol = Some (i, d)"
  shows "pending_resubscribes (fold (resubscriber_turn (Kraken_adapter parse)) clocks m) = after \<and>
    (\<exists>others. feed (fold (resubscriber_turn (Kraken_adapter parse)) clocks m) = Some (sent @ others @
      [Kraken_MakeBookRequest kUnsubscribe \<lparr>bs_symbol = symbol, bs_depth = d\<rparr>,
       Kraken_MakeBookRequest kSubscribe \<lparr>bs_symbol = symbol, bs_depth = d\<rparr>]))"
proof -
  let ?a = "Kraken_adapter parse"
  have ok: "manager_ok ?a m" by (rule kraken_manager.reach_manager_ok [OF assms(1)])
  then have subs: "subs_ok ?a (subscriptions m)" and distinct: "distinct (pending_resubscribes m)"
    and routed: "routed (parser m) = table (subscriptions m)"
    by (simp_all add: manager_ok_def core_ok_def)
  obtain s where s: "map_of (subscriptions m) i = Some s" "sub_book s = \<lparr>bs_symbol = symbol, bs_depth = d\<rparr>"
    using assms(8) by (auto simp: routed table_iff [OF subs])
  then have "FindSymbolLocked m symbol = Some (i, s)" by (simp add: FindSymbolLocked_iff [OF subs])
  moreover have "ad_MakeBookRequest ?a = Kraken_MakeBookRequest" by (simp add: Kraken_adapter_def)
  ultimately show ?thesis
    using resubscriber_reaches [OF assms(2,3) distinct assms(4) _ assms(6,7), of i s ?a] assms(5) s(2)
    by (simp add: kMinResubscribeInterval_def)
qed

text \<open>
  How often pairs are resubscribed is read off the connection. A run of the manager
  takes any step of any thread; each turn of the resubscriber is logged with its two
  readings of the clock and the texts it put on the connection, found by comparing
  what was sent before and after it.
\<close>

inductive manager_step ::
    "'w Adapter \<Rightarrow> ('d, L2Parser) decode \<Rightarrow> 'd \<Rightarrow> 'd L2Manager \<Rightarrow> 'd L2Manager \<Rightarrow> bool"
  for a :: "'w Adapter" and Decode :: "('d, L2Parser) decode" and fresh :: 'd where
  step_connect: "L2Manager_Connect a Decode fresh clock opened m = (m', r) \<Longrightarrow> manager_step a Decode fresh m m'"
| step_disconnect: "manager_step a Decode fresh m (DisconnectLocked Decode clock m)"
| step_frame: "feed m \<noteq> None \<Longrightarrow> length (raw_frames_queue m) < kMaxQueuedFrames \<Longrightarrow> frame_typed frame \<Longrightarrow>
     manager_step a Decode fresh m (m\<lparr>raw_frames_queue := raw_frames_queue m @ [frame]\<rparr>)"
| step_parser: "manager_step a Decode fresh m (Parser_Step Decode reading m)"
| step_feed_fails: "feed m \<noteq> None \<Longrightarrow> manager_step a Decode fresh m (m\<lparr>failed := True\<rparr>)"
| step_subscribe: "L2Manager_Subscribe a world i book started built first_locked m = (m', answer) \<Longrightarrow>
     manager_step a Decode fresh m m'"
| step_unsubscribe: "L2Manager_Unsubscribe a i m = (m', gone) \<Longrightarrow> manager_step a Decode fresh m m'"
| step_pairs: "L2Manager_ListPairs a world now m = (m', listed) \<Longrightarrow> manager_step a Decode fresh m m'"
| step_take: "manager_step a Decode fresh m (ResubscribeQueued_take m)"

definition newly_sent :: "'d L2Manager \<Rightarrow> 'd L2Manager \<Rightarrow> string list" where
  "newly_sent m m' = (case (feed m, feed m') of (Some sent, Some sent') \<Rightarrow> drop (length sent) sent' | _ \<Rightarrow> [])"

inductive resubscriber_run ::
    "'w Adapter \<Rightarrow> ('d, L2Parser) decode \<Rightarrow> 'd \<Rightarrow> (int \<times> int \<times> string list) list \<Rightarrow> 'd L2Manager \<Rightarrow> bool"
  for a :: "'w Adapter" and Decode :: "('d, L2Parser) decode" and fresh :: 'd where
  log_new: "resubscriber_run a Decode fresh [] (L2Manager_new a fresh)"
| log_step: "resubscriber_run a Decode fresh log m \<Longrightarrow> manager_step a Decode fresh m m' \<Longrightarrow>
     resubscriber_run a Decode fresh log m'"
| log_turn: "resubscriber_run a Decode fresh log m \<Longrightarrow> now \<le> later \<Longrightarrow> m' = ResubscribeQueued_do a now later m \<Longrightarrow>
     resubscriber_run a Decode fresh (log @ [(now, later, newly_sent m m')]) m'"

lemma manager_step_reach:
  "manager_step a Decode fresh m m' \<Longrightarrow> manager_reach a Decode fresh m \<Longrightarrow> manager_reach a Decode fresh m'"
  by (induction rule: manager_step.induct) (blast intro: manager_reach.intros)+

lemma resubscriber_run_reach: "resubscriber_run a Decode fresh log m \<Longrightarrow> manager_reach a Decode fresh m"
  by (induction rule: resubscriber_run.induct) (auto intro: manager_reach.intros manager_step_reach)

text \<open>Nobody but the resubscriber keeps its times.\<close>

lemma last_resubscribed_simps [simp]:
  "last_resubscribed (Feed_Send str m) = last_resubscribed m"
  "last_resubscribed (SendLocked a q b m) = last_resubscribed m"
  "last_resubscribed (RequestResubscribe symbol m) = last_resubscribed m"
  "last_resubscribed (ResubscribeQueued_take m) = last_resubscribed m"
  "last_resubscribed (Resubscribe a symbol m) = last_resubscribed m"
  by (auto simp: Feed_Send_def SendLocked_def RequestResubscribe_def ResubscribeQueued_take_def Resubscribe_def
      split: option.split list.split)

lemma last_resubscribed_folds [simp]:
  "last_resubscribed (fold RequestResubscribe symbols m) = last_resubscribed m"
  "last_resubscribed (fold Feed_Send strs m) = last_resubscribed m"
  "last_resubscribed (fold (\<lambda>(i, s). SendLocked a q (sub_book s)) subs m) = last_resubscribed m"
  by (induction symbols arbitrary: m, simp_all) (induction strs arbitrary: m, simp_all, induction subs arbitrary: m, auto)

lemma last_resubscribed_parser [simp]:
  "last_resubscribed (Parser_Step Decode reading m) = last_resubscribed m"
  by (auto simp: Parser_Step_def Parser_Consume_def Let_def split: list.split prod.split sum.split)

lemma last_resubscribed_stop [simp]:
  "last_resubscribed (drain Decode clock n m) = last_resubscribed m"
  "last_resubscribed (Parser_Stop Decode clock m) = last_resubscribed m"
  "last_resubscribed (DisconnectLocked Decode clock m) = last_resubscribed m"
proof -
  show d: "last_resubscribed (drain Decode clock n m) = last_resubscribed m" for clock n m
    by (induction n arbitrary: m) simp_all
  then show s: "last_resubscribed (Parser_Stop Decode clock m) = last_resubscribed m" for m
    by (simp add: Parser_Stop_def)
  show "last_resubscribed (DisconnectLocked Decode clock m) = last_resubscribed m"
    by (simp add: DisconnectLocked_def Let_def s)
qed

lemma manager_step_last: "manager_step a Decode fresh m m' \<Longrightarrow> last_resubscribed m' = last_resubscribed m"
proof (induction rule: manager_step.induct)
  case (step_connect clock opened m m' r)
  then show ?case by (auto simp: L2Manager_Connect_def Let_def split: if_splits sum.splits)
next
  case (step_subscribe world i book started built first_locked m m' answer)
  then show ?case
    by (auto simp: L2Manager_Subscribe_def SubscribeLocked_def Let_def split: sum.splits option.splits)
next
  case (step_unsubscribe i m m' gone)
  then show ?case by (auto simp: L2Manager_Unsubscribe_def Let_def split: option.splits)
next
  case (step_pairs world now m m' listed)
  then show ?case by (auto simp: L2Manager_ListPairs_def Let_def split: if_splits sum.splits)
qed simp_all

text \<open>What a turn sends: nothing, or the two requests of the pair it serves, if its interval is over.\<close>

lemma turn_sends:
  assumes "manager_ok a m" and "newly_sent m (ResubscribeQueued_do a now later m) \<noteq> []"
  obtains b where "resubscribing m = Some (bs_symbol b)" "interval_over now (bs_symbol b) m"
    "CheckBook a b = Inr ()"
    "newly_sent m (ResubscribeQueued_do a now later m) =
       [ad_MakeBookRequest a kUnsubscribe b, ad_MakeBookRequest a kSubscribe b]"
proof -
  have subs: "subs_ok a (subscriptions m)" using assms(1) by (simp add: manager_ok_def core_ok_def)
  have quiet: "newly_sent m m' = []" if "feed m' = feed m" for m'
    using that by (simp add: newly_sent_def split: option.split)
  obtain symbol where symbol: "resubscribing m = Some symbol" "interval_over now symbol m"
    using assms(2) quiet by (auto simp: ResubscribeQueued_do_def split: option.splits if_splits)
  then have do: "newly_sent m (ResubscribeQueued_do a now later m) = newly_sent m (Resubscribe a symbol m)"
    by (simp add: ResubscribeQueued_do_def newly_sent_def)
  obtain i s where s: "FindSymbolLocked m symbol = Some (i, s)" "connected m"
    using assms(2) quiet by (auto simp: do Resubscribe_def split: option.splits if_splits)
  have "map_of (subscriptions m) i = Some s" "bs_symbol (sub_book s) = symbol"
    using FindSymbolLocked_iff [OF subs] s(1) by simp_all
  moreover from this have "CheckBook a (sub_book s) = Inr ()" using subs by (simp add: subs_ok_def)
  moreover obtain sent where "feed m = Some sent"
    using assms(2) by (auto simp: newly_sent_def split: option.splits)
  then have "newly_sent m (Resubscribe a symbol m) =
      [ad_MakeBookRequest a kUnsubscribe (sub_book s), ad_MakeBookRequest a kSubscribe (sub_book s)]"
    using s by (simp add: Resubscribe_def newly_sent_def)
  ultimately show ?thesis using that [of "sub_book s"] symbol do by simp
qed

context venue_manager
begin

definition asks_for :: "string \<Rightarrow> string list \<Rightarrow> bool" where
  "asks_for symbol sent \<longleftrightarrow> (\<exists>q b. CheckBook a b = Inr () \<and> bs_symbol b = symbol \<and> ad_MakeBookRequest a q b \<in> set sent)"

lemma asks_for_pair:
  assumes "CheckBook a b = Inr ()"
  shows "asks_for symbol [ad_MakeBookRequest a q b, ad_MakeBookRequest a q' b] \<longleftrightarrow> symbol = bs_symbol b"
proof -
  have "ad_CheckSymbol a (bs_symbol c) = Inr () \<and> bs_depth c \<in> set (ad_depths a)" if "CheckBook a c = Inr ()" for c
    using that by (simp add: CheckBook_def split: if_splits)
  then have "c = b" if "CheckBook a c = Inr ()" "ad_MakeBookRequest a p c = ad_MakeBookRequest a p' b" for c p p'
    using request_inj [of c b p p'] that assms by blast
  then show ?thesis using assms unfolding asks_for_def by simp metis
qed

text \<open>Each send is at or before the time kept for its pair, and a second or more after the one before.\<close>

lemma run_spaced:
  assumes "resubscriber_run a Decode fresh log m"
  shows "(\<forall>(now, later, sent) \<in> set log. sent = [] \<or>
      (\<exists>b since. CheckBook a b = Inr () \<and> map_of (last_resubscribed m) (bs_symbol b) = Some since \<and> later \<le> since \<and>
        sent = [ad_MakeBookRequest a kUnsubscribe b, ad_MakeBookRequest a kSubscribe b])) \<and>
    sorted_wrt (\<lambda>(now, later, sent) (now', later', sent').
      \<forall>symbol. asks_for symbol sent \<longrightarrow> asks_for symbol sent' \<longrightarrow> later + 1000000000 \<le> now') log"
  using assms
proof (induction rule: resubscriber_run.induct)
  case (log_step log m m')
  then show ?case using manager_step_last [OF log_step(2)] by simp
next
  case (log_turn log m now later m')
  have ok: "manager_ok a m" using resubscriber_run_reach [OF log_turn(1)] by (rule reach_manager_ok)
  let ?sent = "newly_sent m m'"
  have kept: "\<exists>since'. map_of (last_resubscribed m') symbol = Some since' \<and> since \<le> since'"
    if "map_of (last_resubscribed m) symbol = Some since" for symbol since
    using that log_turn(2)
    by (auto simp: log_turn(3) ResubscribeQueued_do_def map_ops interval_over_def kMinResubscribeInterval_def
        split: option.split)
  have old: "sent = [] \<or> (\<exists>b since. CheckBook a b = Inr () \<and> map_of (last_resubscribed m') (bs_symbol b) = Some since \<and>
      later\<^sub>0 \<le> since \<and> sent = [ad_MakeBookRequest a kUnsubscribe b, ad_MakeBookRequest a kSubscribe b])"
    if mem: "(now\<^sub>0, later\<^sub>0, sent) \<in> set log" for now\<^sub>0 later\<^sub>0 sent
  proof (cases "sent = []")
    case False
    then obtain b since where b: "CheckBook a b = Inr ()" "later\<^sub>0 \<le> since"
      "map_of (last_resubscribed m) (bs_symbol b) = Some since"
      "sent = [ad_MakeBookRequest a kUnsubscribe b, ad_MakeBookRequest a kSubscribe b]"
      using bspec [OF conjunct1 [OF log_turn.IH] mem] by auto
    from kept [OF b(3)] b(2) obtain since' where
      "map_of (last_resubscribed m') (bs_symbol b) = Some since'" "later\<^sub>0 \<le> since'" by auto
    with b(1,4) show ?thesis by blast
  qed simp
  have new: "?sent = [] \<or> (\<exists>b. resubscribing m = Some (bs_symbol b) \<and> interval_over now (bs_symbol b) m \<and>
      CheckBook a b = Inr () \<and> ?sent = [ad_MakeBookRequest a kUnsubscribe b, ad_MakeBookRequest a kSubscribe b])"
    using turn_sends [OF ok] log_turn(3) by metis
  have own: "map_of (last_resubscribed m') (bs_symbol b) = Some later"
    if "resubscribing m = Some (bs_symbol b)" "interval_over now (bs_symbol b) m" for b
    using that by (simp add: log_turn(3) ResubscribeQueued_do_def map_ops)
  have spaced: "later\<^sub>0 + 1000000000 \<le> now"
    if mem: "(now\<^sub>0, later\<^sub>0, sent) \<in> set log" "asks_for symbol sent" "asks_for symbol ?sent" for now\<^sub>0 later\<^sub>0 sent symbol
  proof -
    have "?sent \<noteq> []" using mem(3) by (auto simp: asks_for_def)
    then obtain b where b: "interval_over now (bs_symbol b) m" "CheckBook a b = Inr ()"
      and sent: "?sent = [ad_MakeBookRequest a kUnsubscribe b, ad_MakeBookRequest a kSubscribe b]"
      using new by blast
    have "symbol = bs_symbol b" using mem(3) unfolding sent asks_for_pair [OF b(2)] .
    note b = b(1) this
    obtain c since where c: "later\<^sub>0 \<le> since" "CheckBook a c = Inr ()"
      "map_of (last_resubscribed m) (bs_symbol c) = Some since"
      "sent = [ad_MakeBookRequest a kUnsubscribe c, ad_MakeBookRequest a kSubscribe c]"
      using bspec [OF conjunct1 [OF log_turn.IH] mem(1)] mem(2) by (auto simp: asks_for_def)
    have "symbol = bs_symbol c" using mem(2) c(2) unfolding c(4) asks_for_pair [OF c(2)] by simp
    with b c(1,3) show ?thesis by (simp add: interval_over_def kMinResubscribeInterval_def)
  qed
  have "\<forall>(now, later, sent) \<in> set (log @ [(now, later, ?sent)]). sent = [] \<or>
      (\<exists>b since. CheckBook a b = Inr () \<and> map_of (last_resubscribed m') (bs_symbol b) = Some since \<and> later \<le> since \<and>
        sent = [ad_MakeBookRequest a kUnsubscribe b, ad_MakeBookRequest a kSubscribe b])"
    using old new own by fastforce
  moreover have "sorted_wrt (\<lambda>(now, later, sent) (now', later', sent').
      \<forall>symbol. asks_for symbol sent \<longrightarrow> asks_for symbol sent' \<longrightarrow> later + 1000000000 \<le> now')
      (log @ [(now, later, ?sent)])"
    using log_turn.IH spaced by (auto simp: sorted_wrt_append)
  ultimately show ?case by blast
qed simp

end

text \<open>A connected manager whose one pair's snapshot fails its checksum.\<close>

definition demo_subscribed :: "unit L2Manager" where
  "demo_subscribed =
     fst (L2Manager_Subscribe demo_adapter demo_http 5 demo_spec 0 (Inr ()) demo_connected demo_connected)"

definition demo_waiting :: "unit L2Manager" where
  "demo_waiting = Parser_Step demo_decode (0, 1)
     (demo_subscribed\<lparr>raw_frames_queue := raw_frames_queue demo_subscribed @ [demo_frame]\<rparr>)"

lemma demo_subscribed_eq:
  "demo_subscribed = SendLocked demo_adapter kSubscribe demo_spec (demo_connected\<lparr>
     subscriptions := [(5, \<lparr>sub_book = demo_spec, sub_start_time_ns = 0\<rparr>)],
     parser := deliver (Attached 5 10) (set_route ''A/B'' \<lparr>rt_precision = \<lparr>price_decimals = 1, qty_decimals = 2\<rparr>,
       rt_receiver = 5, awaiting_snapshot = True, rt_book = Book_of_depth 10\<rparr> (parser demo_connected))\<rparr>)"
proof -
  have "parser demo_connected = L2Parser_Start (L2Parser_new (Some BookChecksum))"
    by (simp add: demo_connected_def L2Manager_Connect_def L2Manager_new_def healthy_def DisconnectLocked_def
        Parser_Stop_def Kraken_adapter_def Let_def)
  then show ?thesis
    by (simp add: demo_subscribed_def L2Manager_Subscribe_def demo_check ResolveTakenLocked_def FindSymbolLocked_def
        demo_precision SubscribeLocked_def demo_connected_fields L2Parser_Attach_def L2Parser_Start_def
        L2Parser_new_def emplace_def)
qed

lemma demo_subscribed_fields:
  "subscriptions demo_subscribed = [(5, \<lparr>sub_book = demo_spec, sub_start_time_ns = 0\<rparr>)]"
  "raw_frames_queue demo_subscribed = []" "parser_running demo_subscribed" "connected demo_subscribed"
  "feed demo_subscribed = Some [Kraken_MakeBookRequest kSubscribe demo_spec]"
  "resubscribing demo_subscribed = None" "pending_resubscribes demo_subscribed = []"
  "last_resubscribed demo_subscribed = []" "history (parser demo_subscribed) = [Attached 5 10, Started]"
  "checksum_check (parser demo_subscribed) = Some BookChecksum"
  "map_of (routes (parser demo_subscribed)) ''A/B'' = Some \<lparr>rt_precision = \<lparr>price_decimals = 1, qty_decimals = 2\<rparr>,
     rt_receiver = 5, awaiting_snapshot = True, rt_book = Book_of_depth 10\<rparr>"
proof -
  have c: "parser demo_connected = L2Parser_Start (L2Parser_new (Some BookChecksum))" "raw_frames_queue demo_connected = []"
    "parser_running demo_connected" "resubscribing demo_connected = None" "pending_resubscribes demo_connected = []"
    "last_resubscribed demo_connected = []"
    by (simp_all add: demo_connected_def L2Manager_Connect_def L2Manager_new_def healthy_def DisconnectLocked_def
        Parser_Stop_def Kraken_adapter_def Let_def)
  show "subscriptions demo_subscribed = [(5, \<lparr>sub_book = demo_spec, sub_start_time_ns = 0\<rparr>)]"
  "raw_frames_queue demo_subscribed = []" "parser_running demo_subscribed" "connected demo_subscribed"
  "feed demo_subscribed = Some [Kraken_MakeBookRequest kSubscribe demo_spec]"
  "resubscribing demo_subscribed = None" "pending_resubscribes demo_subscribed = []"
  "last_resubscribed demo_subscribed = []" "history (parser demo_subscribed) = [Attached 5 10, Started]"
  "checksum_check (parser demo_subscribed) = Some BookChecksum"
  "map_of (routes (parser demo_subscribed)) ''A/B'' = Some \<lparr>rt_precision = \<lparr>price_decimals = 1, qty_decimals = 2\<rparr>,
     rt_receiver = 5, awaiting_snapshot = True, rt_book = Book_of_depth 10\<rparr>"
    unfolding demo_subscribed_eq
    by (simp_all add: c demo_connected_fields SendLocked_def Feed_Send_def L2Parser_Start_def L2Parser_new_def
        Kraken_adapter_def map_ops)
qed

lemma demo_waiting_fields:
  "manager_reach demo_adapter demo_decode () demo_waiting" "resubscribing demo_waiting = None"
  "pending_resubscribes demo_waiting = [''A/B'']" "last_resubscribed demo_waiting = []" "connected demo_waiting"
  "feed demo_waiting = Some [Kraken_MakeBookRequest kSubscribe demo_spec]"
  "routed (parser demo_waiting) ''A/B'' = Some (5, 10)"
proof -
  let ?m = "demo_subscribed\<lparr>raw_frames_queue := raw_frames_queue demo_subscribed @ [demo_frame]\<rparr>"
  have sub: "manager_reach demo_adapter demo_decode () demo_subscribed"
    unfolding demo_subscribed_def by (rule run_subscribe [OF demo_connected_fields(1)]) (rule prod.collapse [symmetric])
  have "manager_reach demo_adapter demo_decode () ?m"
    by (rule run_frame [OF sub]) (simp_all add: demo_subscribed_fields kMaxQueuedFrames_def)
  then show reach: "manager_reach demo_adapter demo_decode () demo_waiting"
    unfolding demo_waiting_def by (rule run_parser)
  have find: "L2Parser_Find (parser demo_subscribed\<lparr>parse_start_ns := 0\<rparr>) ''A/B'' kSnapshot =
      Some \<lparr>price_decimals = 1, qty_decimals = 2\<rparr>"
    by (simp add: L2Parser_Find_def FindRoute_def demo_subscribed_fields)
  have bad: "BookChecksum (Book_Apply (demo_message\<lparr>checksum := 1\<rparr>) (Book_of_depth 10)) \<noteq> 1"
  proof -
    have "Book_Apply (demo_message\<lparr>checksum := 1\<rparr>) (Book_of_depth 10) = demo_book"
      by (simp add: demo_book_def Book_Apply_def demo_message_def)
    then show ?thesis using demo_checksum by simp
  qed
  have msg: "msg_symbol demo_message = ''A/B''" "msg_type demo_message = kSnapshot"
    by (simp_all add: demo_message_def)
  have w: "resubscribing demo_waiting = None" "pending_resubscribes demo_waiting = [''A/B'']"
    "last_resubscribed demo_waiting = []" "connected demo_waiting"
    "feed demo_waiting = Some [Kraken_MakeBookRequest kSubscribe demo_spec]"
    "subscriptions demo_waiting = [(5, \<lparr>sub_book = demo_spec, sub_start_time_ns = 0\<rparr>)]"
    using demo_decode [of L2Parser_Find "parser demo_subscribed\<lparr>parse_start_ns := 0\<rparr>", OF find] bad msg
    by (simp_all add: demo_waiting_def Parser_Step_def Parser_Consume_def demo_subscribed_fields L2Parser_Dispatch_def
        L2Parser_Emit_def FindRoute_def Let_def new_reports_def RequestResubscribe_def)
  then show "resubscribing demo_waiting = None" "pending_resubscribes demo_waiting = [''A/B'']"
    "last_resubscribed demo_waiting = []" "connected demo_waiting"
    "feed demo_waiting = Some [Kraken_MakeBookRequest kSubscribe demo_spec]" by blast+
  show "routed (parser demo_waiting) ''A/B'' = Some (5, 10)"
    using kraken_manager.reach_manager_ok [OF reach] w(6) by (simp add: manager_ok_def core_ok_def table_def)
qed

theorem kraken_resubscribes_waiting_pair_witness:
  "pending_resubscribes (resubscriber_turn demo_adapter (1, 2) demo_waiting) = [] \<and>
   (\<exists>others. feed (resubscriber_turn demo_adapter (1, 2) demo_waiting) =
     Some ([Kraken_MakeBookRequest kSubscribe demo_spec] @ others @ [Kraken_MakeBookRequest kUnsubscribe demo_spec,
       Kraken_MakeBookRequest kSubscribe demo_spec]))"
  using kraken_resubscribes_waiting_pair [OF demo_waiting_fields(1,2), of "[]" "''A/B''" "[]" "[(1, 2)]"
      "[Kraken_MakeBookRequest kSubscribe demo_spec]" 5 10] demo_waiting_fields
  by simp

text \<open>
  C31. No pair is resubscribed more than once a second, whatever frames, mismatches,
  calls and connections come in between and whenever the thread looks at its clock:
  each turn of the resubscriber sends nothing, or to unsubscribe from and to subscribe
  to one checked book again; and of any two turns that send a request for the same
  pair, the later one started a second or more after the earlier one ended. The
  requests are those found on the connection, which the texts name unambiguously.
\<close>

theorem resubscribes_at_most_once_a_second:
  assumes "resubscriber_run (Kraken_adapter parse) (Kraken_Decode parse_frame unspec) () log m"
  shows "(\<forall>(now, later, sent) \<in> set log. sent = [] \<or>
      (\<exists>b. CheckBook (Kraken_adapter parse) b = Inr () \<and>
        sent = [Kraken_MakeBookRequest kUnsubscribe b, Kraken_MakeBookRequest kSubscribe b])) \<and>
    sorted_wrt (\<lambda>(now, later, sent) (now', later', sent').
      \<forall>q q' b b'. CheckBook (Kraken_adapter parse) b = Inr () \<longrightarrow> CheckBook (Kraken_adapter parse) b' = Inr () \<longrightarrow>
        Kraken_MakeBookRequest q b \<in> set sent \<longrightarrow> Kraken_MakeBookRequest q' b' \<in> set sent' \<longrightarrow>
        bs_symbol b = bs_symbol b' \<longrightarrow> later + 1000000000 \<le> now') log"
proof -
  have a: "ad_MakeBookRequest (Kraken_adapter parse) = Kraken_MakeBookRequest" by (simp add: Kraken_adapter_def)
  note spaced = kraken_manager.run_spaced [OF assms]
  show ?thesis
  proof
    show "\<forall>(now, later, sent) \<in> set log. sent = [] \<or>
      (\<exists>b. CheckBook (Kraken_adapter parse) b = Inr () \<and>
        sent = [Kraken_MakeBookRequest kUnsubscribe b, Kraken_MakeBookRequest kSubscribe b])"
      using conjunct1 [OF spaced] by (fastforce simp: a)
    show "sorted_wrt (\<lambda>(now, later, sent) (now', later', sent').
      \<forall>q q' b b'. CheckBook (Kraken_adapter parse) b = Inr () \<longrightarrow> CheckBook (Kraken_adapter parse) b' = Inr () \<longrightarrow>
        Kraken_MakeBookRequest q b \<in> set sent \<longrightarrow> Kraken_MakeBookRequest q' b' \<in> set sent' \<longrightarrow>
        bs_symbol b = bs_symbol b' \<longrightarrow> later + 1000000000 \<le> now') log"
      by (rule sorted_wrt_mono_rel [OF _ conjunct2 [OF spaced]])
        (auto simp: kraken_manager.asks_for_def a)
  qed
qed

text \<open>Two frames with a bad checksum, and three turns of the resubscriber.\<close>

definition demo_streams :: "string list \<Rightarrow> string list \<Rightarrow> string option \<Rightarrow> (string \<times> int) list \<Rightarrow> unit L2Manager \<Rightarrow> bool" where
  "demo_streams sent waiting serving kept m \<longleftrightarrow>
     connected m \<and> parser_running m \<and> raw_frames_queue m = [] \<and> feed m = Some sent \<and>
     subscriptions m = [(5, \<lparr>sub_book = demo_spec, sub_start_time_ns = 0\<rparr>)] \<and>
     pending_resubscribes m = waiting \<and> resubscribing m = serving \<and> last_resubscribed m = kept \<and>
     checksum_check (parser m) = Some BookChecksum \<and>
     (\<exists>rt. map_of (routes (parser m)) ''A/B'' = Some rt \<and>
        rt_precision rt = \<lparr>price_decimals = 1, qty_decimals = 2\<rparr> \<and> bk_depth (rt_book rt) = 10)"

definition demo_bad_frame :: "unit L2Manager \<Rightarrow> unit L2Manager" where
  "demo_bad_frame m = Parser_Step demo_decode (0, 1) (m\<lparr>raw_frames_queue := raw_frames_queue m @ [demo_frame]\<rparr>)"

abbreviation demo_again :: "string list" where
  "demo_again \<equiv> [Kraken_MakeBookRequest kUnsubscribe demo_spec, Kraken_MakeBookRequest kSubscribe demo_spec]"

lemma demo_bad_streams:
  assumes "demo_streams sent [] serving kept m"
  shows "demo_streams sent [''A/B''] serving kept (demo_bad_frame m)"
proof -
  obtain rt where rt: "map_of (routes (parser m)) ''A/B'' = Some rt"
    "rt_precision rt = \<lparr>price_decimals = 1, qty_decimals = 2\<rparr>" "bk_depth (rt_book rt) = 10"
    using assms by (auto simp: demo_streams_def)
  have find: "L2Parser_Find (parser m\<lparr>parse_start_ns := 0\<rparr>) ''A/B'' kSnapshot =
      Some \<lparr>price_decimals = 1, qty_decimals = 2\<rparr>"
    using rt by (simp add: L2Parser_Find_def FindRoute_def)
  have "Book_Apply (demo_message\<lparr>checksum := 1\<rparr>) (rt_book rt) = demo_book"
    using rt(3) by (simp add: demo_book_def Book_Apply_def Book_of_depth_def Book_Clear_def demo_message_def)
  then have bad: "BookChecksum (Book_Apply (demo_message\<lparr>checksum := 1\<rparr>) (rt_book rt)) \<noteq> 1"
    using demo_checksum by simp
  have depth: "bk_depth (Book_Apply (demo_message\<lparr>checksum := 1\<rparr>) (rt_book rt)) = 10"
    using rt(3) by (simp add: Book_Apply_def Book_Clear_def Let_def)
  have msg: "msg_symbol demo_message = ''A/B''" "msg_type demo_message = kSnapshot"
    by (simp_all add: demo_message_def)
  show ?thesis
    using assms rt bad depth msg demo_decode [of L2Parser_Find "parser m\<lparr>parse_start_ns := 0\<rparr>", OF find]
    by (simp add: demo_streams_def demo_bad_frame_def Parser_Step_def Parser_Consume_def L2Parser_Dispatch_def
        L2Parser_Emit_def FindRoute_def Let_def new_reports_def RequestResubscribe_def Book_Clear_def map_ops)
qed

lemma demo_take:
  "demo_streams sent [''A/B''] None kept m \<Longrightarrow> demo_streams sent [] (Some ''A/B'') kept (ResubscribeQueued_take m)"
  by (simp add: demo_streams_def ResubscribeQueued_take_def)

lemma demo_turn:
  assumes "demo_streams sent waiting (Some ''A/B'') kept m"
    and "case map_of kept ''A/B'' of None \<Rightarrow> True | Some since \<Rightarrow> since + 1000000000 \<le> now"
  shows "demo_streams (sent @ demo_again) waiting None (insert_or_assign (<) ''A/B'' later kept)
      (ResubscribeQueued_do demo_adapter now later m)"
    and "newly_sent m (ResubscribeQueued_do demo_adapter now later m) = demo_again"
proof -
  have a: "ad_MakeBookRequest demo_adapter = Kraken_MakeBookRequest" by (simp add: Kraken_adapter_def)
  have "FindSymbolLocked m ''A/B'' = Some (5, \<lparr>sub_book = demo_spec, sub_start_time_ns = 0\<rparr>)" "interval_over now ''A/B'' m"
    using assms
    by (auto simp: demo_streams_def FindSymbolLocked_def interval_over_def kMinResubscribeInterval_def split: option.split)
  then have turn: "ResubscribeQueued_do demo_adapter now later m =
      (SendLocked demo_adapter kSubscribe demo_spec (SendLocked demo_adapter kUnsubscribe demo_spec m))
        \<lparr>resubscribing := None, last_resubscribed := insert_or_assign (<) ''A/B'' later (last_resubscribed m)\<rparr>"
    using assms(1) by (simp add: demo_streams_def ResubscribeQueued_do_def Resubscribe_def)
  show "demo_streams (sent @ demo_again) waiting None (insert_or_assign (<) ''A/B'' later kept)
      (ResubscribeQueued_do demo_adapter now later m)"
    "newly_sent m (ResubscribeQueued_do demo_adapter now later m) = demo_again"
    using assms(1) unfolding turn demo_streams_def newly_sent_def by (simp_all add: a)
qed

lemma demo_bad_step:
  "demo_streams sent waiting serving kept m \<Longrightarrow> resubscriber_run demo_adapter demo_decode () log m \<Longrightarrow>
     resubscriber_run demo_adapter demo_decode () log (demo_bad_frame m)"
  unfolding demo_bad_frame_def
  by (rule log_step [OF log_step [OF _ step_frame] step_parser]) (simp_all add: demo_streams_def kMaxQueuedFrames_def)

lemma demo_resubscriber_run:
  "\<exists>m. resubscriber_run demo_adapter demo_decode ()
     [(1, 2, demo_again), (9, 10, []), (1000000002, 1000000003, demo_again)] m"
proof -
  let ?run = "resubscriber_run demo_adapter demo_decode ()"
  have "?run [] demo_connected"
    unfolding demo_connected_def
    by (rule log_step [OF log_new step_connect]) (rule prod.collapse [symmetric])
  then have run: "?run [] demo_subscribed"
    unfolding demo_subscribed_def by (rule log_step [OF _ step_subscribe]) (rule prod.collapse [symmetric])
  let ?sent = "[Kraken_MakeBookRequest kSubscribe demo_spec]"
  have "demo_streams ?sent [] None [] demo_subscribed"
    by (simp add: demo_streams_def demo_subscribed_fields Book_of_depth_def)
  note a = demo_bad_streams [OF this]
  note b = demo_take [OF a]
  note c = demo_bad_streams [OF b]
  define m where "m = demo_bad_frame (ResubscribeQueued_take (demo_bad_frame demo_subscribed))"
  have run: "?run [] m"
    using demo_bad_step [OF b log_step [OF demo_bad_step [OF _ run] step_take]] a demo_subscribed_fields
    by (auto simp: m_def demo_streams_def Book_of_depth_def)
  define m1 where "m1 = ResubscribeQueued_do demo_adapter 1 2 m"
  have sent: "newly_sent m m1 = demo_again"
    and m1: "demo_streams (?sent @ demo_again) [''A/B''] None [(''A/B'', 2)] m1"
    using demo_turn [OF c [folded m_def], of 1 2] by (simp_all add: m1_def map_ops)
  have "?run ([] @ [(1, 2, newly_sent m m1)]) m1" by (rule log_turn [OF run _ m1_def]) simp
  then have run: "?run [(1, 2, demo_again)] (ResubscribeQueued_take m1)"
    unfolding sent by (auto intro: log_step step_take)
  define m2 where "m2 = ResubscribeQueued_take m1"
  have m2: "demo_streams (?sent @ demo_again) [] (Some ''A/B'') [(''A/B'', 2)] m2"
    unfolding m2_def by (rule demo_take [OF m1])
  have early: "ResubscribeQueued_do demo_adapter 9 10 m2 = m2"
    using m2 by (simp add: ResubscribeQueued_do_def demo_streams_def interval_over_def kMinResubscribeInterval_def)
  have "newly_sent m2 m2 = []" by (simp add: newly_sent_def split: option.split)
  with log_turn [OF run [folded m2_def], of 9 10 m2] early
  have run: "?run [(1, 2, demo_again), (9, 10, [])] m2" by simp
  from log_turn [OF run _ refl, of 1000000002 1000000003] demo_turn(2) [OF m2, of 1000000002 1000000003]
  show ?thesis by auto
qed

theorem resubscribes_at_most_once_a_second_witness:
  "\<exists>m. resubscriber_run demo_adapter demo_decode ()
     [(1, 2, demo_again), (9, 10, []), (1000000002, 1000000003, demo_again)] m \<and> (2 :: int) + 1000000000 \<le> 1000000002"
proof -
  obtain m where m: "resubscriber_run demo_adapter demo_decode ()
     [(1, 2, demo_again), (9, 10, []), (1000000002, 1000000003, demo_again)] m"
    using demo_resubscriber_run by blast
  from conjunct2 [OF resubscribes_at_most_once_a_second [OF m]] demo_check
  have "(2 :: int) + 1000000000 \<le> 1000000002"
    by simp
  with m show ?thesis by blast
qed

end
