(* ===== verification/VenueRouter.thy ===== *)
theory VenueRouter
  imports VenueL2ManagerRuns
begin

text \<open>
  venue/router.h and venue/router.cc: commands routed to the venue they name, ids
  handed out over all venues, and unhealthy venues reconnected with a backoff. The
  interface \<^verbatim>\<open>venue::Manager\<close> is a record of operations with its contract as a locale,
  which both venues' managers meet; the Router's lemmas are proved from the contract.
\<close>

section \<open>The interface of a manager\<close>

text \<open>What the outside decides of a call: the venue's answers, the clocks, the network, the receiver.\<close>

record 'w venue_input =
  in_world :: 'w
  in_now :: int
  in_clock :: "nat \<Rightarrow> i64 \<times> i64"
  in_opened :: "unit result"
  in_started :: i64
  in_built :: "unit result"

text \<open>\<open>mn_Subscribe\<close> takes the state at its first lock too.\<close>

record ('e, 'm) Manager =
  mn_name :: string
  mn_Connect :: "'e \<Rightarrow> 'm \<Rightarrow> 'm \<times> unit result"
  mn_healthy :: "'m \<Rightarrow> bool"
  mn_Subscribe :: "'e \<Rightarrow> 'm \<Rightarrow> SubscriptionId \<Rightarrow> BookSpec \<Rightarrow> 'm \<Rightarrow> 'm \<times> SubscriptionId expected result"
  mn_Unsubscribe :: "SubscriptionId \<Rightarrow> 'm \<Rightarrow> 'm \<times> unit expected"
  mn_List :: "'m \<Rightarrow> SubscriptionInfo list"
  mn_ListPairs :: "'e \<Rightarrow> 'm \<Rightarrow> 'm \<times> PairList expected"

definition L2_manager ::
    "('v \<Rightarrow> 'w) \<Rightarrow> 'w Adapter \<Rightarrow> ('d, L2Parser) decode \<Rightarrow> 'd \<Rightarrow> ('v venue_input, 'd L2Manager) Manager" where
  "L2_manager sel a Decode fresh =
     \<lparr>mn_name = ad_name a,
      mn_Connect = (\<lambda>e. L2Manager_Connect a Decode fresh (in_clock e) (in_opened e)),
      mn_healthy = healthy,
      mn_Subscribe = (\<lambda>e first i book. L2Manager_Subscribe a (sel (in_world e)) i book (in_started e) (in_built e) first),
      mn_Unsubscribe = L2Manager_Unsubscribe a,
      mn_List = L2Manager_List,
      mn_ListPairs = (\<lambda>e. L2Manager_ListPairs a (sel (in_world e)) (in_now e))\<rparr>"

section \<open>The code\<close>

record 'm Router =
  managers :: "(Id \<times> 'm) list"
  next_counter :: u64

record Backoff =
  bo_initial :: int
  bo_max :: int

record Listing =
  ls_venue :: Id
  ls_subscription :: SubscriptionInfo

record VenueStatus =
  vs_venue :: Id
  vs_name :: string
  vs_connected :: bool

text \<open>A venue's manager after one of its methods.\<close>

definition put :: "Id \<Rightarrow> 'm \<Rightarrow> 'm Router \<Rightarrow> 'm Router" where
  "put venue m r = r\<lparr>managers := insert_or_assign (<) venue m (managers r)\<rparr>"

definition UnknownVenue :: "Id \<Rightarrow> 'a expected" where
  "UnknownVenue venue = Failure kUnknownVenue (''No venue '' @ nat_to_dec (unat venue))"

definition Router_new :: "(Id \<times> 'm) list \<Rightarrow> 'm Router" where
  "Router_new ms = \<lparr>managers = ms, next_counter = 1\<rparr>"

definition Router_Subscribe ::
    "(Id \<Rightarrow> ('e, 'm) Manager) \<Rightarrow> Sink \<Rightarrow> 'e \<Rightarrow> 'm \<Rightarrow> Id \<Rightarrow> BookSpec \<Rightarrow> 'm Router \<Rightarrow>
       'm Router \<times> SubscriptionId expected result" where
  "Router_Subscribe mgr sink e first venue book r =
     (case map_of (managers r) venue of
        None \<Rightarrow> (r, Inr (UnknownVenue venue))
      | Some m \<Rightarrow>
          let counter = next_counter r; r = r\<lparr>next_counter := counter + 1\<rparr>
          in if counter > kMaxSubscriptionsAllowed
             then (r, Inr (Failure kIdsExhausted
                    (''All '' @ nat_to_dec (unat kMaxSubscriptionsAllowed) @ '' subscription ids are taken'')))
             else (case mn_Subscribe (mgr venue) e first (MakeSubscriptionId counter venue sink) book m of
                     (m, answer) \<Rightarrow> (put venue m r, answer)))"

definition Router_Unsubscribe ::
    "(Id \<Rightarrow> ('e, 'm) Manager) \<Rightarrow> SubscriptionId \<Rightarrow> 'm Router \<Rightarrow> 'm Router \<times> unit expected" where
  "Router_Unsubscribe mgr i r =
     (case map_of (managers r) (VenueOf i) of
        None \<Rightarrow> (r, Failure kUnknownId (''No subscription '' @ nat_to_dec (unat i)))
      | Some m \<Rightarrow> (case mn_Unsubscribe (mgr (VenueOf i)) i m of (m, gone) \<Rightarrow> (put (VenueOf i) m r, gone)))"

definition Router_List :: "(Id \<Rightarrow> ('e, 'm) Manager) \<Rightarrow> 'm Router \<Rightarrow> Listing list" where
  "Router_List mgr r =
     concat (map (\<lambda>(venue, m). map (\<lambda>s. \<lparr>ls_venue = venue, ls_subscription = s\<rparr>) (mn_List (mgr venue) m)) (managers r))"

definition Router_ListVenues :: "(Id \<Rightarrow> ('e, 'm) Manager) \<Rightarrow> 'm Router \<Rightarrow> VenueStatus list" where
  "Router_ListVenues mgr r =
     map (\<lambda>(venue, m). \<lparr>vs_venue = venue, vs_name = mn_name (mgr venue), vs_connected = mn_healthy (mgr venue) m\<rparr>)
       (managers r)"

definition Router_ListPairs ::
    "(Id \<Rightarrow> ('e, 'm) Manager) \<Rightarrow> 'e \<Rightarrow> Id \<Rightarrow> 'm Router \<Rightarrow> 'm Router \<times> PairList expected" where
  "Router_ListPairs mgr e venue r =
     (case map_of (managers r) venue of
        None \<Rightarrow> (r, UnknownVenue venue)
      | Some m \<Rightarrow> (case mn_ListPairs (mgr venue) e m of (m, listed) \<Rightarrow> (put venue m r, listed)))"

text \<open>
  The supervisor: when a venue may next be tried, in nanoseconds of the steady clock,
  and how long to wait if that try fails, in milliseconds. One pass over the venues.
\<close>

record Retry =
  next_attempt :: int
  delay :: int

definition retries_new :: "Backoff \<Rightarrow> Id \<Rightarrow> Retry" where
  "retries_new backoff = (\<lambda>venue. \<lparr>next_attempt = 0, delay = bo_initial backoff\<rparr>)"

definition supervise_venue ::
    "(Id \<Rightarrow> ('e, 'm) Manager) \<Rightarrow> Backoff \<Rightarrow> 'e \<Rightarrow> int \<Rightarrow> int \<Rightarrow> Id \<Rightarrow> 'm \<times> Retry \<Rightarrow> 'm \<times> Retry" where
  "supervise_venue mgr backoff e now failed_at venue mr =
     (case mr of (m, retry) \<Rightarrow>
        if mn_healthy (mgr venue) m \<or> now < next_attempt retry then (m, retry)
        else (case mn_Connect (mgr venue) e m of
                (m, Inr _) \<Rightarrow> (m, retry\<lparr>delay := bo_initial backoff\<rparr>)
              | (m, Inl _) \<Rightarrow> (m, retry\<lparr>next_attempt := failed_at + delay retry * 1000000,
                                    delay := min (delay retry * 2) (bo_max backoff)\<rparr>)))"

fun supervise_pass ::
    "(Id \<Rightarrow> ('e, 'm) Manager) \<Rightarrow> Backoff \<Rightarrow> (Id \<Rightarrow> 'e) \<Rightarrow> int \<Rightarrow> (Id \<Rightarrow> int) \<Rightarrow> (Id \<times> 'm) list \<Rightarrow> (Id \<Rightarrow> Retry) \<Rightarrow>
       (Id \<times> 'm) list \<times> (Id \<Rightarrow> Retry)" where
  "supervise_pass mgr backoff e now failed_at [] retries = ([], retries)"
| "supervise_pass mgr backoff e now failed_at ((venue, m) # ms) retries =
     (case supervise_venue mgr backoff (e venue) now (failed_at venue) venue (m, retries venue) of
        (m, retry) \<Rightarrow>
          (case supervise_pass mgr backoff e now failed_at ms (retries(venue := retry)) of
             (ms, retries) \<Rightarrow> ((venue, m) # ms, retries)))"

section \<open>The contract of a manager\<close>

text \<open>
  What \<^verbatim>\<open>venue::Manager\<close> promises, over what \<open>List\<close> shows: ids ascend; connecting keeps
  the subscriptions, and makes a venue healthy unless it throws; subscribing either adds
  the one subscription it answers or changes none, answering at most an id there is; unsubscribing removes exactly the id,
  or fails with \<open>kUnknownId\<close>; \<open>moves\<close> are the venue's own steps, which keep the subscriptions.
\<close>

definition ids :: "('e, 'm) Manager \<Rightarrow> 'm \<Rightarrow> SubscriptionId set" where
  "ids mgr m = si_id ` set (mn_List mgr m)"

locale manager =
  fixes mgr :: "('e, 'm) Manager" and mok :: "'m \<Rightarrow> bool" and moves :: "'m \<Rightarrow> 'm \<Rightarrow> bool"
  assumes listed_by_id: "mok m \<Longrightarrow> sorted_wrt (<) (map si_id (mn_List mgr m))"
    and connects: "mok m \<Longrightarrow> mn_Connect mgr e m = (m', r) \<Longrightarrow>
      mok m' \<and> mn_List mgr m' = mn_List mgr m \<and> (mn_healthy mgr m' \<longleftrightarrow> r = Inr ())"
    and subscribes: "mok m \<Longrightarrow> mn_Subscribe mgr e first i book m = (m', answer) \<Longrightarrow>
      mok m' \<and>
      (m' = m \<and> (\<forall>j. answer = Inr (Inr j) \<longrightarrow> j \<noteq> i \<and> j \<in> ids mgr first \<union> ids mgr m) \<or>
       answer = Inr (Inr i) \<and> i \<notin> ids mgr m \<and>
       (\<exists>started. set (mn_List mgr m') =
          insert \<lparr>si_id = i, si_book = book, si_start_time_ns = started\<rparr> (set (mn_List mgr m))))"
    and unsubscribes: "mok m \<Longrightarrow> mn_Unsubscribe mgr i m = (m', gone) \<Longrightarrow>
      mok m' \<and> set (mn_List mgr m') = {s \<in> set (mn_List mgr m). si_id s \<noteq> i} \<and>
      (if i \<in> ids mgr m then gone = Inr () else m' = m \<and> (\<exists>s. gone = Failure kUnknownId s))"
    and lists_pairs: "mok m \<Longrightarrow> mn_ListPairs mgr e m = (m', listed) \<Longrightarrow>
      mok m' \<and> mn_List mgr m' = mn_List mgr m"
    and own_moves: "mok m \<Longrightarrow> moves m m' \<Longrightarrow> mok m' \<and> mn_List mgr m' = mn_List mgr m"

lemma List_ids: "ids (L2_manager sel a Decode fresh) m = fst ` set (subscriptions m)"
  by (force simp: ids_def L2_manager_def L2Manager_List_def)

lemma List_cong: "subscriptions m' = subscriptions m \<Longrightarrow> L2Manager_List m' = L2Manager_List m"
  by (simp add: L2Manager_List_def)

lemma set_by_map_of: "ordered (<) m \<Longrightarrow> set m = {(k :: u64, v). map_of m k = Some v}"
  using id_less.map_of_mem by fastforce

lemma mem_List:
  "x \<in> set (L2Manager_List m) \<longleftrightarrow>
     (si_id x, \<lparr>sub_book = si_book x, sub_start_time_ns = si_start_time_ns x\<rparr>) \<in> set (subscriptions m)"
proof -
  have "x = (case y of (i, s) \<Rightarrow> \<lparr>si_id = i, si_book = sub_book s, si_start_time_ns = sub_start_time_ns s\<rparr>) \<longleftrightarrow>
      y = (si_id x, \<lparr>sub_book = si_book x, sub_start_time_ns = si_start_time_ns x\<rparr>)" for y
    by (cases x; cases y; cases "snd y") auto
  then show ?thesis by (simp only: L2Manager_List_def set_map image_iff) simp
qed

abbreviation not_new :: "SubscriptionId \<Rightarrow> SubscriptionId set \<Rightarrow> SubscriptionId expected result \<Rightarrow> bool" where
  "not_new i taken answer \<equiv> \<forall>j. answer = Inr (Inr j) \<longrightarrow> j \<noteq> i \<and> j \<in> taken"

lemma taken_by_other: "ResolveTakenLocked n i book = Inr (Some c) \<Longrightarrow> not_new i (fst ` set (subscriptions n)) (Inr c)"
proof -
  assume taken: "ResolveTakenLocked n i book = Inr (Some c)"
  then have free: "i \<notin> fst ` set (subscriptions n)"
    by (auto simp: ResolveTakenLocked_def map_of_eq_None_iff split: if_splits)
  from taken obtain j t where "FindSymbolLocked n (bs_symbol book) = Some (j, t)" and c: "\<forall>k. c = Inr k \<longrightarrow> k = j"
    by (auto simp: ResolveTakenLocked_def Let_def Failure_def split: if_splits option.splits)
  then have "(j, t) \<in> set (subscriptions n)"
    unfolding FindSymbolLocked_def find_Some_iff by (metis nth_mem)
  then have "j \<in> fst ` set (subscriptions n)" by (rule image_eqI [rotated]) simp
  then show ?thesis using free c by auto
qed

abbreviation added :: "SubscriptionId \<Rightarrow> BookSpec \<Rightarrow> i64 \<Rightarrow> 'd L2Manager \<Rightarrow> 'd L2Manager \<Rightarrow> bool" where
  "added i book started m m' \<equiv> map_of (subscriptions m) i = None \<and>
     subscriptions m' = emplace (<) i \<lparr>sub_book = book, sub_start_time_ns = started\<rparr> (subscriptions m)"

lemma L2_subscribes_locked:
  assumes ok: "manager_ok a m" and check: "CheckBook a book = Inr ()"
    and run: "SubscribeLocked a i book precision started built m = (m', answer)"
  shows "m' = m \<and> not_new i (fst ` set (subscriptions m)) answer \<or>
    answer = Inr (Inr i) \<and> added i book started m m'"
proof (cases "ResolveTakenLocked m i book")
  case (Inl e)
  then show ?thesis using run by (auto simp: SubscribeLocked_def)
next
  case (Inr c)
  show ?thesis
  proof (cases "c = None \<and> built = Inr ()")
    case False
    then show ?thesis
      using run Inr taken_by_other [of m i book]
      by (auto simp: SubscribeLocked_def split: option.splits sum.splits)
  next
    case True
    then have "map_of (subscriptions m) i = None" "table (subscriptions m) (bs_symbol book) = None"
      using Inr by (auto simp: ResolveTakenLocked_def FindSymbolLocked_table [symmetric] Let_def
          split: if_splits option.splits)
    then show ?thesis
      using SubscribeLocked_new [OF ok check, of i precision started] run True by auto
  qed
qed

lemma L2_subscribes:
  assumes ok: "manager_ok a m"
    and run: "L2Manager_Subscribe a world i book started built first m = (m', answer)"
  shows "m' = m \<and> not_new i (fst ` set (subscriptions first) \<union> fst ` set (subscriptions m)) answer \<or>
    answer = Inr (Inr i) \<and> added i book started m m'"
proof (cases "CheckBook a book = Inr () \<and> ResolveTakenLocked first i book = Inr None")
  case True
  then consider e where "m' = m" "answer = Inr (Inl e)"
    | precision where "SubscribeLocked a i book precision started built m = (m', answer)"
    using run by (auto simp: L2Manager_Subscribe_def split: sum.splits)
  then show ?thesis
  proof cases
    case 2
    from L2_subscribes_locked [OF ok _ this] True show ?thesis by blast
  qed simp
next
  case False
  then show ?thesis
    using run taken_by_other [of first i book]
    by (auto simp: L2Manager_Subscribe_def split: sum.splits option.splits)
qed

lemma L2_unsubscribes:
  assumes ok: "manager_ok a m" and run: "L2Manager_Unsubscribe a i m = (m', gone)"
  shows "manager_ok a m' \<and> set (L2Manager_List m') = {s \<in> set (L2Manager_List m). si_id s \<noteq> i} \<and>
    (if i \<in> fst ` set (subscriptions m) then gone = Inr () else m' = m \<and> (\<exists>s. gone = Failure kUnknownId s))"
proof -
  have sorted: "ordered (<) (subscriptions m)"
    using ok by (simp add: manager_ok_def core_ok_def subs_ok_def)
  show ?thesis
  proof (cases "map_of (subscriptions m) i")
    case None
    then have "i \<notin> fst ` set (subscriptions m)" by (simp add: map_of_eq_None_iff)
    moreover from this have "\<forall>s \<in> set (L2Manager_List m). si_id s \<noteq> i"
      using mem_List [of _ m] by (metis fst_conv image_eqI)
    ultimately show ?thesis using run ok None by (auto simp: L2Manager_Unsubscribe_def)
  next
    case (Some s)
    have "subscriptions m' = erase (<) i (subscriptions m)" "gone = Inr ()"
      using run Some by (auto simp: L2Manager_Unsubscribe_def Let_def)
    moreover have "set (erase (<) i (subscriptions m)) = {(j, t). (j, t) \<in> set (subscriptions m) \<and> j \<noteq> i}"
      using sorted by (auto simp: set_by_map_of map_ops split: if_splits)
    moreover have "manager_ok a m'" using Unsubscribe_found [OF ok Some] run by simp
    moreover have "i \<in> fst ` set (subscriptions m)" using map_of_SomeD [OF Some] by (rule image_eqI [rotated]) simp
    moreover have "set (L2Manager_List m') = {s \<in> set (L2Manager_List m). si_id s \<noteq> i}"
      by (rule set_eqI) (simp add: mem_List calculation(1,3))
    ultimately show ?thesis by simp
  qed
qed

lemma fold_keeps: "(\<And>x s. f (g x s) = f s) \<Longrightarrow> f (fold g xs s) = f s"
  by (induction xs arbitrary: s) simp_all

lemma fold_SendLocked_failed [simp]:
  "failed (fold (\<lambda>(i, s). SendLocked a q (sub_book s)) subs m) = failed m"
  by (rule fold_keeps) (simp add: SendLocked_def split: prod.split)

lemma Connect_failed: "L2Manager_Connect a Decode fresh clock opened m = (m', Inr ()) \<Longrightarrow> \<not> failed m'"
  by (auto simp: L2Manager_Connect_def Let_def healthy_def split: if_splits sum.splits)

lemma ListPairs_keeps:
  "L2Manager_ListPairs a world now m = (m', listed) \<Longrightarrow> manager_ok a m \<Longrightarrow>
     manager_ok a m' \<and> subscriptions m' = subscriptions m"
  by (auto simp: L2Manager_ListPairs_def Let_def split: if_splits sum.splits)

context venue_manager
begin

text \<open>Every venue's manager meets the contract.\<close>

lemma L2_manager_contract:
  "manager (L2_manager sel a Decode fresh) (manager_ok a) (L2_moves a Decode)"
proof
  fix m :: "'d L2Manager"
  assume ok: "manager_ok a m"
  let ?mgr = "L2_manager sel a Decode fresh"
  have list: "mn_List ?mgr m = L2Manager_List m" for m by (simp add: L2_manager_def)
  have subs: "ordered (<) (subscriptions m)" using ok by (simp add: manager_ok_def core_ok_def subs_ok_def)
  then show "sorted_wrt (<) (map si_id (mn_List ?mgr m))"
    by (simp add: list L2Manager_List_def ordered_def sorted_wrt_map case_prod_unfold)
  show "manager_ok a m' \<and> mn_List ?mgr m' = mn_List ?mgr m \<and> (mn_healthy ?mgr m' \<longleftrightarrow> r = Inr ())"
    if "mn_Connect ?mgr e m = (m', r)" for e m' r
  proof -
    have run: "L2Manager_Connect a Decode fresh (in_clock e) (in_opened e) m = (m', r)"
      using that by (simp add: L2_manager_def)
    have "core_ok a m" "feed_ok a m" using ok by (simp_all add: manager_ok_def)
    from Connect_ok [OF this run] show ?thesis
      using Connect_failed [of a Decode fresh "in_clock e" "in_opened e" m m'] run
      by (auto simp: list L2_manager_def healthy_def intro: List_cong)
  qed
  show "manager_ok a m' \<and>
      (m' = m \<and> (\<forall>j. answer = Inr (Inr j) \<longrightarrow> j \<noteq> i \<and> j \<in> ids ?mgr first \<union> ids ?mgr m) \<or>
       answer = Inr (Inr i) \<and> i \<notin> ids ?mgr m \<and>
       (\<exists>started. set (mn_List ?mgr m') =
          insert \<lparr>si_id = i, si_book = book, si_start_time_ns = started\<rparr> (set (mn_List ?mgr m))))"
    if "mn_Subscribe ?mgr e first i book m = (m', answer)" for e first i book m' answer
  proof -
    have run: "L2Manager_Subscribe a (sel (in_world e)) i book (in_started e) (in_built e) first m = (m', answer)"
      using that by (simp add: L2_manager_def)
    have new: "set (L2Manager_List m') = insert \<lparr>si_id = i, si_book = book, si_start_time_ns = in_started e\<rparr>
        (set (L2Manager_List m))"
      if "map_of (subscriptions m) i = None"
        "subscriptions m' = emplace (<) i \<lparr>sub_book = book, sub_start_time_ns = in_started e\<rparr> (subscriptions m)"
    proof -
      have "set (subscriptions m') = insert (i, \<lparr>sub_book = book, sub_start_time_ns = in_started e\<rparr>) (set (subscriptions m))"
        unfolding that(2) using subs that(1)
        by (auto simp: set_by_map_of map_ops split: if_splits)
      then show ?thesis by (intro set_eqI) (auto simp: mem_List)
    qed
    show ?thesis
      using L2_subscribes [OF ok run] Subscribe_ok [OF ok run] new
      by (auto simp: list List_ids map_of_eq_None_iff)
  qed
  show "manager_ok a m' \<and> set (mn_List ?mgr m') = {s \<in> set (mn_List ?mgr m). si_id s \<noteq> i} \<and>
      (if i \<in> ids ?mgr m then gone = Inr () else m' = m \<and> (\<exists>s. gone = Failure kUnknownId s))"
    if "mn_Unsubscribe ?mgr i m = (m', gone)" for i m' gone
    using that L2_unsubscribes [OF ok, of i m' gone] unfolding list List_ids by (simp add: L2_manager_def)
  show "manager_ok a m' \<and> mn_List ?mgr m' = mn_List ?mgr m"
    if "mn_ListPairs ?mgr e m = (m', listed)" for e m' listed
  proof -
    have "L2Manager_ListPairs a (sel (in_world e)) (in_now e) m = (m', listed)"
      using that by (simp add: L2_manager_def)
    from ListPairs_keeps [OF this ok] List_cong show ?thesis unfolding list by blast
  qed
  show "manager_ok a m' \<and> mn_List ?mgr m' = mn_List ?mgr m" if "L2_moves a Decode m m'" for m'
    using L2_moves_ok [OF that ok] List_cong unfolding list by blast
qed

end

section \<open>Two venues in one map\<close>

text \<open>
  \<^verbatim>\<open>std::unique_ptr<Manager>\<close> hides which class a manager is: states of several classes
  in one type, with \<open>up\<close> and \<open>down\<close> between them.
\<close>

definition upcast :: "('l \<Rightarrow> 'm) \<Rightarrow> ('m \<Rightarrow> 'l option) \<Rightarrow> ('e, 'l) Manager \<Rightarrow> ('e, 'm) Manager" where
  "upcast up down mgr =
     \<lparr>mn_name = mn_name mgr,
      mn_Connect = (\<lambda>e m. case down m of None \<Rightarrow> (m, Inl (logic_error []))
          | Some l \<Rightarrow> (case mn_Connect mgr e l of (l, r) \<Rightarrow> (up l, r))),
      mn_healthy = (\<lambda>m. case down m of None \<Rightarrow> False | Some l \<Rightarrow> mn_healthy mgr l),
      mn_Subscribe = (\<lambda>e first i book m. case down m of None \<Rightarrow> (m, Inl (logic_error []))
          | Some l \<Rightarrow> (case down first of None \<Rightarrow> (m, Inl (logic_error []))
              | Some f \<Rightarrow> (case mn_Subscribe mgr e f i book l of (l, answer) \<Rightarrow> (up l, answer)))),
      mn_Unsubscribe = (\<lambda>i m. case down m of None \<Rightarrow> (m, Failure kUnknownId [])
          | Some l \<Rightarrow> (case mn_Unsubscribe mgr i l of (l, gone) \<Rightarrow> (up l, gone))),
      mn_List = (\<lambda>m. case down m of None \<Rightarrow> [] | Some l \<Rightarrow> mn_List mgr l),
      mn_ListPairs = (\<lambda>e m. case down m of None \<Rightarrow> (m, Failure kVenueFailed [])
          | Some l \<Rightarrow> (case mn_ListPairs mgr e l of (l, listed) \<Rightarrow> (up l, listed)))\<rparr>"

definition via :: "('m \<Rightarrow> 'l option) \<Rightarrow> ('l \<Rightarrow> bool) \<Rightarrow> 'm \<Rightarrow> bool" where
  "via down P m = (case down m of None \<Rightarrow> False | Some l \<Rightarrow> P l)"

definition via_step :: "('l \<Rightarrow> 'm) \<Rightarrow> ('m \<Rightarrow> 'l option) \<Rightarrow> ('l \<Rightarrow> 'l \<Rightarrow> bool) \<Rightarrow> 'm \<Rightarrow> 'm \<Rightarrow> bool" where
  "via_step up down moves m m' \<longleftrightarrow> (\<exists>l l'. down m = Some l \<and> moves l l' \<and> m' = up l')"

context manager
begin

lemma upcast_contract:
  assumes down: "\<And>l. down (up l) = Some l" and only: "\<And>m l. down m = Some l \<Longrightarrow> m = up l"
  shows "manager (upcast up down mgr) (via down mok) (via_step up down moves)"
proof (unfold_locales, goal_cases)
  case (1 m)
  then show ?case by (auto simp: via_def upcast_def intro: listed_by_id split: option.splits)
next
  case (2 m e m' r)
  then obtain l l' where l: "down m = Some l" "mok l" "mn_Connect mgr e l = (l', r)" "m' = up l'"
    by (auto simp: via_def upcast_def split: option.splits prod.splits)
  show ?case using connects [OF l(2,3)] l by (simp add: via_def upcast_def down)
next
  case (3 m e first i book m' answer)
  then obtain l where l: "down m = Some l" "mok l" by (auto simp: via_def split: option.splits)
  show ?case
  proof (cases "down first")
    case None
    then show ?thesis using 3 l by (auto simp: upcast_def)
  next
    case (Some f)
    then obtain l' where run: "mn_Subscribe mgr e f i book l = (l', answer)" "m' = up l'"
      using 3 l by (auto simp: upcast_def split: prod.splits)
    show ?thesis
      using subscribes [OF l(2) run(1)] l Some run(2) only [OF l(1)] by (simp add: via_def upcast_def ids_def down) blast
  qed
next
  case (4 m i m' gone)
  then obtain l l' where l: "down m = Some l" "mok l" "mn_Unsubscribe mgr i l = (l', gone)" "m' = up l'"
    by (auto simp: via_def upcast_def split: option.splits prod.splits)
  show ?case using unsubscribes [OF l(2,3)] l only [OF l(1)] by (simp add: via_def upcast_def ids_def down)
next
  case (5 m e m' listed)
  then obtain l l' where l: "down m = Some l" "mok l" "mn_ListPairs mgr e l = (l', listed)" "m' = up l'"
    by (auto simp: via_def upcast_def split: option.splits prod.splits)
  show ?case using lists_pairs [OF l(2,3)] l by (simp add: via_def upcast_def down)
next
  case (6 m m')
  then obtain l l' where l: "down m = Some l" "mok l" "moves l l'" "m' = up l'"
    by (auto simp: via_def via_step_def split: option.splits)
  show ?case using own_moves [OF l(2,3)] l by (simp add: via_def upcast_def down)
qed

end

interpretation kraken_contract:
  manager "L2_manager sel (Kraken_adapter parse) (Kraken_Decode parse_frame unspec) fresh"
    "manager_ok (Kraken_adapter parse)" "L2_moves (Kraken_adapter parse) (Kraken_Decode parse_frame unspec)"
  by (rule kraken_manager.L2_manager_contract)

interpretation coinbase_contract:
  manager "L2_manager sel (Coinbase_adapter parse) (Coinbase_Decode parse_frame unspec) fresh"
    "manager_ok (Coinbase_adapter parse)" "L2_moves (Coinbase_adapter parse) (Coinbase_Decode parse_frame unspec)"
  by (rule coinbase_manager.L2_manager_contract)

text \<open>As main builds them; \<open>parse\<close> is rapidjson, and \<open>unspec\<close> what a decoded date that is none comes to.\<close>

type_synonym venue_state = "unit L2Manager + CoinbaseDecoder L2Manager"
type_synonym world = "(string \<Rightarrow> string result) \<times> rest_host"

definition left :: "'a + 'b \<Rightarrow> 'a option" where
  "left = case_sum Some (\<lambda>_. None)"

definition right :: "'a + 'b \<Rightarrow> 'b option" where
  "right = case_sum (\<lambda>_. None) Some"

lemma left_right [simp]:
  "left (Inl l) = Some l" "left m = Some l \<longleftrightarrow> m = Inl l" "right (Inr r) = Some r" "right n = Some r \<longleftrightarrow> n = Inr r"
  by (auto simp: left_def right_def split: sum.splits)

definition main_managers ::
    "(string \<Rightarrow> json option) \<Rightarrow> (int \<Rightarrow> int \<Rightarrow> int \<Rightarrow> int) \<Rightarrow> Id \<Rightarrow> (world venue_input, venue_state) Manager" where
  "main_managers parse unspec venue =
     (if venue = kCoinbase
      then upcast Inr right
        (L2_manager snd (Coinbase_adapter parse) (Coinbase_Decode parse unspec) CoinbaseDecoder_new)
      else upcast Inl left (L2_manager fst (Kraken_adapter parse) (Kraken_Decode parse unspec) ()))"

definition main_ok :: "(string \<Rightarrow> json option) \<Rightarrow> Id \<Rightarrow> venue_state \<Rightarrow> bool" where
  "main_ok parse venue =
     (if venue = kCoinbase then via right (manager_ok (Coinbase_adapter parse))
      else via left (manager_ok (Kraken_adapter parse)))"

definition main_moves ::
    "(string \<Rightarrow> json option) \<Rightarrow> (int \<Rightarrow> int \<Rightarrow> int \<Rightarrow> int) \<Rightarrow> Id \<Rightarrow> venue_state \<Rightarrow> venue_state \<Rightarrow> bool" where
  "main_moves parse unspec venue =
     (if venue = kCoinbase
      then via_step Inr right (L2_moves (Coinbase_adapter parse) (Coinbase_Decode parse unspec))
      else via_step Inl left (L2_moves (Kraken_adapter parse) (Kraken_Decode parse unspec)))"

definition main_venues :: "(string \<Rightarrow> json option) \<Rightarrow> (Id \<times> venue_state) list" where
  "main_venues parse =
     [(kKraken, Inl (L2Manager_new (Kraken_adapter parse) ())),
      (kCoinbase, Inr (L2Manager_new (Coinbase_adapter parse) CoinbaseDecoder_new))]"

interpretation main_contract:
  manager "main_managers parse unspec venue" "main_ok parse venue" "main_moves parse unspec venue"
proof (cases "venue = kCoinbase")
  case True
  have "manager (upcast Inr right (L2_manager snd (Coinbase_adapter parse) (Coinbase_Decode parse unspec) CoinbaseDecoder_new))
      (via right (manager_ok (Coinbase_adapter parse)))
      (via_step Inr right (L2_moves (Coinbase_adapter parse) (Coinbase_Decode parse unspec)))"
    by (rule coinbase_contract.upcast_contract) simp_all
  with True show "manager (main_managers parse unspec venue) (main_ok parse venue) (main_moves parse unspec venue)"
    by (simp add: main_managers_def main_ok_def main_moves_def)
next
  case False
  have "manager (upcast Inl left (L2_manager fst (Kraken_adapter parse) (Kraken_Decode parse unspec) ()))
      (via left (manager_ok (Kraken_adapter parse)))
      (via_step Inl left (L2_moves (Kraken_adapter parse) (Kraken_Decode parse unspec)))"
    by (rule kraken_contract.upcast_contract) simp_all
  with False show "manager (main_managers parse unspec venue) (main_ok parse venue) (main_moves parse unspec venue)"
    by (simp add: main_managers_def main_ok_def main_moves_def)
qed

end
