(* ===== verification/VenueRouterRuns.thy ===== *)
theory VenueRouterRuns
  imports VenueRouter VenueL2ManagerProperties
begin

text \<open>
  What the Router keeps true over every run: one table of subscriptions, whatever
  the venues, and reconnects that back off. The lemmas rest on the managers' contract
  alone; the locale is interpreted on the venues of data_feed.
\<close>

interpretation venue_less: key_order "(<) :: u8 \<Rightarrow> u8 \<Rightarrow> bool"
  by unfold_locales auto

section \<open>Runs\<close>

text \<open>
  A run of the Router from the venues \<open>ms\<close>, with the number of \<^verbatim>\<open>Subscribe\<close> calls:
  commands, passes of the supervisor, and what the venues do on their own.
\<close>

inductive router_reach ::
    "(Id \<Rightarrow> ('e, 'm) Manager) \<Rightarrow> (Id \<Rightarrow> 'm \<Rightarrow> 'm \<Rightarrow> bool) \<Rightarrow> (Id \<times> 'm) list \<Rightarrow> nat \<Rightarrow> 'm Router \<Rightarrow> bool"
  for mgr :: "Id \<Rightarrow> ('e, 'm) Manager" and moves :: "Id \<Rightarrow> 'm \<Rightarrow> 'm \<Rightarrow> bool" and ms :: "(Id \<times> 'm) list" where
  run_start: "router_reach mgr moves ms 0 (Router_new ms)"
| run_Subscribe: "router_reach mgr moves ms n r \<Longrightarrow>
     Router_Subscribe mgr sink e first venue book r = (r', answer) \<Longrightarrow> router_reach mgr moves ms (Suc n) r'"
| run_Unsubscribe: "router_reach mgr moves ms n r \<Longrightarrow>
     Router_Unsubscribe mgr i r = (r', gone) \<Longrightarrow> router_reach mgr moves ms n r'"
| run_ListPairs: "router_reach mgr moves ms n r \<Longrightarrow>
     Router_ListPairs mgr e venue r = (r', listed) \<Longrightarrow> router_reach mgr moves ms n r'"
| run_supervise: "router_reach mgr moves ms n r \<Longrightarrow>
     supervise_pass mgr backoff es now failed_at (managers r) retries = (ms', retries') \<Longrightarrow>
     router_reach mgr moves ms n (r\<lparr>managers := ms'\<rparr>)"
| run_venue: "router_reach mgr moves ms n r \<Longrightarrow> map_of (managers r) venue = Some m \<Longrightarrow> moves venue m m' \<Longrightarrow>
     router_reach mgr moves ms n (put venue m' r)"

section \<open>The supervisor's passes\<close>

lemma supervise_pass_keys: "map fst (fst (supervise_pass mgr backoff es now failed_at ms retries)) = map fst ms"
  by (induction ms arbitrary: retries) (auto split: prod.splits simp: case_prod_beta)

text \<open>A pass takes each venue by itself.\<close>

lemma supervise_pass_each:
  assumes "distinct (map fst ms)"
  shows "supervise_pass mgr backoff es now failed_at ms retries =
    (map (\<lambda>(v, m). (v, fst (supervise_venue mgr backoff (es v) now (failed_at v) v (m, retries v)))) ms,
     \<lambda>v. case map_of ms v of None \<Rightarrow> retries v
       | Some m \<Rightarrow> snd (supervise_venue mgr backoff (es v) now (failed_at v) v (m, retries v)))"
  using assms
proof (induction ms arbitrary: retries)
  case (Cons x ms)
  obtain v m where x: "x = (v, m)" by fastforce
  let ?f = "supervise_venue mgr backoff (es v) now (failed_at v) v (m, retries v)"
  have "map_of ms v = None" "\<And>w n. (w, n) \<in> set ms \<Longrightarrow> w \<noteq> v"
    using Cons.prems by (force simp: x map_of_eq_None_iff)+
  then show ?case
    using Cons.prems by (cases ?f) (auto simp: x Cons.IH fun_eq_iff split: option.split)
qed (simp add: fun_eq_iff)

lemma map_of_keyed: "map_of (map (\<lambda>(v, m). (v, f v m)) ms) v = map_option (f v) (map_of ms v)"
  by (induction ms) auto

section \<open>The Router over managers that meet the contract\<close>

locale router =
  fixes mgr :: "Id \<Rightarrow> ('e, 'm) Manager" and mok :: "Id \<Rightarrow> 'm \<Rightarrow> bool" and moves :: "Id \<Rightarrow> 'm \<Rightarrow> 'm \<Rightarrow> bool"
  assumes venue_contract: "manager (mgr venue) (mok venue) (moves venue)"

definition venue_ok :: "(Id \<Rightarrow> ('e, 'm) Manager) \<Rightarrow> (Id \<Rightarrow> 'm \<Rightarrow> bool) \<Rightarrow> u64 \<Rightarrow> Id \<Rightarrow> 'm \<Rightarrow> bool" where
  "venue_ok mgr mok counter venue m \<longleftrightarrow> mok venue m \<and>
     (\<forall>i \<in> ids (mgr venue) m. VenueOf i = venue \<and> 0 < CounterOf i \<and> CounterOf i < counter)"

definition router_ok :: "(Id \<Rightarrow> ('e, 'm) Manager) \<Rightarrow> (Id \<Rightarrow> 'm \<Rightarrow> bool) \<Rightarrow> 'm Router \<Rightarrow> bool" where
  "router_ok mgr mok r \<longleftrightarrow> ordered (<) (managers r) \<and>
     (\<forall>venue m. map_of (managers r) venue = Some m \<longrightarrow> venue_ok mgr mok (next_counter r) venue m)"

lemma put_simps [simp]:
  "next_counter (put venue m r) = next_counter r"
  "map_of (managers (put venue m r)) = (map_of (managers r))(venue \<mapsto> m)"
  by (simp_all add: put_def map_ops)

lemma router_ok_put:
  "router_ok mgr mok r \<Longrightarrow> venue_ok mgr mok (next_counter r) venue m \<Longrightarrow> router_ok mgr mok (put venue m r)"
  using put_simps [of venue m r]
  by (simp add: router_ok_def) (simp add: put_def map_ops)

lemma venue_ok_later: "venue_ok mgr mok c venue m \<Longrightarrow> c \<le> c' \<Longrightarrow> venue_ok mgr mok c' venue m"
  by (auto simp: venue_ok_def)

text \<open>The Router's one table, over all venues.\<close>

definition subscribed :: "(Id \<Rightarrow> ('e, 'm) Manager) \<Rightarrow> 'm Router \<Rightarrow> Listing set" where
  "subscribed mgr r = set (Router_List mgr r)"

definition at :: "Id \<Rightarrow> SubscriptionInfo \<Rightarrow> Listing" where
  "at venue s = \<lparr>ls_venue = venue, ls_subscription = s\<rparr>"

lemma at_simps [simp]: "ls_venue (at venue s) = venue" "ls_subscription (at venue s) = s"
  by (simp_all add: at_def)

lemma at_eq_iff: "at v s = at w t \<longleftrightarrow> v = w \<and> s = t" "l = at v s \<longleftrightarrow> ls_venue l = v \<and> ls_subscription l = s"
  by (cases l; simp add: at_def)+

lemma subscribed_iff:
  "ordered (<) (managers r) \<Longrightarrow>
     l \<in> subscribed mgr r \<longleftrightarrow>
       (\<exists>m. map_of (managers r) (ls_venue l) = Some m \<and> ls_subscription l \<in> set (mn_List (mgr (ls_venue l)) m))"
  by (cases l) (force simp: subscribed_def Router_List_def venue_less.map_of_mem)

lemma subscribed_put:
  "ordered (<) (managers r) \<Longrightarrow>
     l \<in> subscribed mgr (put venue m r) \<longleftrightarrow>
       (if ls_venue l = venue then ls_subscription l \<in> set (mn_List (mgr venue) m) else l \<in> subscribed mgr r)"
  using put_simps [of venue m r]
  by (simp add: subscribed_iff put_def map_ops)

context router
begin

lemmas of_venue = manager.listed_by_id [OF venue_contract] manager.connects [OF venue_contract]
  manager.subscribes [OF venue_contract] manager.unsubscribes [OF venue_contract]
  manager.lists_pairs [OF venue_contract] manager.own_moves [OF venue_contract]

text \<open>A call that keeps a venue's subscriptions keeps the invariant and the table.\<close>

lemma keep_put:
  assumes ok: "router_ok mgr mok r" and m: "map_of (managers r) venue = Some m"
    and keep: "mok venue m' \<and> mn_List (mgr venue) m' = mn_List (mgr venue) m"
  shows "router_ok mgr mok (put venue m' r)" "subscribed mgr (put venue m' r) = subscribed mgr r"
proof -
  have "venue_ok mgr mok (next_counter r) venue m'"
    using ok m keep by (auto simp: router_ok_def venue_ok_def ids_def)
  with ok show ok': "router_ok mgr mok (put venue m' r)" by (rule router_ok_put)
  then show "subscribed mgr (put venue m' r) = subscribed mgr r"
    using ok m keep by (intro set_eqI) (simp add: subscribed_iff router_ok_def)
qed

lemma router_ok_new:
  assumes "ordered (<) ms" and "\<And>venue m. map_of ms venue = Some m \<Longrightarrow> mok venue m \<and> mn_List (mgr venue) m = []"
  shows "router_ok mgr mok (Router_new ms)" "subscribed mgr (Router_new ms) = {}"
proof -
  show "router_ok mgr mok (Router_new ms)"
    using assms by (auto simp: router_ok_def Router_new_def venue_ok_def ids_def)
  then show "subscribed mgr (Router_new ms) = {}"
    using assms by (auto simp: subscribed_iff router_ok_def Router_new_def)
qed

lemma Router_ListPairs_ok:
  assumes ok: "router_ok mgr mok r" and run: "Router_ListPairs mgr e venue r = (r', listed)"
  shows "router_ok mgr mok r' \<and> subscribed mgr r' = subscribed mgr r"
proof (cases "map_of (managers r) venue")
  case (Some m)
  then obtain m' where m': "mn_ListPairs (mgr venue) e m = (m', listed)" "r' = put venue m' r"
    using run by (auto simp: Router_ListPairs_def split: prod.splits)
  have "mok venue m" using ok Some by (simp add: router_ok_def venue_ok_def)
  from keep_put [OF ok Some of_venue(5) [OF this m'(1)]] show ?thesis by (simp add: m'(2))
qed (use ok run in \<open>simp add: Router_ListPairs_def\<close>)

lemma supervise_venue_keeps:
  "mok venue m \<Longrightarrow> supervise_venue mgr backoff e now failed_at venue (m, retry) = (m', retry') \<Longrightarrow>
     mok venue m' \<and> mn_List (mgr venue) m' = mn_List (mgr venue) m"
  using of_venue(2) [of venue m e]
  by (auto simp: supervise_venue_def split: if_splits prod.splits sum.splits)

lemma supervise_ok:
  assumes ok: "router_ok mgr mok r"
    and run: "supervise_pass mgr backoff es now failed_at (managers r) retries = (ms', retries')"
  shows "router_ok mgr mok (r\<lparr>managers := ms'\<rparr>)" "subscribed mgr (r\<lparr>managers := ms'\<rparr>) = subscribed mgr r"
proof -
  let ?f = "\<lambda>v m. fst (supervise_venue mgr backoff (es v) now (failed_at v) v (m, retries v))"
  have sorted: "ordered (<) (managers r)" using ok by (simp add: router_ok_def)
  have ms': "ms' = map (\<lambda>(v, m). (v, ?f v m)) (managers r)"
    using run by (simp add: supervise_pass_each [OF venue_less.ordered_distinct [OF sorted]])
  then have look: "map_of ms' v = map_option (?f v) (map_of (managers r) v)" for v
    by (simp add: map_of_keyed)
  have keep: "mok v (?f v m) \<and> mn_List (mgr v) (?f v m) = mn_List (mgr v) m"
    if "map_of (managers r) v = Some m" for v m
    using ok that by (intro supervise_venue_keeps [where retry' = "snd (supervise_venue mgr backoff (es v) now (failed_at v) v (m, retries v))"])
      (simp_all add: router_ok_def venue_ok_def)
  have sorted': "ordered (<) ms'"
    using sorted by (simp add: ms' ordered_def sorted_wrt_map case_prod_beta)
  then show "router_ok mgr mok (r\<lparr>managers := ms'\<rparr>)"
    using ok keep by (auto simp: router_ok_def look venue_ok_def ids_def)
  show "subscribed mgr (r\<lparr>managers := ms'\<rparr>) = subscribed mgr r"
    using sorted sorted' keep by (intro set_eqI) (auto simp: subscribed_iff look)
qed

lemma Router_Unsubscribe_ok:
  assumes ok: "router_ok mgr mok r" and run: "Router_Unsubscribe mgr i r = (r', gone)"
  shows "router_ok mgr mok r' \<and> subscribed mgr r' = {l \<in> subscribed mgr r. si_id (ls_subscription l) \<noteq> i} \<and>
    (if \<exists>l \<in> subscribed mgr r. si_id (ls_subscription l) = i then gone = Inr ()
     else r' = r \<and> (\<exists>s. gone = Failure kUnknownId s))"
proof -
  have sorted: "ordered (<) (managers r)" using ok by (simp add: router_ok_def)
  have named: "ls_venue l = VenueOf i" if "l \<in> subscribed mgr r" "si_id (ls_subscription l) = i" for l
    using ok that by (auto simp: subscribed_iff [OF sorted] router_ok_def venue_ok_def ids_def)
  show ?thesis
  proof (cases "map_of (managers r) (VenueOf i)")
    case None
    then have "\<forall>l \<in> subscribed mgr r. si_id (ls_subscription l) \<noteq> i"
      using named by (metis subscribed_iff [OF sorted] option.distinct(1))
    moreover have "r' = r" "\<exists>s. gone = Failure kUnknownId s" using run None by (auto simp: Router_Unsubscribe_def)
    ultimately show ?thesis using ok by auto
  next
    case (Some m)
    then obtain m' where m': "mn_Unsubscribe (mgr (VenueOf i)) i m = (m', gone)" "r' = put (VenueOf i) m' r"
      using run by (auto simp: Router_Unsubscribe_def split: prod.splits)
    have m: "venue_ok mgr mok (next_counter r) (VenueOf i) m" using ok Some by (simp add: router_ok_def)
    then have "mok (VenueOf i) m" by (simp add: venue_ok_def)
    note gone = of_venue(4) [OF this m'(1)]
    then have left: "set (mn_List (mgr (VenueOf i)) m') = {s \<in> set (mn_List (mgr (VenueOf i)) m). si_id s \<noteq> i}"
      by blast
    have ok': "router_ok mgr mok r'"
      using gone m unfolding m'(2) by (intro router_ok_put [OF ok]) (auto simp: venue_ok_def ids_def)
    then have sorted': "ordered (<) (managers r')" by (simp add: router_ok_def)
    have "(\<exists>l \<in> subscribed mgr r. si_id (ls_subscription l) = i) \<longleftrightarrow> i \<in> ids (mgr (VenueOf i)) m"
    proof
      assume "\<exists>l \<in> subscribed mgr r. si_id (ls_subscription l) = i"
      then obtain l where l: "l \<in> subscribed mgr r" "si_id (ls_subscription l) = i" by blast
      then show "i \<in> ids (mgr (VenueOf i)) m"
        using named [OF l] Some by (auto simp: subscribed_iff [OF sorted] ids_def)
    next
      assume "i \<in> ids (mgr (VenueOf i)) m"
      then obtain s where "s \<in> set (mn_List (mgr (VenueOf i)) m)" "si_id s = i" by (auto simp: ids_def)
      then show "\<exists>l \<in> subscribed mgr r. si_id (ls_subscription l) = i"
        using Some by (intro bexI [of _ "at (VenueOf i) s"]) (simp_all add: subscribed_iff [OF sorted])
    qed
    moreover have "put (VenueOf i) m r = r"
      using Some sorted
      by (simp add: put_def, subst venue_less.ordered_ext [of "insert_or_assign (<) (VenueOf i) m (managers r)" "managers r"])
        (auto simp: map_ops)
    ultimately have "if \<exists>l \<in> subscribed mgr r. si_id (ls_subscription l) = i then gone = Inr ()
        else r' = r \<and> (\<exists>s. gone = Failure kUnknownId s)"
      using gone m'(2) by (cases "i \<in> ids (mgr (VenueOf i)) m") auto
    moreover have "subscribed mgr r' = {l \<in> subscribed mgr r. si_id (ls_subscription l) \<noteq> i}"
    proof (rule set_eqI)
      fix l
      show "l \<in> subscribed mgr r' \<longleftrightarrow> l \<in> {l \<in> subscribed mgr r. si_id (ls_subscription l) \<noteq> i}"
        using left Some named [of l] unfolding m'(2) subscribed_put [OF sorted] mem_Collect_eq
        by (cases "ls_venue l = VenueOf i") (auto simp: subscribed_iff [OF sorted])
    qed
    ultimately show ?thesis using ok' by (intro conjI)
  qed
qed

lemma Router_Subscribe_ok:
  assumes ok: "router_ok mgr mok r" and less: "0 < next_counter r" "next_counter r < next_counter r + 1"
    and run: "Router_Subscribe mgr sink e first venue book r = (r', answer)"
  shows "router_ok mgr mok r' \<and> next_counter r' \<in> {next_counter r, next_counter r + 1} \<and>
    (case answer of
       Inr (Inr i) \<Rightarrow>
         VenueOf i = venue \<and> SinkOf i = sink \<and> (\<forall>l \<in> subscribed mgr r. si_id (ls_subscription l) \<noteq> i) \<and>
         (\<exists>started. subscribed mgr r' = insert (at venue \<lparr>si_id = i, si_book = book, si_start_time_ns = started\<rparr>)
            (subscribed mgr r)) \<or>
         subscribed mgr r' = subscribed mgr r \<and>
         (\<exists>m. map_of (managers r) venue = Some m \<and> i \<in> ids (mgr venue) first \<union> ids (mgr venue) m)
     | _ \<Rightarrow> subscribed mgr r' = subscribed mgr r)"
proof -
  have sorted: "ordered (<) (managers r)" using ok by (simp add: router_ok_def)
  let ?c = "next_counter r" and ?r = "r\<lparr>next_counter := next_counter r + 1\<rparr>"
  have ok1: "router_ok mgr mok ?r"
    using ok venue_ok_later [of mgr mok, OF _ order_less_imp_le [OF less(2)]] unfolding router_ok_def by auto
  have same: "subscribed mgr ?r = subscribed mgr r" by (simp add: subscribed_def Router_List_def)
  show ?thesis
  proof (cases "map_of (managers r) venue")
    case None
    then show ?thesis using ok run by (auto simp: Router_Subscribe_def UnknownVenue_def Failure_def)
  next
    case (Some m)
    show ?thesis
    proof (cases "?c > kMaxSubscriptionsAllowed")
      case True
      then show ?thesis using ok1 same run Some by (auto simp: Router_Subscribe_def Failure_def)
    next
      case False
      let ?i = "MakeSubscriptionId ?c venue sink"
      obtain m' where m': "mn_Subscribe (mgr venue) e first ?i book m = (m', answer)" "r' = put venue m' ?r"
        using run Some False by (auto simp: Router_Subscribe_def Let_def split: prod.splits)
      have m: "venue_ok mgr mok ?c venue m" using ok Some by (simp add: router_ok_def)
      then have "mok venue m" by (simp add: venue_ok_def)
      note sub = of_venue(3) [OF this m'(1)]
      have i: "VenueOf ?i = venue" "SinkOf ?i = sink" "CounterOf ?i = ?c"
        using False by (simp_all add: VenueOf_Make SinkOf_Make CounterOf_Make)
      from sub consider "m' = m" "\<forall>j. answer = Inr (Inr j) \<longrightarrow> j \<in> ids (mgr venue) first \<union> ids (mgr venue) m"
        | started where "mok venue m'" "answer = Inr (Inr ?i)" "?i \<notin> ids (mgr venue) m"
          "set (mn_List (mgr venue) m') =
            insert \<lparr>si_id = ?i, si_book = book, si_start_time_ns = started\<rparr> (set (mn_List (mgr venue) m))"
        by blast
      then show ?thesis
      proof cases
        case 1
        then have "router_ok mgr mok r'" "subscribed mgr r' = subscribed mgr r"
          using keep_put [OF ok1, of venue m m] Some \<open>mok venue m\<close> same by (simp_all add: m'(2))
        then show ?thesis using 1 Some by (auto simp: m'(2) split: sum.split)
      next
        case 2
        have "venue_ok mgr mok (?c + 1) venue m'"
          using 2 m less i venue_ok_later [OF m, of "?c + 1"] by (auto simp: venue_ok_def ids_def)
        then have ok': "router_ok mgr mok r'" using router_ok_put [OF ok1, of venue m'] by (simp add: m'(2))
        have "subscribed mgr r' = insert (at venue \<lparr>si_id = ?i, si_book = book, si_start_time_ns = started\<rparr>)
            (subscribed mgr r)"
        proof (rule set_eqI)
          fix l
          show "l \<in> subscribed mgr r' \<longleftrightarrow> l \<in> insert (at venue \<lparr>si_id = ?i, si_book = book, si_start_time_ns = started\<rparr>)
              (subscribed mgr r)"
            using 2 Some sorted subscribed_put [of ?r l mgr venue m'] same
            by (auto simp: m'(2) at_eq_iff subscribed_iff [OF sorted])
        qed
        moreover have "si_id (ls_subscription l) \<noteq> ?i" if l_in: "l \<in> subscribed mgr r" for l
        proof
          assume l: "si_id (ls_subscription l) = ?i"
          obtain n where n: "map_of (managers r) (ls_venue l) = Some n" "ls_subscription l \<in> set (mn_List (mgr (ls_venue l)) n)"
            using l_in by (auto simp: subscribed_iff [OF sorted])
          then have "?i \<in> ids (mgr (ls_venue l)) n" using l unfolding ids_def by (metis image_eqI)
          moreover have "venue_ok mgr mok ?c (ls_venue l) n" using ok n(1) by (simp add: router_ok_def)
          ultimately have "CounterOf ?i < ?c" by (simp add: venue_ok_def)
          with i show False by simp
        qed
        ultimately show ?thesis using 2(2) i ok' by (auto simp: m'(2))
      qed
    qed
  qed
qed

lemma reach_router_ok:
  assumes "router_reach mgr moves ms n r" and "ordered (<) ms"
    and "\<forall>venue m. map_of ms venue = Some m \<longrightarrow> mok venue m \<and> mn_List (mgr venue) m = []"
  shows "n + 1 < 2 ^ 64 \<Longrightarrow> router_ok mgr mok r \<and> 0 < next_counter r \<and> unat (next_counter r) \<le> n + 1"
  using assms(1)
proof (induction rule: router_reach.induct)
  case run_start
  then show ?case using router_ok_new assms(2,3) by (simp add: Router_new_def)
next
  case (run_Subscribe n r sink e first venue book r' answer)
  then have IH: "router_ok mgr mok r" "0 < next_counter r" "unat (next_counter r) \<le> n + 1" by simp_all
  have "unat (next_counter r + 1) = unat (next_counter r) + 1"
    using IH(3) run_Subscribe.prems by (simp add: unat_plus_simple [THEN iffD1] word_le_nat_alt unat_word_ariths)
  then have "next_counter r < next_counter r + 1" "0 < next_counter r + 1" "unat (next_counter r + 1) \<le> Suc n + 1"
    using IH(3) by (simp_all add: word_less_nat_alt)
  moreover from Router_Subscribe_ok [OF IH(1,2) this(1) run_Subscribe.hyps(2)]
  have "router_ok mgr mok r'" "next_counter r' \<in> {next_counter r, next_counter r + 1}" by simp_all
  ultimately show ?case using IH by auto
next
  case (run_Unsubscribe n r i r' gone)
  moreover have "next_counter r' = next_counter r"
    using run_Unsubscribe.hyps(2) by (auto simp: Router_Unsubscribe_def split: option.splits prod.splits)
  ultimately show ?case using Router_Unsubscribe_ok [of r i r' gone] by simp
next
  case (run_ListPairs n r e venue r' listed)
  moreover have "next_counter r' = next_counter r"
    using run_ListPairs.hyps(2) by (auto simp: Router_ListPairs_def split: option.splits prod.splits)
  ultimately show ?case using Router_ListPairs_ok [of r e venue r' listed] by simp
next
  case (run_supervise n r backoff es now failed_at retries ms' retries')
  then show ?case using supervise_ok(1) by simp
next
  case (run_venue n r venue m m')
  then have "mok venue m" by (simp add: router_ok_def venue_ok_def)
  with run_venue show ?case using keep_put(1) of_venue(6) by simp
qed

text \<open>Ids are listed once, whatever venue they belong to.\<close>

lemma listed_once:
  assumes "router_ok mgr mok r"
  shows "distinct (map (si_id \<circ> ls_subscription) (Router_List mgr r)) \<and>
    (\<forall>l \<in> subscribed mgr r. VenueOf (si_id (ls_subscription l)) = ls_venue l \<and> si_id (ls_subscription l) \<noteq> 0)"
proof
  have each: "venue_ok mgr mok (next_counter r) v m" if "(v, m) \<in> set (managers r)" for v m
    using assms that by (auto simp: router_ok_def simp flip: venue_less.map_of_mem)
  have keys: "distinct (map fst (managers r))"
    using assms venue_less.ordered_distinct by (auto simp: router_ok_def)
  have "distinct (concat (map (\<lambda>(v, m). map si_id (mn_List (mgr v) m)) ms))"
    if "set ms \<subseteq> set (managers r)" "distinct (map fst ms)" for ms
    using that
  proof (induction ms)
    case (Cons x ms)
    obtain v m where x: "x = (v, m)" by fastforce
    have "mok v m" and named: "\<forall>i \<in> ids (mgr v) m. VenueOf i = v" using each [of v m] Cons.prems x by (auto simp: venue_ok_def)
    then have "distinct (map si_id (mn_List (mgr v) m))"
      using of_venue(1) by (metis strict_sorted_iff)
    moreover have "VenueOf (si_id s) = w" "w \<noteq> v" if "(w, n) \<in> set ms" "s \<in> set (mn_List (mgr w) n)" for w n s
      using each [of w n] that Cons.prems x by (auto simp: venue_ok_def ids_def image_iff)
    ultimately show ?case
      using Cons named by (auto simp: x ids_def) metis
  qed simp
  from this [of "managers r"] keys show "distinct (map (si_id \<circ> ls_subscription) (Router_List mgr r))"
    by (simp add: Router_List_def map_concat comp_def case_prod_unfold)
  show "\<forall>l \<in> subscribed mgr r. VenueOf (si_id (ls_subscription l)) = ls_venue l \<and> si_id (ls_subscription l) \<noteq> 0"
    using assms by (auto simp: subscribed_iff router_ok_def venue_ok_def ids_def CounterOf_def) fastforce
qed

end

interpretation main_router: router "main_managers parse unspec" "main_ok parse" "main_moves parse unspec"
  by unfold_locales

lemma main_venues_ok:
  "ordered (<) (main_venues parse)"
  "\<forall>venue m. map_of (main_venues parse) venue = Some m \<longrightarrow>
     main_ok parse venue m \<and> mn_List (main_managers parse unspec venue) m = []"
  by (auto simp: main_venues_def main_ok_def main_managers_def via_def upcast_def L2_manager_def L2Manager_List_def
      L2Manager_new_def kKraken_def kCoinbase_def manager_ok_new [unfolded L2Manager_new_def] split: if_splits)

section \<open>The supervisor's backoff\<close>

text \<open>How long to wait after \<open>k + 1\<close> failed attempts in a row, in milliseconds.\<close>

definition wait :: "Backoff \<Rightarrow> nat \<Rightarrow> int" where
  "wait backoff k = min (bo_initial backoff * 2 ^ k) (bo_max backoff)"

text \<open>What a pass does at a venue: nothing, or an attempt and what it comes to.\<close>

definition attempt ::
    "(Id \<Rightarrow> ('e, 'm) Manager) \<Rightarrow> (Id \<Rightarrow> 'e) \<Rightarrow> int \<Rightarrow> (Id \<times> 'm) list \<Rightarrow> (Id \<Rightarrow> Retry) \<Rightarrow> Id \<Rightarrow> unit result option" where
  "attempt mgr es now ms retries v =
     (case map_of ms v of None \<Rightarrow> None
      | Some m \<Rightarrow> if mn_healthy (mgr v) m \<or> now < next_attempt (retries v) then None
          else Some (snd (mn_Connect (mgr v) (es v) m)))"

text \<open>
  A run of the supervisor seen from one venue: the failed attempts since the last that
  succeeded, newest first, each with when it began and when it failed, and the time of
  the last pass. Between passes the venues' states change in any way.
\<close>

inductive supervised ::
    "(Id \<Rightarrow> ('e, 'm) Manager) \<Rightarrow> Backoff \<Rightarrow> Id \<Rightarrow> (int \<times> int) list \<Rightarrow> int \<Rightarrow> (Id \<times> 'm) list \<Rightarrow> (Id \<Rightarrow> Retry) \<Rightarrow> bool"
  for mgr :: "Id \<Rightarrow> ('e, 'm) Manager" and backoff :: Backoff and v :: Id where
  sup_start: "distinct (map fst ms) \<Longrightarrow> supervised mgr backoff v [] 0 ms (retries_new backoff)"
| sup_pass: "supervised mgr backoff v fs t ms retries \<Longrightarrow> t \<le> now \<Longrightarrow>
     supervise_pass mgr backoff es now failed_at ms retries = (ms', retries') \<Longrightarrow>
     fs' = (case attempt mgr es now ms retries v of None \<Rightarrow> fs | Some (Inr _) \<Rightarrow> [] | Some (Inl _) \<Rightarrow> (now, failed_at v) # fs) \<Longrightarrow>
     supervised mgr backoff v fs' now ms' retries'"
| sup_venues: "supervised mgr backoff v fs t ms retries \<Longrightarrow> map fst ms' = map fst ms \<Longrightarrow>
     supervised mgr backoff v fs t ms' retries"

text \<open>Each attempt began when the wait after the failure before it was over.\<close>

fun spaced :: "Backoff \<Rightarrow> (int \<times> int) list \<Rightarrow> bool" where
  "spaced backoff ((began, _) # (b, ended) # fs) =
     (ended + wait backoff (length fs) * 1000000 \<le> began \<and> spaced backoff ((b, ended) # fs))"
| "spaced backoff _ = True"

lemma wait_first: "bo_initial backoff \<le> bo_max backoff \<Longrightarrow> wait backoff 0 = bo_initial backoff"
  by (simp add: wait_def)

lemma wait_doubles:
  "0 \<le> bo_max backoff \<Longrightarrow>
     min (wait backoff k * 2) (bo_max backoff) = wait backoff (Suc k)"
  by (simp add: wait_def min_def)

lemma retry_after_pass:
  assumes "distinct (map fst ms)" and "supervise_pass mgr backoff es now failed_at ms retries = (ms', retries')"
  shows "retries' v = (case attempt mgr es now ms retries v of
      None \<Rightarrow> retries v
    | Some (Inr _) \<Rightarrow> (retries v)\<lparr>delay := bo_initial backoff\<rparr>
    | Some (Inl _) \<Rightarrow> (retries v)\<lparr>next_attempt := failed_at v + delay (retries v) * 1000000,
        delay := min (delay (retries v) * 2) (bo_max backoff)\<rparr>)"
  using assms(2) unfolding supervise_pass_each [OF assms(1)]
  by (auto simp: attempt_def supervise_venue_def split: option.split prod.split sum.split)

lemma supervised_ok:
  assumes "supervised mgr backoff v fs t ms retries" and max: "0 \<le> bo_max backoff" "bo_initial backoff \<le> bo_max backoff"
  shows "distinct (map fst ms) \<and> 0 \<le> t \<and> delay (retries v) = wait backoff (length fs) \<and> spaced backoff fs \<and>
    (case fs of [] \<Rightarrow> next_attempt (retries v) \<le> t
     | (b, ended) # fs \<Rightarrow> next_attempt (retries v) = ended + wait backoff (length fs) * 1000000)"
  using assms(1)
proof (induction rule: supervised.induct)
  case (sup_start ms)
  then show ?case using max by (simp add: retries_new_def wait_def)
next
  case (sup_pass fs t ms retries now es failed_at ms' retries' fs')
  have keys: "map fst ms' = map fst ms"
    using supervise_pass_keys [of mgr backoff es now failed_at ms retries] sup_pass.hyps(3) by simp
  note r = retry_after_pass [OF conjunct1 [OF sup_pass.IH] sup_pass.hyps(3), of v]
  have due: "next_attempt (retries v) \<le> now" if "attempt mgr es now ms retries v \<noteq> None"
    using that by (auto simp: attempt_def split: option.splits if_splits)
  show ?case
  proof (cases "attempt mgr es now ms retries v")
    case None
    then show ?thesis using sup_pass keys r by (auto split: list.splits)
  next
    case (Some a)
    with due have "next_attempt (retries v) \<le> now" by simp
    then show ?thesis
      using sup_pass keys r Some wait_doubles [OF max(1), of "length fs"] wait_first [OF max(2)]
      by (cases a; cases fs) auto
  qed
next
  case (sup_venues fs t ms retries ms')
  then show ?case by simp
qed

section \<open>Properties\<close>

text \<open>
  Over every run of the Router with Kraken and Coinbase in which fewer than
  \<open>2 ^ 64 - 2\<close> subscriptions were asked for, the venues' subscriptions are one table:
  no id is listed twice, whatever the venues, none is zero, and each names the venue it
  is listed at. A subscribe with no other call in between adds exactly the subscription
  it answers, under an id not in the table that names its venue and sink, or answers an
  id the venue has, or fails, and then changes none. An unsubscribe removes exactly its
  id, or fails with \<open>kUnknownId\<close> and changes nothing at all.
\<close>

theorem router_keeps_one_table:
  assumes "router_reach (main_managers parse unspec) (main_moves parse unspec) (main_venues parse) n r"
    and "n < 2 ^ 64 - 2"
  shows "distinct (map (si_id \<circ> ls_subscription) (Router_List (main_managers parse unspec) r)) \<and>
    (\<forall>l \<in> subscribed (main_managers parse unspec) r.
       VenueOf (si_id (ls_subscription l)) = ls_venue l \<and> si_id (ls_subscription l) \<noteq> 0) \<and>
    (\<forall>sink e first venue book r' answer.
       Router_Subscribe (main_managers parse unspec) sink e first venue book r = (r', answer) \<and>
       map_of (managers r) venue \<in> {None, Some first} \<longrightarrow>
       (case answer of
          Inr (Inr i) \<Rightarrow>
            VenueOf i = venue \<and> SinkOf i = sink \<and>
            (\<forall>l \<in> subscribed (main_managers parse unspec) r. si_id (ls_subscription l) \<noteq> i) \<and>
            (\<exists>started. subscribed (main_managers parse unspec) r' =
               insert \<lparr>ls_venue = venue, ls_subscription = \<lparr>si_id = i, si_book = book, si_start_time_ns = started\<rparr>\<rparr>
                 (subscribed (main_managers parse unspec) r)) \<or>
            subscribed (main_managers parse unspec) r' = subscribed (main_managers parse unspec) r \<and>
            (\<exists>l \<in> subscribed (main_managers parse unspec) r. ls_venue l = venue \<and> si_id (ls_subscription l) = i)
        | _ \<Rightarrow> subscribed (main_managers parse unspec) r' = subscribed (main_managers parse unspec) r)) \<and>
    (\<forall>i r' gone. Router_Unsubscribe (main_managers parse unspec) i r = (r', gone) \<longrightarrow>
       subscribed (main_managers parse unspec) r' =
         {l \<in> subscribed (main_managers parse unspec) r. si_id (ls_subscription l) \<noteq> i} \<and>
       (if \<exists>l \<in> subscribed (main_managers parse unspec) r. si_id (ls_subscription l) = i then gone = Inr ()
        else r' = r \<and> (\<exists>s. gone = Failure kUnknownId s)))"
proof -
  let ?mgr = "main_managers parse unspec"
  have ok: "router_ok ?mgr (main_ok parse) r" "0 < next_counter r" "unat (next_counter r) \<le> n + 1"
    using main_router.reach_router_ok [OF assms(1) main_venues_ok] assms(2) by simp_all
  then have sorted: "ordered (<) (managers r)" by (simp add: router_ok_def)
  have "unat (next_counter r) + 1 < 2 ^ 64" using ok(3) assms(2) by simp
  then have less: "next_counter r < next_counter r + 1" by (simp add: word_less_nat_alt unat_word_ariths)
  have listed: "\<exists>l \<in> subscribed ?mgr r. ls_venue l = venue \<and> si_id (ls_subscription l) = i"
    if m: "map_of (managers r) venue = Some m" and i: "i \<in> ids (?mgr venue) m" for venue m i
  proof -
    obtain s where "s \<in> set (mn_List (?mgr venue) m)" "si_id s = i" using i by (auto simp: ids_def)
    then show ?thesis using m by (intro bexI [of _ "at venue s"]) (simp_all add: subscribed_iff [OF sorted])
  qed
  have "case answer of
      Inr (Inr i) \<Rightarrow>
        VenueOf i = venue \<and> SinkOf i = sink \<and> (\<forall>l \<in> subscribed ?mgr r. si_id (ls_subscription l) \<noteq> i) \<and>
        (\<exists>started. subscribed ?mgr r' =
           insert (at venue \<lparr>si_id = i, si_book = book, si_start_time_ns = started\<rparr>) (subscribed ?mgr r)) \<or>
        subscribed ?mgr r' = subscribed ?mgr r \<and>
        (\<exists>l \<in> subscribed ?mgr r. ls_venue l = venue \<and> si_id (ls_subscription l) = i)
    | _ \<Rightarrow> subscribed ?mgr r' = subscribed ?mgr r"
    if "Router_Subscribe ?mgr sink e first venue book r = (r', answer)" "map_of (managers r) venue \<in> {None, Some first}"
    for sink e first venue book r' answer
    using main_router.Router_Subscribe_ok [OF ok(1,2) less that(1)] that(2) listed [of venue]
    by (auto split: sum.splits)
  then show ?thesis
    using main_router.listed_once [OF ok(1)] main_router.Router_Unsubscribe_ok [OF ok(1)]
    unfolding at_def by (intro conjI allI impI) blast+
qed

definition demo_input :: "world venue_input" where
  "demo_input = \<lparr>in_world = (demo_http, \<lambda>_. Inr \<lparr>status = 200, body = ''x''\<rparr>), in_now = 0, in_clock = (\<lambda>_. (0, 0)),
     in_opened = Inr (), in_started = 3, in_built = Inr ()\<rparr>"

abbreviation demo_managers :: "Id \<Rightarrow> (world venue_input, venue_state) Manager" where
  "demo_managers \<equiv> main_managers demo_answer (\<lambda>_ _ _. 0)"

lemma demo_subscribes:
  "snd (Router_Subscribe demo_managers kRecord demo_input (Inl (L2Manager_new demo_adapter ())) kKraken demo_spec
     (Router_new (main_venues demo_answer))) = Inr (Inr (MakeSubscriptionId 1 kKraken kRecord))"
proof -
  let ?n = "L2Manager_new demo_adapter ()" and ?i = "MakeSubscriptionId 1 kKraken kRecord"
  have "subscriptions ?n = []" by (simp add: L2Manager_new_def)
  then have "snd (L2Manager_Subscribe demo_adapter demo_http ?i demo_spec 3 (Inr ()) ?n ?n) = Inr (Inr ?i)"
    unfolding Subscribe_outcomes [OF manager_ok_new] by (simp add: demo_check demo_precision)
  then show ?thesis
    by (simp add: Router_Subscribe_def Router_new_def main_venues_def kMaxSubscriptionsAllowed_def main_managers_def
        kKraken_def kCoinbase_def upcast_def left_def L2_manager_def demo_input_def Let_def case_prod_beta)
qed

theorem router_keeps_one_table_witness:
  "\<exists>r started. Router_Subscribe demo_managers kRecord demo_input (Inl (L2Manager_new demo_adapter ())) kKraken demo_spec
       (Router_new (main_venues demo_answer)) = (r, Inr (Inr (MakeSubscriptionId 1 kKraken kRecord))) \<and>
     subscribed demo_managers r = {\<lparr>ls_venue = kKraken, ls_subscription =
       \<lparr>si_id = MakeSubscriptionId 1 kKraken kRecord, si_book = demo_spec, si_start_time_ns = started\<rparr>\<rparr>}"
proof -
  let ?new = "Router_new (main_venues demo_answer)" and ?n = "Inl (L2Manager_new demo_adapter ())"
  let ?call = "Router_Subscribe demo_managers kRecord demo_input ?n kKraken demo_spec ?new"
  have none: "subscribed demo_managers ?new = {}"
    using main_router.router_ok_new(2) main_venues_ok by blast
  have m: "map_of (managers ?new) kKraken \<in> {None, Some ?n}"
    by (simp add: Router_new_def main_venues_def)
  have call: "?call = (fst ?call, Inr (Inr (MakeSubscriptionId 1 kKraken kRecord)))"
    using demo_subscribes by (metis prod.collapse)
  from router_keeps_one_table [OF run_start, of demo_answer "\<lambda>_ _ _. 0", THEN conjunct2, THEN conjunct2, THEN conjunct1,
      rule_format, OF _ conjI [OF call m]] call
  show ?thesis by (auto simp: none)
qed

text \<open>
  C24. The supervisor, for any managers: a venue's attempts in a row that fail are spaced
  by waits that double from \<open>initial\<close> up to \<open>max\<close>, each counted from when the attempt before
  it failed, however long it took and whatever happened to the venue in between. A pass
  connects a venue that is not healthy unless it is still waiting, and at once when its
  last attempt succeeded; it touches no other venue.
\<close>

theorem supervisor_backs_off:
  assumes "supervised mgr backoff v fs t ms retries"
    and "0 \<le> bo_max backoff" and "bo_initial backoff \<le> bo_max backoff"
  shows "spaced backoff fs \<and>
    (\<forall>m es now failed_at ms' retries'.
       map_of ms v = Some m \<and> t \<le> now \<and> supervise_pass mgr backoff es now failed_at ms retries = (ms', retries') \<longrightarrow>
       map_of ms' v = Some (
         if mn_healthy (mgr v) m \<or>
           (case fs of [] \<Rightarrow> False | (_, ended) # fs \<Rightarrow> now < ended + wait backoff (length fs) * 1000000)
         then m else fst (mn_Connect (mgr v) (es v) m)))"
proof -
  note ok = supervised_ok [OF assms]
  have "map_of ms' v = Some (
      if mn_healthy (mgr v) m \<or>
        (case fs of [] \<Rightarrow> False | (_, ended) # fs \<Rightarrow> now < ended + wait backoff (length fs) * 1000000)
      then m else fst (mn_Connect (mgr v) (es v) m))"
    if "map_of ms v = Some m" "t \<le> now" "supervise_pass mgr backoff es now failed_at ms retries = (ms', retries')"
    for m es now failed_at ms' retries'
    using that(1,2) that(3) [symmetric] ok
    by (cases fs) (auto simp: supervise_pass_each map_of_keyed supervise_venue_def split: prod.split sum.split)
  with ok show ?thesis by blast
qed

definition demo_down :: "world venue_input" where
  "demo_down = demo_input\<lparr>in_opened := Inl (runtime_error ''down'')\<rparr>"

abbreviation demo_backoff :: Backoff where
  "demo_backoff \<equiv> \<lparr>bo_initial = 1000, bo_max = 30000\<rparr>"

abbreviation demo_pass ::
    "world venue_input \<Rightarrow> int \<Rightarrow> (Id \<times> venue_state) list \<times> (Id \<Rightarrow> Retry) \<Rightarrow> (Id \<times> venue_state) list \<times> (Id \<Rightarrow> Retry)" where
  "demo_pass e now s \<equiv> supervise_pass demo_managers demo_backoff (\<lambda>_. e) now (\<lambda>_. now + 20) (fst s) (snd s)"

theorem supervisor_backs_off_witness:
  "let tried = demo_pass demo_down 5 (main_venues demo_answer, retries_new demo_backoff) in
   map_of (fst (demo_pass demo_input 1000000024 tried)) kKraken = map_of (fst tried) kKraken \<and>
   map_of (fst (demo_pass demo_input 1000000025 tried)) kKraken =
     Some (fst (mn_Connect (demo_managers kKraken) demo_input (the (map_of (fst tried) kKraken))))"
proof -
  let ?ms = "main_venues demo_answer" and ?retries = "retries_new demo_backoff"
  let ?tried = "demo_pass demo_down 5 (?ms, ?retries)"
  have ms: "distinct (map fst ?ms)" "map_of ?ms kKraken = Some (Inl (L2Manager_new demo_adapter ()))"
    by (simp_all add: main_venues_def kKraken_def kCoinbase_def)
  let ?new = "Inl (L2Manager_new demo_adapter ())" and ?mgr = "demo_managers kKraken"
  define c where "c = mn_Connect ?mgr demo_down ?new"
  have new: "\<not> mn_healthy ?mgr ?new" "snd c = Inl (runtime_error ''down'')"
    by (simp_all add: c_def main_managers_def kKraken_def kCoinbase_def upcast_def left_def L2_manager_def demo_down_def
        healthy_def L2Manager_new_def L2Manager_Connect_def Let_def case_prod_beta)
  have "main_ok demo_answer kKraken ?new" using main_venues_ok(2) ms(2) by blast
  from main_contract.connects [OF this, of _ demo_down "fst c" "snd c"]
  have c: "\<not> mn_healthy ?mgr (fst c)" using new(2) by (simp add: c_def)
  have "attempt demo_managers (\<lambda>_. demo_down) 5 ?ms ?retries kKraken = Some (Inl (runtime_error ''down''))"
    using ms(2) new by (simp add: attempt_def retries_new_def c_def)
  then have run: "supervised demo_managers demo_backoff kKraken [(5, 25)] 5 (fst ?tried) (snd ?tried)"
    by (intro sup_pass [where now = 5 and es = "\<lambda>_. demo_down" and failed_at = "\<lambda>_. 5 + 20",
        OF sup_start [OF ms(1)]]) simp_all
  have tried: "map_of (fst ?tried) kKraken = Some (fst c)"
    using ms new
    by (simp add: supervise_pass_each map_of_keyed supervise_venue_def retries_new_def c_def case_prod_beta split: sum.split)
  have pass: "map_of (fst (demo_pass demo_input now ?tried)) kKraken =
      Some (if now < 1000000025 then fst c else fst (mn_Connect ?mgr demo_input (fst c)))" if "5 \<le> now" for now
    using supervisor_backs_off [OF run, THEN conjunct2, rule_format,
        OF _ _ conjI [OF tried conjI [OF that surjective_pairing]], of "\<lambda>_. demo_input" "\<lambda>_. now + 20"] c
    by (simp add: wait_def)
  show ?thesis
    using pass [of 1000000024] pass [of 1000000025] unfolding Let_def tried by simp
qed

end
