(* ===== verification/VenueRouterCommands.thy ===== *)
theory VenueRouterCommands
  imports VenueRouterRuns
begin

text \<open>
  The Router under commands of several threads: \<^verbatim>\<open>Subscribe\<close> in the steps at which other
  commands come in between, that is when it takes the next counter, at the venue's first
  lock, and at its second; the supervisor venue by venue.
\<close>

section \<open>Subscribe in steps\<close>

definition Router_TakeId :: "Sink \<Rightarrow> Id \<Rightarrow> 'm Router \<Rightarrow> 'm Router \<times> SubscriptionId expected" where
  "Router_TakeId sink venue r =
     (case map_of (managers r) venue of
        None \<Rightarrow> (r, UnknownVenue venue)
      | Some m \<Rightarrow>
          let counter = next_counter r; r = r\<lparr>next_counter := counter + 1\<rparr>
          in (r, if counter > kMaxSubscriptionsAllowed
                 then Failure kIdsExhausted
                   (''All '' @ nat_to_dec (unat kMaxSubscriptionsAllowed) @ '' subscription ids are taken'')
                 else Inr (MakeSubscriptionId counter venue sink)))"

definition Router_SubscribeAt ::
    "(Id \<Rightarrow> ('e, 'm) Manager) \<Rightarrow> 'e \<Rightarrow> 'm \<Rightarrow> Id \<Rightarrow> SubscriptionId \<Rightarrow> BookSpec \<Rightarrow> 'm Router \<Rightarrow>
       'm Router \<times> SubscriptionId expected result" where
  "Router_SubscribeAt mgr e first venue i book r =
     (case map_of (managers r) venue of
        None \<Rightarrow> (r, Inr (UnknownVenue venue))
      | Some m \<Rightarrow> (case mn_Subscribe (mgr venue) e first i book m of (m, answer) \<Rightarrow> (put venue m r, answer)))"

text \<open>With nothing in between it is \<open>Router_Subscribe\<close>.\<close>

lemma Router_Subscribe_steps:
  "Router_Subscribe mgr sink e first venue book r =
     (case Router_TakeId sink venue r of
        (r, Inl f) \<Rightarrow> (r, Inr (Inl f))
      | (r, Inr i) \<Rightarrow> Router_SubscribeAt mgr e first venue i book r)"
  by (simp add: Router_Subscribe_def Router_TakeId_def Router_SubscribeAt_def UnknownVenue_def Failure_def Let_def
      split: option.split)

section \<open>Runs\<close>

text \<open>
  A \<^verbatim>\<open>Subscribe\<close> under way: its id and book, and the venue's state at the first lock once it
  was there. What the commands that returned were answered, newest first.
\<close>

record 'm under_way =
  uw_venue :: Id
  uw_id :: SubscriptionId
  uw_book :: BookSpec
  uw_first :: "'m option"

datatype outcome =
    Did_Subscribe SubscriptionId BookSpec "SubscriptionId expected result"
  | Did_Unsubscribe SubscriptionId "unit expected"

record 'm commands =
  co_router :: "'m Router"
  co_calls :: nat
  co_under_way :: "'m under_way list"
  co_taken :: "SubscriptionId list"
  co_done :: "outcome list"

definition commands_new :: "(Id \<times> 'm) list \<Rightarrow> 'm commands" where
  "commands_new ms = \<lparr>co_router = Router_new ms, co_calls = 0, co_under_way = [], co_taken = [], co_done = []\<rparr>"

inductive command_step ::
    "(Id \<Rightarrow> ('e, 'm) Manager) \<Rightarrow> (Id \<Rightarrow> 'm \<Rightarrow> 'm \<Rightarrow> bool) \<Rightarrow> 'm commands \<Rightarrow> 'm commands \<Rightarrow> bool"
  for mgr :: "Id \<Rightarrow> ('e, 'm) Manager" and moves :: "Id \<Rightarrow> 'm \<Rightarrow> 'm \<Rightarrow> bool" where
  step_take: "Router_TakeId sink venue (co_router s) = (r, Inr i) \<Longrightarrow>
     command_step mgr moves s (s\<lparr>co_router := r, co_calls := Suc (co_calls s), co_taken := i # co_taken s,
       co_under_way := \<lparr>uw_venue = venue, uw_id = i, uw_book = book, uw_first = None\<rparr> # co_under_way s\<rparr>)"
| step_refused: "Router_TakeId sink venue (co_router s) = (r, Inl f) \<Longrightarrow>
     command_step mgr moves s (s\<lparr>co_router := r, co_calls := Suc (co_calls s)\<rparr>)"
| step_first_lock: "co_under_way s = us @ u # vs \<Longrightarrow> uw_first u = None \<Longrightarrow>
     map_of (managers (co_router s)) (uw_venue u) = Some m \<Longrightarrow>
     command_step mgr moves s (s\<lparr>co_under_way := us @ u\<lparr>uw_first := Some m\<rparr> # vs\<rparr>)"
| step_Subscribe: "co_under_way s = us @ u # vs \<Longrightarrow> uw_first u = Some first \<Longrightarrow>
     Router_SubscribeAt mgr e first (uw_venue u) (uw_id u) (uw_book u) (co_router s) = (r, answer) \<Longrightarrow>
     command_step mgr moves s (s\<lparr>co_router := r, co_under_way := us @ vs,
       co_done := Did_Subscribe (uw_id u) (uw_book u) answer # co_done s\<rparr>)"
| step_Unsubscribe: "Router_Unsubscribe mgr i (co_router s) = (r, gone) \<Longrightarrow>
     command_step mgr moves s (s\<lparr>co_router := r, co_done := Did_Unsubscribe i gone # co_done s\<rparr>)"
| step_ListPairs: "Router_ListPairs mgr e venue (co_router s) = (r, listed) \<Longrightarrow>
     command_step mgr moves s (s\<lparr>co_router := r\<rparr>)"
| step_supervise: "map_of (managers (co_router s)) venue = Some m \<Longrightarrow>
     supervise_venue mgr backoff e now failed_at venue (m, retry) = (m', retry') \<Longrightarrow>
     command_step mgr moves s (s\<lparr>co_router := put venue m' (co_router s)\<rparr>)"
| step_venue: "map_of (managers (co_router s)) venue = Some m \<Longrightarrow> moves venue m m' \<Longrightarrow>
     command_step mgr moves s (s\<lparr>co_router := put venue m' (co_router s)\<rparr>)"

inductive commands_reach ::
    "(Id \<Rightarrow> ('e, 'm) Manager) \<Rightarrow> (Id \<Rightarrow> 'm \<Rightarrow> 'm \<Rightarrow> bool) \<Rightarrow> (Id \<times> 'm) list \<Rightarrow> 'm commands \<Rightarrow> bool"
  for mgr :: "Id \<Rightarrow> ('e, 'm) Manager" and moves :: "Id \<Rightarrow> 'm \<Rightarrow> 'm \<Rightarrow> bool" and ms :: "(Id \<times> 'm) list" where
  commands_start: "commands_reach mgr moves ms (commands_new ms)"
| commands_more: "commands_reach mgr moves ms s \<Longrightarrow> command_step mgr moves s s' \<Longrightarrow> commands_reach mgr moves ms s'"

inductive_cases command_stepE: "command_step mgr moves s s'"

section \<open>What the answers promise\<close>

text \<open>
  The specification of the answers: the ids that were given to a subscription, the table
  they leave, and which answers are right. An id is given once and never again.
\<close>

fun given :: "outcome list \<Rightarrow> SubscriptionId list" where
  "given [] = []"
| "given (Did_Subscribe i book answer # h) = (if answer = Inr (Inr i) then i # given h else given h)"
| "given (Did_Unsubscribe i gone # h) = given h"

fun agreed :: "outcome list \<Rightarrow> (SubscriptionId \<times> BookSpec) set" where
  "agreed [] = {}"
| "agreed (Did_Subscribe i book answer # h) = (if answer = Inr (Inr i) then insert (i, book) (agreed h) else agreed h)"
| "agreed (Did_Unsubscribe i gone # h) = (if gone = Inr () then {(j, b) \<in> agreed h. j \<noteq> i} else agreed h)"

fun answers_right :: "outcome list \<Rightarrow> bool" where
  "answers_right [] = True"
| "answers_right (Did_Subscribe i book answer # h) \<longleftrightarrow> answers_right h \<and> i \<notin> set (given h) \<and>
     (\<forall>j. answer = Inr (Inr j) \<longrightarrow> j \<noteq> i \<longrightarrow> j \<in> set (given h) \<and> VenueOf j = VenueOf i)"
| "answers_right (Did_Unsubscribe i gone # h) \<longleftrightarrow> answers_right h \<and>
     (if i \<in> fst ` agreed h then gone = Inr () else \<exists>s. gone = Failure kUnknownId s)"

lemma agreed_given: "fst ` agreed h \<subseteq> set (given h)"
  by (induction h rule: agreed.induct) (auto split: if_splits)

lemma given_distinct: "answers_right h \<Longrightarrow> distinct (given h)"
  by (induction h rule: given.induct) auto

section \<open>The invariant\<close>

definition ids_ok :: "u64 \<Rightarrow> SubscriptionId list \<Rightarrow> bool" where
  "ids_ok counter taken \<longleftrightarrow> distinct taken \<and> (\<forall>i \<in> set taken. 0 < CounterOf i \<and> CounterOf i < counter)"

definition under_way_ok :: "(Id \<Rightarrow> ('e, 'm) Manager) \<Rightarrow> SubscriptionId list \<Rightarrow> outcome list \<Rightarrow> 'm under_way \<Rightarrow> bool" where
  "under_way_ok mgr taken h u \<longleftrightarrow> VenueOf (uw_id u) = uw_venue u \<and> uw_id u \<in> set taken \<and> uw_id u \<notin> set (given h) \<and>
     (\<forall>m. uw_first u = Some m \<longrightarrow> (\<forall>i \<in> ids (mgr (uw_venue u)) m. i \<in> set (given h) \<and> VenueOf i = uw_venue u))"

definition table_of :: "(Id \<Rightarrow> ('e, 'm) Manager) \<Rightarrow> 'm Router \<Rightarrow> (SubscriptionId \<times> BookSpec) set" where
  "table_of mgr r = (\<lambda>l. (si_id (ls_subscription l), si_book (ls_subscription l))) ` subscribed mgr r"

definition commands_ok :: "(Id \<Rightarrow> ('e, 'm) Manager) \<Rightarrow> (Id \<Rightarrow> 'm \<Rightarrow> bool) \<Rightarrow> 'm commands \<Rightarrow> bool" where
  "commands_ok mgr mok s \<longleftrightarrow>
     router_ok mgr mok (co_router s) \<and> 0 < next_counter (co_router s) \<and>
     unat (next_counter (co_router s)) \<le> co_calls s + 1 \<and>
     ids_ok (next_counter (co_router s)) (co_taken s) \<and>
     distinct (map uw_id (co_under_way s)) \<and>
     (\<forall>u \<in> set (co_under_way s). under_way_ok mgr (co_taken s) (co_done s) u) \<and>
     set (given (co_done s)) \<subseteq> set (co_taken s) \<and>
     table_of mgr (co_router s) = agreed (co_done s) \<and> answers_right (co_done s)"

lemma table_of_cong: "subscribed mgr r' = subscribed mgr r \<Longrightarrow> table_of mgr r' = table_of mgr r"
  by (simp add: table_of_def)

lemma ids_in_table:
  assumes "ordered (<) (managers r)" and "map_of (managers r) venue = Some m" and "i \<in> ids (mgr venue) m"
  shows "i \<in> fst ` table_of mgr r"
proof -
  obtain s where "s \<in> set (mn_List (mgr venue) m)" "si_id s = i" using assms(3) by (auto simp: ids_def)
  then have "at venue s \<in> subscribed mgr r" "si_id (ls_subscription (at venue s)) = i"
    using assms(1,2) by (simp_all add: subscribed_iff)
  then show ?thesis unfolding table_of_def image_image by force
qed

lemma Router_TakeId_ok:
  assumes "Router_TakeId sink venue r = (r', answer)" and "unat (next_counter r) \<le> n" and "n < 2 ^ 64 - 1"
  shows "managers r' = managers r" "next_counter r \<le> next_counter r'" "unat (next_counter r') \<le> n + 1"
    "\<And>i. answer = Inr i \<Longrightarrow> VenueOf i = venue \<and> CounterOf i = next_counter r \<and> next_counter r < next_counter r'"
proof -
  have "unat (next_counter r + 1) = unat (next_counter r) + 1"
    using assms(2,3) by (simp add: unat_plus_simple [THEN iffD1] word_le_nat_alt unat_word_ariths)
  then show "managers r' = managers r" "next_counter r \<le> next_counter r'" "unat (next_counter r') \<le> n + 1"
    "\<And>i. answer = Inr i \<Longrightarrow> VenueOf i = venue \<and> CounterOf i = next_counter r \<and> next_counter r < next_counter r'"
    using assms(1,2)
    by (auto simp: Router_TakeId_def UnknownVenue_def Failure_def Let_def word_le_nat_alt word_less_nat_alt
        VenueOf_Make CounterOf_Make split: option.splits if_splits)
qed

context router
begin

lemma managers_same:
  "managers r' = managers r \<Longrightarrow> next_counter r \<le> next_counter r' \<Longrightarrow> router_ok mgr mok r \<Longrightarrow> router_ok mgr mok r'"
  "managers r' = managers r \<Longrightarrow> subscribed mgr r' = subscribed mgr r"
  using venue_ok_later [of mgr mok "next_counter r" _ _ "next_counter r'"]
  by (auto simp: router_ok_def subscribed_def Router_List_def)

lemma Router_SubscribeAt_ok:
  assumes ok: "router_ok mgr mok r" and i: "VenueOf i = venue" "0 < CounterOf i" "CounterOf i < next_counter r"
    and run: "Router_SubscribeAt mgr e first venue i book r = (r', answer)"
  shows "router_ok mgr mok r' \<and> next_counter r' = next_counter r \<and>
    (if answer = Inr (Inr i) then i \<notin> fst ` table_of mgr r \<and> table_of mgr r' = insert (i, book) (table_of mgr r)
     else table_of mgr r' = table_of mgr r \<and>
       (\<forall>j. answer = Inr (Inr j) \<longrightarrow> j \<in> ids (mgr venue) first \<or> j \<in> fst ` table_of mgr r \<and> VenueOf j = venue))"
proof (cases "map_of (managers r) venue")
  case None
  then show ?thesis using ok run by (auto simp: Router_SubscribeAt_def UnknownVenue_def Failure_def)
next
  case (Some m)
  have sorted: "ordered (<) (managers r)" using ok by (simp add: router_ok_def)
  obtain m' where m': "mn_Subscribe (mgr venue) e first i book m = (m', answer)" "r' = put venue m' r"
    using run Some by (auto simp: Router_SubscribeAt_def split: prod.splits)
  have m: "venue_ok mgr mok (next_counter r) venue m" using ok Some by (simp add: router_ok_def)
  then have "mok venue m" by (simp add: venue_ok_def)
  from of_venue(3) [OF this m'(1)] consider
      "m' = m" "\<forall>j. answer = Inr (Inr j) \<longrightarrow> j \<noteq> i \<and> j \<in> ids (mgr venue) first \<union> ids (mgr venue) m"
    | started where "mok venue m'" "answer = Inr (Inr i)" "i \<notin> ids (mgr venue) m"
      "set (mn_List (mgr venue) m') =
        insert \<lparr>si_id = i, si_book = book, si_start_time_ns = started\<rparr> (set (mn_List (mgr venue) m))"
    by blast
  then show ?thesis
  proof cases
    case 1
    then have "router_ok mgr mok r'" "subscribed mgr r' = subscribed mgr r"
      using keep_put [OF ok Some, of m] \<open>mok venue m\<close> by (simp_all add: m'(2))
    moreover have "VenueOf j = venue \<and> j \<in> fst ` table_of mgr r" if "j \<in> ids (mgr venue) m" for j
      using ids_in_table [where mgr = mgr, OF sorted Some that] m that by (auto simp: venue_ok_def)
    ultimately show ?thesis using 1(2) table_of_cong [of mgr r' r] by (auto simp: m'(2))
  next
    case 2
    have "venue_ok mgr mok (next_counter r) venue m'" using 2 m i by (auto simp: venue_ok_def ids_def)
    then have ok': "router_ok mgr mok r'" using router_ok_put [OF ok] by (simp add: m'(2))
    have all: "subscribed mgr r' = insert (at venue \<lparr>si_id = i, si_book = book, si_start_time_ns = started\<rparr>) (subscribed mgr r)"
      using 2 Some subscribed_put [OF sorted, of _ mgr venue m'] unfolding m'(2)
      by (intro set_eqI) (auto simp: at_eq_iff subscribed_iff [OF sorted])
    have "i \<notin> fst ` table_of mgr r"
    proof
      assume "i \<in> fst ` table_of mgr r"
      then obtain l where l: "l \<in> subscribed mgr r" "si_id (ls_subscription l) = i" by (auto simp: table_of_def)
      then obtain n where n: "map_of (managers r) (ls_venue l) = Some n" "i \<in> ids (mgr (ls_venue l)) n"
        by (auto simp: subscribed_iff [OF sorted] ids_def)
      then have "ls_venue l = venue" using ok i(1) by (auto simp: router_ok_def venue_ok_def)
      with n Some 2(3) show False by simp
    qed
    with all 2(2) ok' show ?thesis by (simp add: m'(2) table_of_def)
  qed
qed

text \<open>A command that neither takes an id nor answers one leaves the rest as it was.\<close>

lemma commands_ok_router:
  assumes "commands_ok mgr mok s" and "router_ok mgr mok r \<and> subscribed mgr r = subscribed mgr (co_router s)"
    and "next_counter r = next_counter (co_router s)"
  shows "commands_ok mgr mok (s\<lparr>co_router := r\<rparr>)"
  using assms table_of_cong [of mgr r "co_router s"] by (simp add: commands_ok_def)

lemma command_step_ok:
  assumes "command_step mgr moves s s'" and ok: "commands_ok mgr mok s" and few: "co_calls s' < 2 ^ 64 - 1"
  shows "commands_ok mgr mok s'"
proof -
  let ?r = "co_router s"
  have r: "router_ok mgr mok ?r" "0 < next_counter ?r" "unat (next_counter ?r) \<le> co_calls s + 1"
    using ok by (simp_all add: commands_ok_def)
  then have sorted: "ordered (<) (managers ?r)" by (simp add: router_ok_def)
  from assms(1) show ?thesis
  proof cases
    case (step_take sink venue r' i book)
    have "co_calls s + 1 < 2 ^ 64 - 1" using few step_take(1) by simp
    note take = Router_TakeId_ok [OF step_take(2) r(3) this]
    have new: "i \<notin> set (co_taken s)" "ids_ok (next_counter r') (i # co_taken s)"
      using ok take(2) take(4) [of i] r(2) by (auto simp: commands_ok_def ids_ok_def)
    have "\<forall>u \<in> set (co_under_way s). uw_id u \<noteq> i" "i \<notin> set (given (co_done s))"
      using ok new(1) by (auto simp: commands_ok_def under_way_ok_def)
    moreover have "under_way_ok mgr (i # co_taken s) h u" if "under_way_ok mgr (co_taken s) h u" for h u
      using that by (auto simp: under_way_ok_def)
    moreover have "0 < next_counter r'" using r(2) take(2) by simp
    ultimately show ?thesis
      using ok new(2) take managers_same [OF take(1)] r(1) table_of_cong [of mgr r' ?r]
      by (auto simp: commands_ok_def step_take(1) under_way_ok_def image_iff)
  next
    case (step_refused sink venue r' f)
    have "co_calls s + 1 < 2 ^ 64 - 1" using few step_refused(1) by simp
    note take = Router_TakeId_ok [OF step_refused(2) r(3) this]
    have "ids_ok (next_counter r') (co_taken s)" "0 < next_counter r'"
      using ok take(2) r(2) by (auto simp: commands_ok_def ids_ok_def)
    then show ?thesis
      using ok take managers_same [OF take(1)] table_of_cong [of mgr r' ?r] by (simp add: commands_ok_def step_refused(1))
  next
    case (step_first_lock us u vs m)
    have table: "\<forall>i \<in> ids (mgr (uw_venue u)) m. i \<in> fst ` agreed (co_done s) \<and> VenueOf i = uw_venue u"
      using ids_in_table [where mgr = mgr, OF sorted step_first_lock(4)] ok step_first_lock(4)
      by (auto simp: commands_ok_def router_ok_def venue_ok_def)
    then have "under_way_ok mgr (co_taken s) (co_done s) (u\<lparr>uw_first := Some m\<rparr>)"
      using ok step_first_lock(2) agreed_given [of "co_done s"] by (auto simp: commands_ok_def under_way_ok_def)
    then show ?thesis using ok step_first_lock(1,2) by (auto simp: commands_ok_def)
  next
    case (step_Subscribe us u vs first e r' answer)
    let ?i = "uw_id u"
    have u: "VenueOf ?i = uw_venue u" "?i \<in> set (co_taken s)" "?i \<notin> set (given (co_done s))"
      "\<forall>i \<in> ids (mgr (uw_venue u)) first. i \<in> set (given (co_done s)) \<and> VenueOf i = uw_venue u"
      using ok step_Subscribe(2,3) by (auto simp: commands_ok_def under_way_ok_def)
    then have c: "0 < CounterOf ?i" "CounterOf ?i < next_counter ?r" using ok by (auto simp: commands_ok_def ids_ok_def)
    note sub = Router_SubscribeAt_ok [OF r(1) u(1) c step_Subscribe(4)]
    have table: "table_of mgr ?r = agreed (co_done s)" using ok by (simp add: commands_ok_def)
    have "answers_right (Did_Subscribe ?i (uw_book u) answer # co_done s)"
      using ok sub u agreed_given [of "co_done s"] table by (auto simp: commands_ok_def image_subset_iff)
    moreover have "table_of mgr r' = agreed (Did_Subscribe ?i (uw_book u) answer # co_done s)"
      using sub table by (auto split: if_splits)
    moreover have "?i \<notin> uw_id ` set (us @ vs)" "distinct (map uw_id (us @ vs))"
      "\<forall>v \<in> set (us @ vs). under_way_ok mgr (co_taken s) (co_done s) v"
      using ok step_Subscribe(2) by (auto simp: commands_ok_def)
    then have "\<forall>v \<in> set (us @ vs). uw_id v \<noteq> ?i \<and> under_way_ok mgr (co_taken s) (co_done s) v"
      "distinct (map uw_id (us @ vs))" by (metis image_eqI)+
    ultimately show ?thesis
      using ok sub u(2) by (auto simp: commands_ok_def step_Subscribe(1) under_way_ok_def)
  next
    case (step_Unsubscribe i r' gone)
    note un = Router_Unsubscribe_ok [OF r(1) step_Unsubscribe(2)]
    have table: "table_of mgr ?r = agreed (co_done s)" using ok by (simp add: commands_ok_def)
    have "(\<exists>l \<in> subscribed mgr ?r. si_id (ls_subscription l) = i) \<longleftrightarrow> i \<in> fst ` agreed (co_done s)"
      by (force simp: table_of_def simp flip: table)
    then have "answers_right (Did_Unsubscribe i gone # co_done s)" using ok un by (simp add: commands_ok_def)
    moreover have "table_of mgr r' = {(j, b) \<in> table_of mgr ?r. j \<noteq> i}"
      using un by (auto simp: table_of_def)
    then have "table_of mgr r' = agreed (Did_Unsubscribe i gone # co_done s)"
      using un table \<open>_ \<longleftrightarrow> i \<in> fst ` agreed (co_done s)\<close> by (force simp: Failure_def split: if_splits)
    moreover have "next_counter r' = next_counter ?r"
      using step_Unsubscribe(2) by (auto simp: Router_Unsubscribe_def split: option.splits prod.splits)
    ultimately show ?thesis
      using ok un by (auto simp: commands_ok_def step_Unsubscribe(1) under_way_ok_def)
  next
    case (step_ListPairs e venue r' listed)
    have "next_counter r' = next_counter ?r"
      using step_ListPairs(2) by (auto simp: Router_ListPairs_def split: option.splits prod.splits)
    then show ?thesis
      using commands_ok_router [OF ok Router_ListPairs_ok [OF r(1) step_ListPairs(2)]] by (simp add: step_ListPairs(1))
  next
    case (step_supervise venue m backoff e now failed_at retry m' retry')
    have "mok venue m" using r(1) step_supervise(2) by (simp add: router_ok_def venue_ok_def)
    from keep_put [OF r(1) step_supervise(2) supervise_venue_keeps [OF this step_supervise(3)]]
    show ?thesis using commands_ok_router [OF ok] by (simp add: step_supervise(1))
  next
    case (step_venue venue m m')
    have "mok venue m" using r(1) step_venue(2) by (simp add: router_ok_def venue_ok_def)
    from keep_put [OF r(1) step_venue(2) of_venue(6) [OF this step_venue(3)]]
    show ?thesis using commands_ok_router [OF ok] by (simp add: step_venue(1))
  qed
qed

lemma commands_calls: "command_step mgr moves s s' \<Longrightarrow> co_calls s \<le> co_calls s'"
  by (auto elim: command_stepE)

lemma reach_commands_ok:
  assumes "commands_reach mgr moves ms s" and "ordered (<) ms"
    and "\<forall>venue m. map_of ms venue = Some m \<longrightarrow> mok venue m \<and> mn_List (mgr venue) m = []"
  shows "co_calls s < 2 ^ 64 - 1 \<Longrightarrow> commands_ok mgr mok s"
  using assms(1)
proof (induction rule: commands_reach.induct)
  case commands_start
  then show ?case
    using router_ok_new assms(2,3)
    by (simp add: commands_ok_def commands_new_def ids_ok_def table_of_def) (simp add: Router_new_def)
next
  case (commands_more s s')
  then show ?case using command_step_ok commands_calls by fastforce
qed

end

section \<open>The property\<close>

text \<open>
  C8. Commands of several threads on Kraken and Coinbase, whatever order their steps and
  the venues' come in, with fewer than \<open>2 ^ 64 - 1\<close> calls of \<^verbatim>\<open>Subscribe\<close>: at every moment
  the venues' subscriptions are those the answers given so far agree on, each under one
  id; an id is given to one subscription and never again, also once that ended; a
  subscribe that answers another id answers one given before, of its venue; and an
  unsubscribe succeeds exactly for an id of the table, and fails with \<open>kUnknownId\<close> for any
  other.
\<close>

theorem commands_agree_on_one_table:
  assumes "commands_reach (main_managers parse unspec) (main_moves parse unspec) (main_venues parse) s"
    and "co_calls s < 2 ^ 64 - 1"
  shows "(\<lambda>l. (si_id (ls_subscription l), si_book (ls_subscription l))) `
      set (Router_List (main_managers parse unspec) (co_router s)) = agreed (co_done s) \<and>
    distinct (map (si_id \<circ> ls_subscription) (Router_List (main_managers parse unspec) (co_router s))) \<and>
    distinct (given (co_done s)) \<and> answers_right (co_done s)"
proof -
  have ok: "commands_ok (main_managers parse unspec) (main_ok parse) s"
    using main_router.reach_commands_ok [OF assms(1) main_venues_ok assms(2)] .
  then show ?thesis
    using main_router.listed_once [where r = "co_router s"] given_distinct
    by (simp add: commands_ok_def table_of_def subscribed_def)
qed

text \<open>A recording is asked for, then a stream, and the recording is made first.\<close>

abbreviation demo_first :: SubscriptionId where
  "demo_first \<equiv> MakeSubscriptionId 1 kKraken kRecord"

abbreviation demo_second :: SubscriptionId where
  "demo_second \<equiv> MakeSubscriptionId 2 kCoinbase kLive"

lemma demo_SubscribeAt:
  assumes "managers r = main_venues demo_answer"
  shows "\<exists>r'. Router_SubscribeAt demo_managers demo_input (Inl (L2Manager_new demo_adapter ())) kKraken demo_first demo_spec r =
    (r', Inr (Inr demo_first))"
proof -
  have "Router_TakeId kRecord kKraken (Router_new (main_venues demo_answer)) =
      ((Router_new (main_venues demo_answer))\<lparr>next_counter := 2\<rparr>, Inr demo_first)"
    by (simp add: Router_TakeId_def Router_new_def main_venues_def kMaxSubscriptionsAllowed_def)
  then have "snd (Router_SubscribeAt demo_managers demo_input (Inl (L2Manager_new demo_adapter ())) kKraken demo_first
      demo_spec ((Router_new (main_venues demo_answer))\<lparr>next_counter := 2\<rparr>)) = Inr (Inr demo_first)"
    using demo_subscribes by (simp add: Router_Subscribe_steps)
  moreover have "snd (Router_SubscribeAt mgr e first venue i book r) = snd (Router_SubscribeAt mgr e first venue i book q)"
    if "managers r = managers q" for mgr :: "Id \<Rightarrow> (world venue_input, venue_state) Manager" and e first venue i book q
    using that by (simp add: Router_SubscribeAt_def split: option.split prod.split)
  ultimately show ?thesis using assms by (metis Router.select_convs(1) Router.update_convs(2) Router_new_def prod.collapse)
qed

theorem commands_agree_on_one_table_witness:
  "\<exists>r. map (\<lambda>l. (si_id (ls_subscription l), si_book (ls_subscription l))) (Router_List demo_managers r) =
     [(demo_first, demo_spec)]"
proof -
  let ?reach = "commands_reach demo_managers (main_moves demo_answer (\<lambda>_ _ _. 0)) (main_venues demo_answer)"
  let ?r = "Router_new (main_venues demo_answer)" and ?new = "Inl (L2Manager_new demo_adapter ())"
  let ?u = "\<lparr>uw_venue = kKraken, uw_id = demo_first, uw_book = demo_spec, uw_first = None\<rparr>"
    and ?v = "\<lparr>uw_venue = kCoinbase, uw_id = demo_second, uw_book = demo_spec, uw_first = None\<rparr>"
  have take: "Router_TakeId kRecord kKraken ?r = (?r\<lparr>next_counter := 2\<rparr>, Inr demo_first)"
    "Router_TakeId kLive kCoinbase (?r\<lparr>next_counter := 2\<rparr>) = (?r\<lparr>next_counter := 3\<rparr>, Inr demo_second)"
    by (simp_all add: Router_TakeId_def Router_new_def main_venues_def kMaxSubscriptionsAllowed_def kKraken_def kCoinbase_def)
  let ?s1 = "\<lparr>co_router = ?r\<lparr>next_counter := 2\<rparr>, co_calls = Suc 0, co_under_way = [?u], co_taken = [demo_first], co_done = []\<rparr>"
  let ?s2 = "\<lparr>co_router = ?r\<lparr>next_counter := 3\<rparr>, co_calls = Suc (Suc 0), co_under_way = [?v, ?u],
    co_taken = [demo_second, demo_first], co_done = []\<rparr>"
  let ?s3 = "?s2\<lparr>co_under_way := [?v, ?u\<lparr>uw_first := Some ?new\<rparr>]\<rparr>"
  have "?reach ?s1"
    using commands_more [OF commands_start step_take, of kRecord kKraken "main_venues demo_answer", of "?r\<lparr>next_counter := 2\<rparr>"
        demo_first demo_managers "main_moves demo_answer (\<lambda>_ _ _. 0)" demo_spec] take(1)
    by (simp add: commands_new_def)
  then have "?reach ?s2"
    using commands_more [OF _ step_take, of _ _ _ ?s1 kLive kCoinbase "?r\<lparr>next_counter := 3\<rparr>" demo_second demo_spec] take(2)
    by simp
  moreover have "command_step demo_managers (main_moves demo_answer (\<lambda>_ _ _. 0)) ?s2 ?s3"
    using step_first_lock [of ?s2 "[?v]" ?u "[]" ?new] by (simp add: Router_new_def main_venues_def)
  ultimately have s3: "?reach ?s3" by (rule commands_more)
  obtain r' where "Router_SubscribeAt demo_managers demo_input ?new kKraken demo_first demo_spec (?r\<lparr>next_counter := 3\<rparr>) =
      (r', Inr (Inr demo_first))"
    using demo_SubscribeAt [of "?r\<lparr>next_counter := 3\<rparr>"] by (auto simp: Router_new_def)
  then have "command_step demo_managers (main_moves demo_answer (\<lambda>_ _ _. 0)) ?s3
      (?s3\<lparr>co_router := r', co_under_way := [?v], co_done := [Did_Subscribe demo_first demo_spec (Inr (Inr demo_first))]\<rparr>)"
    using step_Subscribe [of ?s3 "[?v]" "?u\<lparr>uw_first := Some ?new\<rparr>" "[]" ?new] by simp
  from commands_agree_on_one_table [OF commands_more [OF s3 this]]
  have "(\<lambda>l. (si_id (ls_subscription l), si_book (ls_subscription l))) ` set (Router_List demo_managers r') = {(demo_first, demo_spec)}"
    "distinct (map (si_id \<circ> ls_subscription) (Router_List demo_managers r'))"
    by simp_all
  moreover from this have "distinct (Router_List demo_managers r')" by (simp add: distinct_map)
  ultimately show ?thesis
    by (intro exI [of _ r']) (cases "Router_List demo_managers r'" rule: remdups_adj.cases; force)
qed

end
