(* ===== verification/FrontendWire.thy ===== *)
theory FrontendWire
  imports VenueManager L2Book
begin

text \<open>
  frontend/wire.h and frontend/wire.cc: conversions to the messages of
  proto/market_data.proto. A protobuf message is a record of its fields and a
  \<^verbatim>\<open>oneof\<close> a datatype; an enum is the integer it is on the wire, which may be one no
  enumerator names. Protobuf's own encoding is a parameter: \<open>ser\<close> is
  \<^verbatim>\<open>SerializeAsString\<close> of a payload, and the record \<open>coded\<close> is \<^verbatim>\<open>CodedOutputStream\<close>.
\<close>

section \<open>The messages of market_data.proto\<close>

type_synonym enum = int

abbreviation VENUE_UNSPECIFIED :: enum where "VENUE_UNSPECIFIED \<equiv> 0"
abbreviation VENUE_KRAKEN :: enum where "VENUE_KRAKEN \<equiv> 1"
abbreviation VENUE_COINBASE :: enum where "VENUE_COINBASE \<equiv> 2"
abbreviation SINK_LIVE :: enum where "SINK_LIVE \<equiv> 1"
abbreviation SINK_RECORD :: enum where "SINK_RECORD \<equiv> 2"
abbreviation KIND_SNAPSHOT :: enum where "KIND_SNAPSHOT \<equiv> 1"
abbreviation KIND_DELTA :: enum where "KIND_DELTA \<equiv> 2"
abbreviation STATE_LIVE :: enum where "STATE_LIVE \<equiv> 2"
abbreviation STATE_DEGRADED :: enum where "STATE_DEGRADED \<equiv> 3"
abbreviation STATE_DISCONNECTED :: enum where "STATE_DISCONNECTED \<equiv> 4"
abbreviation CODE_UNSPECIFIED :: enum where "CODE_UNSPECIFIED \<equiv> 0"
abbreviation CODE_INVALID_COMMAND :: enum where "CODE_INVALID_COMMAND \<equiv> 1"
abbreviation CODE_INVALID_DEPTH :: enum where "CODE_INVALID_DEPTH \<equiv> 2"
abbreviation CODE_UNKNOWN_SYMBOL :: enum where "CODE_UNKNOWN_SYMBOL \<equiv> 3"
abbreviation CODE_UNKNOWN_ID :: enum where "CODE_UNKNOWN_ID \<equiv> 4"
abbreviation CODE_SINK_MISMATCH :: enum where "CODE_SINK_MISMATCH \<equiv> 5"
abbreviation CODE_SYMBOL_IN_USE :: enum where "CODE_SYMBOL_IN_USE \<equiv> 6"
abbreviation CODE_VENUE_FAILED :: enum where "CODE_VENUE_FAILED \<equiv> 7"
abbreviation CODE_IDS_EXHAUSTED :: enum where "CODE_IDS_EXHAUSTED \<equiv> 8"

record wire_StreamInfo =
  info_stream_id :: u64
  info_symbol :: string
  info_venue :: string
  info_depth :: u32
  info_price_decimals :: u32
  info_qty_decimals :: u32

record wire_Level =
  wl_price :: i64
  wl_quantity :: i64

record wire_Book =
  wb_stream_id :: u64
  wb_kind :: enum
  wb_bids :: "wire_Level list"
  wb_asks :: "wire_Level list"
  wb_checksum :: u32
  wb_venue_time_ns :: i64
  wb_capture_time_ns :: i64

record wire_FeedStatus =
  fs_state :: enum
  fs_detail :: string
  fs_healthy_stream_ids :: "u64 list"

record wire_CommandError =
  ce_code :: enum
  ce_detail :: string

record wire_Subscription =
  ws_id :: u64
  ws_venue :: enum
  ws_symbol :: string
  ws_depth :: u32
  ws_sink :: enum
  ws_start_time_ns :: i64

record wire_VenueInfo =
  vi_venue :: enum
  vi_name :: string
  vi_connected :: bool

datatype wire_result =
    RESULT_NOT_SET
  | kStartedId u64
  | kOk
  | kSubscriptions "wire_Subscription list"
  | kError wire_CommandError
  | kPairs "string list" "u32 list"
  | kVenues "wire_VenueInfo list"

record wire_CommandResult =
  cr_request_id :: u64
  cr_result :: wire_result

text \<open>The payloads of a \<^verbatim>\<open>MarketDataEvent\<close>, and their field numbers.\<close>

datatype wire_event =
    EvStreamInfo wire_StreamInfo
  | EvBook wire_Book
  | EvFeedStatus wire_FeedStatus
  | EvHeartbeat
  | EvResult wire_CommandResult

definition kSequenceFieldNumber :: int where "kSequenceFieldNumber = 1"
definition kSendTimeNsFieldNumber :: int where "kSendTimeNsFieldNumber = 2"
definition kBookFieldNumber :: int where "kBookFieldNumber = 4"

fun field_of :: "wire_event \<Rightarrow> int" where
  "field_of (EvStreamInfo _) = 3"
| "field_of (EvBook _) = kBookFieldNumber"
| "field_of (EvFeedStatus _) = 5"
| "field_of EvHeartbeat = 6"
| "field_of (EvResult _) = 7"

section \<open>The code\<close>

record Payload =
  field_number :: int
  pl_bytes :: "byte list"

definition kWireTypeVarint :: u32 where "kWireTypeVarint = 0"
definition kWireTypeFixed64 :: u32 where "kWireTypeFixed64 = 1"
definition kWireTypeLengthDelimited :: u32 where "kWireTypeLengthDelimited = 2"

definition Tag :: "int \<Rightarrow> u32 \<Rightarrow> u32" where
  "Tag number wire_type = push_bit 3 (of_int number) OR wire_type"

definition MakePayload :: "(wire_event \<Rightarrow> byte list) \<Rightarrow> wire_event \<Rightarrow> Payload" where
  "MakePayload ser ev = \<lparr>field_number = field_of ev, pl_bytes = ser ev\<rparr>"

definition ToWire_Code :: "Code \<Rightarrow> enum" where
  "ToWire_Code c =
     (case c of
        kUnknownVenue \<Rightarrow> CODE_INVALID_COMMAND
      | kInvalidDepth \<Rightarrow> CODE_INVALID_DEPTH
      | kUnknownSymbol \<Rightarrow> CODE_UNKNOWN_SYMBOL
      | kUnknownId \<Rightarrow> CODE_UNKNOWN_ID
      | kSymbolInUse \<Rightarrow> CODE_SYMBOL_IN_USE
      | kVenueFailed \<Rightarrow> CODE_VENUE_FAILED
      | kIdsExhausted \<Rightarrow> CODE_IDS_EXHAUSTED)"

definition MakeStreamInfo :: "SubscriptionId \<Rightarrow> string \<Rightarrow> BookSpec \<Rightarrow> PairPrecision \<Rightarrow> wire_StreamInfo" where
  "MakeStreamInfo i venue book precision =
     \<lparr>info_stream_id = i, info_symbol = bs_symbol book, info_venue = venue, info_depth = bs_depth book,
      info_price_decimals = price_decimals precision, info_qty_decimals = qty_decimals precision\<rparr>"

definition AppendLevels :: "'a list \<Rightarrow> ('a \<Rightarrow> i64 \<times> i64) \<Rightarrow> wire_Level list \<Rightarrow> wire_Level list" where
  "AppendLevels levels price_and_quantity out =
     out @ map (\<lambda>level. \<lparr>wl_price = fst (price_and_quantity level), wl_quantity = snd (price_and_quantity level)\<rparr>) levels"

definition MakeBook :: "SubscriptionId \<Rightarrow> Message \<Rightarrow> wire_Book" where
  "MakeBook i message =
     \<lparr>wb_stream_id = i,
      wb_kind = (if msg_type message = kSnapshot then KIND_SNAPSHOT else KIND_DELTA),
      wb_bids = AppendLevels (buys message) (\<lambda>level. (price level, quantity level)) [],
      wb_asks = AppendLevels (sells message) (\<lambda>level. (price level, quantity level)) [],
      wb_checksum = checksum message,
      wb_venue_time_ns = venue_time_ns message,
      wb_capture_time_ns = capture_time_ns message\<rparr>"

text \<open>What \<^verbatim>\<open>CodedOutputStream\<close> writes for its operands.\<close>

record coded =
  WriteVarint64 :: "u64 \<Rightarrow> byte list"
  WriteVarint32 :: "u32 \<Rightarrow> byte list"
  WriteLittleEndian64 :: "u64 \<Rightarrow> byte list"

definition FrameHeader :: "coded \<Rightarrow> u64 \<Rightarrow> i64 \<Rightarrow> Payload \<Rightarrow> byte list" where
  "FrameHeader out sequence send_time_ns payload =
     WriteVarint32 out (Tag kSequenceFieldNumber kWireTypeVarint) @
     WriteVarint64 out sequence @
     WriteVarint32 out (Tag kSendTimeNsFieldNumber kWireTypeFixed64) @
     WriteLittleEndian64 out (of_int send_time_ns) @
     WriteVarint32 out (Tag (field_number payload) kWireTypeLengthDelimited) @
     WriteVarint32 out (of_nat (length (pl_bytes payload)))"

definition Frame :: "coded \<Rightarrow> u64 \<Rightarrow> i64 \<Rightarrow> Payload \<Rightarrow> byte list" where
  "Frame out sequence send_time_ns payload = FrameHeader out sequence send_time_ns payload @ pl_bytes payload"

definition MakeCommandError :: "Error \<Rightarrow> wire_CommandError" where
  "MakeCommandError e = \<lparr>ce_code = ToWire_Code (code e), ce_detail = detail e\<rparr>"

definition ToWire_Sink :: "Sink \<Rightarrow> enum" where
  "ToWire_Sink sink = (if sink = kRecord then SINK_RECORD else SINK_LIVE)"

definition ToWire_Id :: "Id \<Rightarrow> enum" where
  "ToWire_Id venue =
     (if venue = kKraken then VENUE_KRAKEN else if venue = kCoinbase then VENUE_COINBASE else VENUE_UNSPECIFIED)"

definition FromWire_Sink :: "enum \<Rightarrow> Sink option" where
  "FromWire_Sink sink = (if sink = SINK_LIVE then Some kLive else if sink = SINK_RECORD then Some kRecord else None)"

definition FromWire_Id :: "enum \<Rightarrow> Id option" where
  "FromWire_Id venue =
     (if venue = VENUE_KRAKEN then Some kKraken else if venue = VENUE_COINBASE then Some kCoinbase else None)"

section \<open>Reading a frame\<close>

text \<open>
  What a client's protobuf makes of a frame: the three fields of an envelope, in the
  order the header writes them, with the tags of protobuf's encoding: the field number
  times eight and the wire type, 0 of a varint, 1 of eight bytes, 2 of bytes behind their
  length. The readers of its integers are parameters too.
\<close>

record frame =
  fr_sequence :: u64
  fr_send_time_ns :: i64
  fr_field :: u32
  fr_bytes :: "byte list"

record reader =
  read_varint :: "byte list \<Rightarrow> (u64 \<times> byte list) option"
  read_fixed64 :: "byte list \<Rightarrow> (u64 \<times> byte list) option"

definition read_tag :: "reader \<Rightarrow> (u32 \<Rightarrow> bool) \<Rightarrow> byte list \<Rightarrow> (u32 \<times> byte list) option" where
  "read_tag rd ok bs =
     (case read_varint rd bs of None \<Rightarrow> None
      | Some (t, bs) \<Rightarrow> if ok (ucast t) then Some (ucast t, bs) else None)"

definition read_frame :: "reader \<Rightarrow> byte list \<Rightarrow> frame option" where
  "read_frame rd bs =
     (case read_tag rd ((=) (1 * 8 + 0)) bs of None \<Rightarrow> None | Some (_, bs) \<Rightarrow>
     (case read_varint rd bs of None \<Rightarrow> None | Some (sequence, bs) \<Rightarrow>
     (case read_tag rd ((=) (2 * 8 + 1)) bs of None \<Rightarrow> None | Some (_, bs) \<Rightarrow>
     (case read_fixed64 rd bs of None \<Rightarrow> None | Some (time, bs) \<Rightarrow>
     (case read_tag rd (\<lambda>t. t AND 7 = 2) bs of None \<Rightarrow> None | Some (t, bs) \<Rightarrow>
     (case read_varint rd bs of None \<Rightarrow> None | Some (n, bs) \<Rightarrow>
        if length bs = unat n
        then Some \<lparr>fr_sequence = sequence, fr_send_time_ns = sint time, fr_field = drop_bit 3 t, fr_bytes = bs\<rparr>
        else None))))))"

text \<open>The law of the two: what is written is read back, whatever follows.\<close>

lemma tag_kept [simp]: "ucast (ucast (t :: u32) :: u64) = t"
  by (rule bit_word_eqI) (simp add: bit_simps)

lemma unat_widened: "unat (ucast (w :: u32) :: u64) = unat w"
proof -
  have "unat w < 2 ^ LENGTH(32)" by (rule unsigned_less)
  then have "unat w < 2 ^ 64" by simp
  then show ?thesis by (simp add: unsigned_ucast_eq take_bit_nat_eq_self)
qed

lemma field_of_tag:
  assumes "0 \<le> n" "n < 2 ^ 29"
  shows "drop_bit 3 (Tag n kWireTypeLengthDelimited) = of_int n"
proof (rule bit_word_eqI)
  fix k :: nat
  assume "k < LENGTH(32)"
  have "take_bit 29 n = n" using assms by (simp add: take_bit_int_eq_self)
  then have "\<not> bit n k" if "29 \<le> k" using that by (metis bit_take_bit_iff not_le)
  moreover have "\<not> bit (2 :: u32) (3 + k)" by (simp add: bit_simps numeral_eq_Suc)
  ultimately show "bit (drop_bit 3 (Tag n kWireTypeLengthDelimited)) k = bit (of_int n :: u32) k"
    using \<open>k < LENGTH(32)\<close> by (cases "29 \<le> k") (auto simp: Tag_def kWireTypeLengthDelimited_def bit_simps)
qed

locale coded_stream =
  fixes out :: coded and rd :: reader
  assumes varint64: "read_varint rd (WriteVarint64 out v @ rest) = Some (v, rest)"
    and varint32: "read_varint rd (WriteVarint32 out w @ rest) = Some (ucast w, rest)"
    and fixed64: "read_fixed64 rd (WriteLittleEndian64 out v @ rest) = Some (v, rest)"
begin

lemma read_tag_written: "ok t \<Longrightarrow> read_tag rd ok (WriteVarint32 out t @ rest) = Some (t, rest)"
  by (simp add: read_tag_def varint32 tag_kept)

lemma read_frame_written:
  assumes "0 \<le> field_number payload" "field_number payload < 2 ^ 29" "length (pl_bytes payload) < 2 ^ 32"
    and "in_i64 send_time_ns"
  shows "read_frame rd (Frame out sequence send_time_ns payload) =
    Some \<lparr>fr_sequence = sequence, fr_send_time_ns = send_time_ns, fr_field = of_int (field_number payload),
      fr_bytes = pl_bytes payload\<rparr>"
proof -
  have "sint (of_int send_time_ns :: u64) = send_time_ns"
    using assms(4) by (simp add: in_i64_def i64_min_def i64_max_def signed_of_int signed_take_bit_int_eq_self)
  moreover have "unat (ucast (of_nat (length (pl_bytes payload)) :: u32) :: u64) = length (pl_bytes payload)"
    using assms(3) by (simp add: unat_widened unat_of_nat)
  moreover have "Tag (field_number payload) kWireTypeLengthDelimited AND 7 = 2"
  proof -
    have seven: "(7 :: u32) = mask 3" by (simp add: mask_eq_exp_minus_1)
    show ?thesis
      unfolding seven by (rule bit_word_eqI) (auto simp: Tag_def kWireTypeLengthDelimited_def bit_simps bit_2_iff)
  qed
  moreover have "drop_bit 3 (Tag (field_number payload) kWireTypeLengthDelimited) = of_int (field_number payload)"
    using assms(1,2) by (rule field_of_tag)
  moreover have "Tag kSequenceFieldNumber kWireTypeVarint = 1 * 8 + 0" "Tag kSendTimeNsFieldNumber kWireTypeFixed64 = 2 * 8 + 1"
    by (simp_all add: Tag_def kSequenceFieldNumber_def kSendTimeNsFieldNumber_def kWireTypeVarint_def kWireTypeFixed64_def)
  ultimately show ?thesis
    by (simp add: Frame_def FrameHeader_def read_frame_def read_tag_written varint64 varint32 fixed64)
qed

end

text \<open>The encoding protobuf documents: seven bits a byte, and eight bytes, the lowest first.\<close>

fun varint :: "nat \<Rightarrow> byte list" where
  "varint v = (if v < 128 then [of_nat v] else of_nat (v mod 128 + 128) # varint (v div 128))"

declare varint.simps [simp del]

fun varint_value :: "byte list \<Rightarrow> (nat \<times> byte list) option" where
  "varint_value [] = None"
| "varint_value (b # bs) =
     (if unat b < 128 then Some (unat b, bs)
      else map_option (\<lambda>(v, rest). (unat b - 128 + 128 * v, rest)) (varint_value bs))"

lemma varint_value_written: "varint_value (varint v @ rest) = Some (v, rest)"
proof (induction v rule: varint.induct)
  case (1 v)
  have byte: "unat (of_nat n :: byte) = n" if "n < 256" for n
    using that by (simp add: unat_of_nat)
  show ?case
    using 1 byte [of v] byte [of "v mod 128 + 128"]
    by (cases "v < 128") (simp_all add: varint.simps [of v] del: of_nat_add)
qed

definition proto_coded :: coded where
  "proto_coded = \<lparr>WriteVarint64 = \<lambda>v. varint (unat v), WriteVarint32 = \<lambda>v. varint (unat v),
     WriteLittleEndian64 = \<lambda>v. le_bytes 8 (unat v)\<rparr>"

definition proto_reader :: reader where
  "proto_reader = \<lparr>read_varint = \<lambda>bs. map_option (map_prod of_nat id) (varint_value bs),
     read_fixed64 = \<lambda>bs. if length bs < 8 then None else Some (of_nat (le_value (take 8 bs)), drop 8 bs)\<rparr>"

interpretation proto: coded_stream proto_coded proto_reader
proof
  fix v :: u64 and w :: u32 and rest
  show "read_varint proto_reader (WriteVarint64 proto_coded v @ rest) = Some (v, rest)"
    by (simp add: proto_coded_def proto_reader_def varint_value_written)
  show "read_varint proto_reader (WriteVarint32 proto_coded w @ rest) = Some (ucast w, rest)"
    by (simp add: proto_coded_def proto_reader_def varint_value_written)
  have "unat v < 2 ^ LENGTH(64)" by (rule unsigned_less)
  then show "read_fixed64 proto_reader (WriteLittleEndian64 proto_coded v @ rest) = Some (v, rest)"
    by (simp add: proto_coded_def proto_reader_def le_value_bytes)
qed

section \<open>Lemmas\<close>

lemma FromWire_ToWire [simp]:
  "FromWire_Id (ToWire_Id kKraken) = Some kKraken" "FromWire_Id (ToWire_Id kCoinbase) = Some kCoinbase"
  "FromWire_Sink (ToWire_Sink kLive) = Some kLive" "FromWire_Sink (ToWire_Sink kRecord) = Some kRecord"
  by (simp_all add: FromWire_Id_def ToWire_Id_def FromWire_Sink_def ToWire_Sink_def kKraken_def kCoinbase_def
      kLive_def kRecord_def)

lemma FromWire_named: "FromWire_Id e = Some v \<Longrightarrow> v \<in> {kKraken, kCoinbase} \<and> ToWire_Id v = e"
  "FromWire_Sink e = Some s \<Longrightarrow> s \<in> {kLive, kRecord} \<and> ToWire_Sink s = e"
  by (auto simp: FromWire_Id_def ToWire_Id_def FromWire_Sink_def ToWire_Sink_def kKraken_def kCoinbase_def
      kLive_def kRecord_def split: if_splits)

lemma ToWire_Code_named: "ToWire_Code c \<noteq> CODE_UNSPECIFIED"
  by (simp add: ToWire_Code_def split: Code.split)

lemma AppendLevels_simps [simp]:
  "AppendLevels [] f out = out"
  "AppendLevels (l # ls) f out = AppendLevels ls f (out @ [\<lparr>wl_price = fst (f l), wl_quantity = snd (f l)\<rparr>])"
  by (simp_all add: AppendLevels_def)

section \<open>Properties\<close>

text \<open>
  C34. For any encoding of protobuf's integers that can be read back, a client reads
  every frame as the sequence number, send time, field number and bytes it was made
  from: the payload goes out as it is, right behind a header that says where it ends.
\<close>

theorem frame_round_trip:
  assumes "\<And>v rest. read_varint rd (WriteVarint64 out v @ rest) = Some (v, rest)"
    and "\<And>v rest. read_varint rd (WriteVarint32 out v @ rest) = Some (ucast v, rest)"
    and "\<And>v rest. read_fixed64 rd (WriteLittleEndian64 out v @ rest) = Some (v, rest)"
    and "payload = MakePayload ser ev" and "length (ser ev) < 2 ^ 32" and "in_i64 send_time_ns"
  shows "read_frame rd (Frame out sequence send_time_ns payload) =
      Some \<lparr>fr_sequence = sequence, fr_send_time_ns = send_time_ns, fr_field = of_int (field_of ev), fr_bytes = ser ev\<rparr> \<and>
    Frame out sequence send_time_ns payload = FrameHeader out sequence send_time_ns payload @ ser ev"
proof -
  have "coded_stream out rd" by unfold_locales (rule assms(1-3))+
  moreover have "0 \<le> field_of ev" "field_of ev < 2 ^ 29" by (cases ev; simp add: kBookFieldNumber_def)+
  ultimately show ?thesis
    using coded_stream.read_frame_written [of out rd payload send_time_ns sequence] assms(4-6)
    by (simp add: MakePayload_def Frame_def)
qed

theorem frame_round_trip_witness:
  "read_frame proto_reader (Frame proto_coded 300 (- 5) (MakePayload (\<lambda>_. [8, 3]) EvHeartbeat)) =
     Some \<lparr>fr_sequence = 300, fr_send_time_ns = - 5, fr_field = 6, fr_bytes = [8, 3]\<rparr>"
  using conjunct1 [OF frame_round_trip [OF proto.varint64 proto.varint32 proto.fixed64 refl,
      of "\<lambda>_. [8, 3]" EvHeartbeat "- 5" 300]]
  by (simp add: i64_range)

end
