(* ===== verification/FrontendStream.thy ===== *)
theory FrontendStream
  imports FrontendWire VenueL2Parser
begin

text \<open>
  frontend/stream.h and frontend/stream.cc: the book of one live subscription and the
  clients watching it. A watcher is a number, and an operation answers with what it
  sends, in order; \<open>ser\<close> is protobuf's serialization of a payload.
\<close>

section \<open>The code\<close>

type_synonym watcher = nat
type_synonym sends = "(watcher \<times> Payload) list"

record Stream =
  st_id :: SubscriptionId
  stream_info :: Payload
  disconnected :: Payload
  resubscribed :: Payload
  live :: Payload
  st_book :: Book
  gap_status :: "Payload option"
  has_snapshot :: bool
  interrupted :: bool
  st_checksum :: u32
  st_venue_time_ns :: i64
  st_capture_time_ns :: i64
  watchers :: "watcher list"

definition MakeFeedStatus :: "enum \<Rightarrow> string \<Rightarrow> SubscriptionId list \<Rightarrow> wire_FeedStatus" where
  "MakeFeedStatus state d healthy_ids =
     \<lparr>fs_state = state, fs_detail = d, fs_healthy_stream_ids = healthy_ids\<rparr>"

definition Stream_new ::
    "(wire_event \<Rightarrow> byte list) \<Rightarrow> SubscriptionId \<Rightarrow> string \<Rightarrow> BookSpec \<Rightarrow> PairPrecision \<Rightarrow> Stream" where
  "Stream_new ser i venue book precision =
     \<lparr>st_id = i,
      stream_info = MakePayload ser (EvStreamInfo (MakeStreamInfo i venue book precision)),
      disconnected = MakePayload ser (EvFeedStatus (MakeFeedStatus STATE_DISCONNECTED
        (''Lost the connection to '' @ venue @ ''; '' @ bs_symbol book @ '' resumes with a snapshot once it is back'') [])),
      resubscribed = MakePayload ser (EvFeedStatus (MakeFeedStatus STATE_DEGRADED
        (bs_symbol book @ '' stopped matching '' @ venue @ CHR 0x27 # ''s checksum; it resumes with a fresh snapshot'') [])),
      live = MakePayload ser (EvFeedStatus (MakeFeedStatus STATE_LIVE (bs_symbol book @ '' is back'') [i])),
      st_book = Book_of_depth (bs_depth book), gap_status = None, has_snapshot = False, interrupted = False,
      st_checksum = 0, st_venue_time_ns = 0, st_capture_time_ns = 0, watchers = []\<rparr>"

definition Stream_SendLocked :: "Stream \<Rightarrow> Payload \<Rightarrow> sends" where
  "Stream_SendLocked s payload = map (\<lambda>w. (w, payload)) (watchers s)"

definition Stream_SnapshotLocked :: "Stream \<Rightarrow> wire_Book" where
  "Stream_SnapshotLocked s =
     \<lparr>wb_stream_id = st_id s, wb_kind = KIND_SNAPSHOT,
      wb_bids = AppendLevels (bk_bids (st_book s)) id [],
      wb_asks = AppendLevels (bk_asks (st_book s)) id [],
      wb_checksum = st_checksum s, wb_venue_time_ns = st_venue_time_ns s,
      wb_capture_time_ns = st_capture_time_ns s\<rparr>"

definition Stream_Receive :: "(wire_event \<Rightarrow> byte list) \<Rightarrow> Message \<Rightarrow> Stream \<Rightarrow> Stream \<times> sends" where
  "Stream_Receive ser message s =
     (let (s, back) = (if msg_type message = kSnapshot
            then (s\<lparr>has_snapshot := True, interrupted := False\<rparr>,
                  if interrupted s then Stream_SendLocked s (live s) else [])
            else (s, []));
          s = s\<lparr>st_book := Book_Apply message (st_book s), st_checksum := checksum message,
                st_venue_time_ns := venue_time_ns message, st_capture_time_ns := capture_time_ns message\<rparr>
      in (s, back @ (if watchers s \<noteq> []
            then Stream_SendLocked s (MakePayload ser (EvBook (MakeBook (st_id s) message))) else [])))"

definition Stream_Interrupt :: "Gap \<Rightarrow> Stream \<Rightarrow> Stream \<times> sends" where
  "Stream_Interrupt gap s =
     (let status = (if gap = kResubscribing then resubscribed s else disconnected s);
          s = s\<lparr>st_book := Book_Clear (st_book s), has_snapshot := False, interrupted := True,
                gap_status := Some status\<rparr>
      in (s, Stream_SendLocked s status))"

definition Stream_Watch :: "(wire_event \<Rightarrow> byte list) \<Rightarrow> watcher \<Rightarrow> Stream \<Rightarrow> Stream \<times> sends" where
  "Stream_Watch ser w s =
     (let others = removeAll w (watchers s)
      in (s\<lparr>watchers := others @ [w]\<rparr>,
          (w, stream_info s) #
          (if interrupted s then (case gap_status s of None \<Rightarrow> [] | Some status \<Rightarrow> [(w, status)])
           else if has_snapshot s then [(w, MakePayload ser (EvBook (Stream_SnapshotLocked s)))] else [])))"

definition Stream_Unwatch :: "watcher \<Rightarrow> Stream \<Rightarrow> Stream" where
  "Stream_Unwatch w s = s\<lparr>watchers := removeAll w (watchers s)\<rparr>"

section \<open>A client\<close>

text \<open>What market_data.proto tells a client to do with what it gets: the book it has, if any.\<close>

definition message_of :: "wire_Book \<Rightarrow> Message" where
  "message_of b =
     \<lparr>msg_type = (if wb_kind b = KIND_SNAPSHOT then kSnapshot else kUpdate), checksum = wb_checksum b,
      venue_time_ns = wb_venue_time_ns b, capture_time_ns = wb_capture_time_ns b, msg_symbol = [],
      buys = map (\<lambda>l. \<lparr>price = wl_price l, quantity = wl_quantity l\<rparr>) (wb_bids b),
      sells = map (\<lambda>l. \<lparr>price = wl_price l, quantity = wl_quantity l\<rparr>) (wb_asks b)\<rparr>"

fun client_step :: "wire_event \<Rightarrow> u32 \<times> Book option \<Rightarrow> u32 \<times> Book option" where
  "client_step (EvStreamInfo info) (d, b) = (info_depth info, None)"
| "client_step (EvBook book) (d, b) =
     (d, if wb_kind book = KIND_SNAPSHOT then Some (Book_Apply (message_of book) (Book_of_depth d))
         else map_option (Book_Apply (message_of book)) b)"
| "client_step (EvFeedStatus status) (d, b) = (d, if fs_state status = STATE_LIVE then b else None)"
| "client_step _ (d, b) = (d, b)"

definition client :: "wire_event list \<Rightarrow> u32 \<times> Book option" where
  "client evs = fold client_step evs (0, None)"

lemma client_snoc [simp]: "client (evs @ [ev]) = client_step ev (client evs)"
  by (simp add: client_def)

section \<open>Runs of a stream\<close>

datatype stream_event = SReceive Message | SInterrupt Gap | SWatch watcher | SUnwatch watcher

fun stream_step :: "(wire_event \<Rightarrow> byte list) \<Rightarrow> stream_event \<Rightarrow> Stream \<Rightarrow> Stream \<times> sends" where
  "stream_step ser (SReceive m) s = Stream_Receive ser m s"
| "stream_step ser (SInterrupt g) s = Stream_Interrupt g s"
| "stream_step ser (SWatch w) s = Stream_Watch ser w s"
| "stream_step ser (SUnwatch w) s = (Stream_Unwatch w s, [])"

definition stream_run :: "(wire_event \<Rightarrow> byte list) \<Rightarrow> stream_event list \<Rightarrow> Stream \<Rightarrow> Stream \<times> sends" where
  "stream_run ser es s =
     fold (\<lambda>e (s, out). case stream_step ser e s of (s, new) \<Rightarrow> (s, out @ new)) es (s, [])"

definition sent_to :: "watcher \<Rightarrow> sends \<Rightarrow> Payload list" where
  "sent_to w out = map snd (filter (\<lambda>(v, _). v = w) out)"

text \<open>The messages since the last gap; whether a watcher is watching.\<close>

definition current :: "stream_event list \<Rightarrow> Message list" where
  "current es = fold (\<lambda>e ms. case e of SReceive m \<Rightarrow> ms @ [m] | SInterrupt g \<Rightarrow> [] | _ \<Rightarrow> ms) es []"

definition watching :: "watcher \<Rightarrow> stream_event list \<Rightarrow> bool" where
  "watching w es =
     fold (\<lambda>e on. case e of SWatch v \<Rightarrow> on \<or> v = w | SUnwatch v \<Rightarrow> on \<and> v \<noteq> w | _ \<Rightarrow> on) es False"

text \<open>What a receiver is promised: after a gap, and at first, the next message is a snapshot.\<close>

fun gated_from :: "bool \<Rightarrow> stream_event list \<Rightarrow> bool" where
  "gated_from has [] = True"
| "gated_from has (SReceive m # es) = ((has \<or> msg_type m = kSnapshot) \<and> gated_from True es)"
| "gated_from has (SInterrupt g # es) = gated_from False es"
| "gated_from has (e # es) = gated_from has es"

definition gated :: "stream_event list \<Rightarrow> bool" where
  "gated es = gated_from False es"

lemma run_snoc:
  "stream_run ser (es @ [e]) s =
     (case stream_run ser es s of (s, out) \<Rightarrow> case stream_step ser e s of (s, new) \<Rightarrow> (s, out @ new))"
  by (simp add: stream_run_def)

lemma stream_snoc [simp]:
  "current (es @ [e]) = (case e of SReceive m \<Rightarrow> current es @ [m] | SInterrupt g \<Rightarrow> [] | _ \<Rightarrow> current es)"
  "watching w (es @ [e]) =
     (case e of SWatch v \<Rightarrow> watching w es \<or> v = w | SUnwatch v \<Rightarrow> watching w es \<and> v \<noteq> w | _ \<Rightarrow> watching w es)"
  by (simp_all add: current_def watching_def split: stream_event.split)

lemma gated_from_snoc:
  "gated_from (ms \<noteq> []) (es @ [e]) \<longleftrightarrow> gated_from (ms \<noteq> []) es \<and>
     (\<forall>m. e = SReceive m \<longrightarrow>
        fold (\<lambda>e ms. case e of SReceive m \<Rightarrow> ms @ [m] | SInterrupt g \<Rightarrow> [] | _ \<Rightarrow> ms) es ms = [] \<longrightarrow> msg_type m = kSnapshot)"
proof (induction es arbitrary: ms)
  case Nil
  then show ?case by (cases e) auto
next
  case (Cons x es)
  show ?case using Cons.IH [of "case x of SReceive m \<Rightarrow> ms @ [m] | SInterrupt g \<Rightarrow> [] | _ \<Rightarrow> ms"]
    by (cases x) auto
qed

lemma gated_snoc: "gated (es @ [e]) \<longleftrightarrow> gated es \<and> (\<forall>m. e = SReceive m \<longrightarrow> current es = [] \<longrightarrow> msg_type m = kSnapshot)"
  using gated_from_snoc [of "[]" es e] by (simp add: gated_def current_def)

lemma sent_to_simps [simp]:
  "sent_to w [] = []" "sent_to w (out @ out') = sent_to w out @ sent_to w out'"
  "sent_to w ((v, p) # out) = (if v = w then p # sent_to w out else sent_to w out)"
  by (simp_all add: sent_to_def)

lemma sent_to_all:
  "distinct (watchers s) \<Longrightarrow> sent_to w (Stream_SendLocked s p) = (if w \<in> set (watchers s) then [p] else [])"
proof -
  have "distinct ws \<Longrightarrow> sent_to w (map (\<lambda>w. (w, p)) ws) = (if w \<in> set ws then [p] else [])" for ws
    by (induction ws) auto
  then show "distinct (watchers s) \<Longrightarrow> sent_to w (Stream_SendLocked s p) = (if w \<in> set (watchers s) then [p] else [])"
    by (simp add: Stream_SendLocked_def)
qed

section \<open>Snapshots\<close>

context side_order
begin

lemma insert_last:
  "ordered lt side \<Longrightarrow> \<forall>x \<in> set side. lt (fst x) p \<Longrightarrow> insert_or_assign lt p q side = side @ [(p, q)]"
proof (induction side)
  case (Cons x side)
  then show ?case using asym by (cases x) auto
qed simp

lemma loop_levels:
  "ordered lt (done @ side) \<Longrightarrow> \<forall>(p, q) \<in> set side. q \<noteq> 0 \<Longrightarrow>
     apply_level_loop lt (map (\<lambda>(p, q). \<lparr>price = p, quantity = q\<rparr>) side) done = done @ side"
proof (induction side arbitrary: "done")
  case (Cons x side)
  obtain p q where x: "x = (p, q)" by fastforce
  have "ordered lt done" "\<forall>y \<in> set done. lt (fst y) p"
    using Cons.prems(1) by (auto simp: x ordered_def sorted_wrt_append)
  then have "insert_or_assign lt p q done = done @ [(p, q)]" by (rule insert_last)
  then show ?case using Cons.IH [of "done @ [(p, q)]"] Cons.prems by (simp add: x)
qed simp

lemma side_from_levels:
  "side_ok lt depth side \<Longrightarrow> ApplyLevels lt (map (\<lambda>(p, q). \<lparr>price = p, quantity = q\<rparr>) side) depth [] = side"
  using loop_levels [of "[]" side] by (auto simp: side_ok_def ApplyLevels_eq)

end

text \<open>A client that applies the snapshot of a book has the book.\<close>

lemma levels_of_wire:
  "map (\<lambda>l. \<lparr>price = wl_price l, quantity = wl_quantity l\<rparr>) (AppendLevels side id []) =
     map (\<lambda>(p, q). \<lparr>price = p, quantity = q\<rparr>) side"
  "map (\<lambda>l. \<lparr>price = wl_price l, quantity = wl_quantity l\<rparr>) (AppendLevels ls (\<lambda>l. (price l, quantity l)) []) = ls"
  by (auto simp: AppendLevels_def intro!: map_idI Level.equality)

lemma snapshot_gives_book:
  assumes "Book_ok (st_book s)"
  shows "Book_Apply (message_of (Stream_SnapshotLocked s)) (Book_of_depth (bk_depth (st_book s))) = st_book s"
  using assms
  by (intro Book.equality)
    (simp_all add: message_of_def Stream_SnapshotLocked_def levels_of_wire Book_ok_def bids.side_from_levels
      asks.side_from_levels)

lemma message_of_MakeBook:
  "Book_Apply (message_of (MakeBook i m)) b = Book_Apply m b"
  "wb_kind (MakeBook i m) = KIND_SNAPSHOT \<longleftrightarrow> msg_type m = kSnapshot"
  by (cases "msg_type m"; simp add: Book_Apply_def message_of_def MakeBook_def levels_of_wire Let_def)+

section \<open>What a watcher is sent\<close>

text \<open>
  The invariant of a run: the book is the one the current messages leave, and what a
  watcher has been sent leaves its client with that book, or with none if there is none.
\<close>

definition book_now :: "u32 \<Rightarrow> Message list \<Rightarrow> Book option" where
  "book_now d ms = (if ms = [] then None else Some (replay d ms))"

definition stream_ok :: "(wire_event \<Rightarrow> byte list) \<Rightarrow> u32 \<Rightarrow> stream_event list \<Rightarrow> Stream \<times> sends \<Rightarrow> bool" where
  "stream_ok ser d es st \<longleftrightarrow>
     (\<exists>info. stream_info (fst st) = MakePayload ser (EvStreamInfo info) \<and> info_depth info = d) \<and>
     (\<exists>l. live (fst st) = MakePayload ser (EvFeedStatus l) \<and> fs_state l = STATE_LIVE) \<and>
     (\<forall>p \<in> {disconnected (fst st), resubscribed (fst st)} \<union> set_option (gap_status (fst st)).
        \<exists>l. p = MakePayload ser (EvFeedStatus l) \<and> fs_state l \<noteq> STATE_LIVE) \<and>
     distinct (watchers (fst st)) \<and> (\<forall>w. w \<in> set (watchers (fst st)) \<longleftrightarrow> watching w es) \<and>
     st_book (fst st) = replay d (current es) \<and> (has_snapshot (fst st) \<longleftrightarrow> current es \<noteq> []) \<and>
     (interrupted (fst st) \<longrightarrow> current es = [] \<and> gap_status (fst st) \<noteq> None) \<and>
     (\<forall>w. \<exists>evs. sent_to w (snd st) = map (MakePayload ser) evs \<and>
        (watching w es \<longrightarrow> client evs = (d, book_now d (current es))))"

text \<open>A step sends \<open>evs'\<close> to a watcher, which take its client from \<open>c\<close> to \<open>c'\<close>.\<close>

lemma sent_more:
  assumes "\<exists>evs. sent_to w out = map (MakePayload ser) evs \<and> (on \<longrightarrow> client evs = c)"
    and "sent_to w new = map (MakePayload ser) evs'"
    and "on' \<longrightarrow> (on \<and> fold client_step evs' c = c') \<or> (\<forall>c. fold client_step evs' c = c')"
  shows "\<exists>evs. sent_to w (out @ new) = map (MakePayload ser) evs \<and> (on' \<longrightarrow> client evs = c')"
proof -
  obtain evs where "sent_to w out = map (MakePayload ser) evs" "on \<longrightarrow> client evs = c" using assms(1) by blast
  moreover have "client (evs @ evs') = fold client_step evs' (client evs)" by (simp add: client_def)
  ultimately show ?thesis using assms(2,3) by (intro exI [of _ "evs @ evs'"]) (metis map_append sent_to_simps(2))
qed

lemma replay_more [simp]: "replay d (ms @ [m]) = Book_Apply m (replay d ms)" "replay d [] = Book_of_depth d"
  by (simp_all add: replay_def)

lemma depth_of_replay [simp]: "bk_depth (replay d ms) = d"
  by (simp add: replay_def)

lemma client_takes_book:
  assumes "ms = [] \<longrightarrow> msg_type m = kSnapshot"
  shows "client_step (EvBook (MakeBook i m)) (d, book_now d ms) = (d, book_now d (ms @ [m]))"
  using assms snapshot_forgets [of m "replay d ms"] by (auto simp: book_now_def message_of_MakeBook)

lemma Receive_stream_ok:
  assumes ok: "stream_ok ser d es (s, out)" and first: "current es = [] \<longrightarrow> msg_type m = kSnapshot"
    and step: "Stream_Receive ser m s = (s', new)"
  shows "stream_ok ser d (es @ [SReceive m]) (s', out @ new)"
proof -
  let ?resumed = "msg_type m = kSnapshot \<and> interrupted s"
  obtain l where l: "live s = MakePayload ser (EvFeedStatus l)" "fs_state l = STATE_LIVE"
    using ok by (auto simp: stream_ok_def)
  have s': "stream_info s' = stream_info s" "live s' = live s" "disconnected s' = disconnected s"
    "resubscribed s' = resubscribed s" "gap_status s' = gap_status s" "watchers s' = watchers s"
    "st_book s' = Book_Apply m (st_book s)" "has_snapshot s' \<longleftrightarrow> msg_type m = kSnapshot \<or> has_snapshot s"
    "interrupted s' \<longleftrightarrow> msg_type m \<noteq> kSnapshot \<and> interrupted s"
    using step by (auto simp: Stream_Receive_def Let_def split: if_splits)
  let ?evs = "\<lambda>w. if w \<in> set (watchers s)
    then (if ?resumed then [EvFeedStatus l] else []) @ [EvBook (MakeBook (st_id s) m)] else []"
  have new: "sent_to w new = map (MakePayload ser) (?evs w)" for w
    using step ok by (auto simp: Stream_Receive_def Let_def sent_to_all stream_ok_def l split: if_splits)
  have "\<exists>evs. sent_to w (out @ new) = map (MakePayload ser) evs \<and>
      (watching w (es @ [SReceive m]) \<longrightarrow> client evs = (d, book_now d (current (es @ [SReceive m]))))" for w
  proof (rule sent_more [OF _ new [of w]])
    show "\<exists>evs. sent_to w out = map (MakePayload ser) evs \<and> (watching w es \<longrightarrow> client evs = (d, book_now d (current es)))"
      using ok by (simp add: stream_ok_def)
    have "client_step (EvFeedStatus l) (d, b) = (d, b)" for b using l by simp
    then show "watching w (es @ [SReceive m]) \<longrightarrow>
        (watching w es \<and> fold client_step (?evs w) (d, book_now d (current es)) = (d, book_now d (current (es @ [SReceive m])))) \<or>
        (\<forall>c. fold client_step (?evs w) c = (d, book_now d (current (es @ [SReceive m]))))"
      using ok client_takes_book [OF first] by (auto simp: stream_ok_def simp del: client_step.simps)
  qed
  moreover have "interrupted s \<longrightarrow> current es = []" using ok by (simp add: stream_ok_def)
  ultimately show ?thesis
    using ok first by (auto simp: stream_ok_def s')
qed

lemma Interrupt_stream_ok:
  assumes ok: "stream_ok ser d es (s, out)" and step: "Stream_Interrupt g s = (s', new)"
  shows "stream_ok ser d (es @ [SInterrupt g]) (s', out @ new)"
proof -
  let ?status = "if g = kResubscribing then resubscribed s else disconnected s"
  have "?status \<in> {disconnected s, resubscribed s}" by simp
  then obtain l where l: "?status = MakePayload ser (EvFeedStatus l)" "fs_state l \<noteq> STATE_LIVE"
    using ok unfolding stream_ok_def fst_conv by blast
  have s': "s' = s\<lparr>st_book := Book_Clear (st_book s), has_snapshot := False, interrupted := True, gap_status := Some ?status\<rparr>"
    and new: "sent_to w new = map (MakePayload ser) (if w \<in> set (watchers s) then [EvFeedStatus l] else [])" for w
    using step ok l by (auto simp: Stream_Interrupt_def Let_def sent_to_all stream_ok_def)
  have "\<exists>evs. sent_to w (out @ new) = map (MakePayload ser) evs \<and>
      (watching w (es @ [SInterrupt g]) \<longrightarrow> client evs = (d, book_now d (current (es @ [SInterrupt g]))))" for w
  proof (rule sent_more [OF _ new [of w]])
    show "\<exists>evs. sent_to w out = map (MakePayload ser) evs \<and> (watching w es \<longrightarrow> client evs = (d, book_now d (current es)))"
      using ok by (simp add: stream_ok_def)
  qed (use ok l in \<open>auto simp: stream_ok_def book_now_def\<close>)
  moreover have "Book_Clear (st_book s) = Book_of_depth d"
    using ok by (simp add: stream_ok_def Book_Clear_def Book_of_depth_def Book.equality)
  ultimately show ?thesis
    using ok l by (auto simp: stream_ok_def s')
qed

lemma Watch_stream_ok:
  assumes ok: "stream_ok ser d es (s, out)" and step: "Stream_Watch ser v s = (s', new)"
  shows "stream_ok ser d (es @ [SWatch v]) (s', out @ new)"
proof -
  obtain info where info: "stream_info s = MakePayload ser (EvStreamInfo info)" "info_depth info = d"
    using ok by (auto simp: stream_ok_def)
  let ?b = "book_now d (current es)"
  have "\<exists>evs. sent_to v new = map (MakePayload ser) (EvStreamInfo info # evs) \<and> fold client_step evs (d, None) = (d, ?b)"
  proof (cases "interrupted s")
    case True
    then obtain p where p: "gap_status s = Some p" using ok by (auto simp: stream_ok_def)
    then have "p \<in> {disconnected s, resubscribed s} \<union> set_option (gap_status s)" by simp
    then obtain l where "p = MakePayload ser (EvFeedStatus l)" "fs_state l \<noteq> STATE_LIVE"
      using ok unfolding stream_ok_def fst_conv by blast
    then show ?thesis
      using True p step ok info
      by (intro exI [of _ "[EvFeedStatus l]"]) (auto simp: Stream_Watch_def Let_def stream_ok_def book_now_def)
  next
    case False
    show ?thesis
    proof (cases "has_snapshot s")
      case True
      have "Book_ok (st_book s)" "bk_depth (st_book s) = d" "current es \<noteq> []" "st_book s = replay d (current es)"
        using ok True by (simp_all add: stream_ok_def replay_def fold_ok)
      then have "client_step (EvBook (Stream_SnapshotLocked s)) (d, None) = (d, ?b)"
        using snapshot_gives_book [of s] by (simp add: book_now_def Stream_SnapshotLocked_def)
      then show ?thesis
        using True False step info
        by (intro exI [of _ "[EvBook (Stream_SnapshotLocked s)]"]) (auto simp: Stream_Watch_def Let_def simp del: client_step.simps)
    next
      case no: False
      then show ?thesis
        using False step ok info by (intro exI [of _ "[]"]) (auto simp: Stream_Watch_def Let_def stream_ok_def book_now_def)
    qed
  qed
  then obtain evs' where evs': "sent_to v new = map (MakePayload ser) (EvStreamInfo info # evs')"
    "fold client_step evs' (d, None) = (d, ?b)" by blast
  have others: "sent_to w new = []" if "w \<noteq> v" for w
    using step that by (auto simp: Stream_Watch_def Let_def split: if_splits option.splits)
  have "\<exists>evs. sent_to w (out @ new) = map (MakePayload ser) evs \<and>
      (watching w (es @ [SWatch v]) \<longrightarrow> client evs = (d, book_now d (current (es @ [SWatch v]))))" for w
  proof (rule sent_more [where evs' = "if w = v then EvStreamInfo info # evs' else []"])
    show "\<exists>evs. sent_to w out = map (MakePayload ser) evs \<and> (watching w es \<longrightarrow> client evs = (d, ?b))"
      using ok by (simp add: stream_ok_def)
    show "sent_to w new = map (MakePayload ser) (if w = v then EvStreamInfo info # evs' else [])"
      using evs' others by simp
    show "watching w (es @ [SWatch v]) \<longrightarrow>
        (watching w es \<and> fold client_step (if w = v then EvStreamInfo info # evs' else []) (d, ?b) =
           (d, book_now d (current (es @ [SWatch v])))) \<or>
        (\<forall>c. fold client_step (if w = v then EvStreamInfo info # evs' else []) c = (d, book_now d (current (es @ [SWatch v]))))"
      using evs'(2) info by auto
  qed
  moreover have "s' = s\<lparr>watchers := removeAll v (watchers s) @ [v]\<rparr>"
    using step by (auto simp: Stream_Watch_def Let_def)
  ultimately show ?thesis
    using ok by (auto simp: stream_ok_def distinct_removeAll)
qed

lemma Unwatch_stream_ok:
  assumes "stream_ok ser d es (s, out)"
  shows "stream_ok ser d (es @ [SUnwatch v]) (Stream_Unwatch v s, out)"
  using assms by (auto simp: stream_ok_def Stream_Unwatch_def distinct_removeAll)

lemma run_stream_ok:
  assumes "gated es"
  shows "stream_ok ser (bs_depth book) es (stream_run ser es (Stream_new ser i venue book precision))"
  using assms
proof (induction es rule: rev_induct)
  case Nil
  then show ?case
    by (auto simp: stream_ok_def stream_run_def Stream_new_def MakeStreamInfo_def MakeFeedStatus_def current_def
        watching_def)
next
  case (snoc e es)
  let ?run = "stream_run ser es (Stream_new ser i venue book precision)"
  obtain s out where run: "?run = (s, out)" by fastforce
  obtain s' new where step: "stream_step ser e s = (s', new)" by fastforce
  have ok: "stream_ok ser (bs_depth book) es (s, out)" using snoc gated_snoc run by fastforce
  have "stream_ok ser (bs_depth book) (es @ [e]) (s', out @ new)"
    using step gated_snoc [THEN iffD1, OF snoc.prems] Receive_stream_ok [OF ok] Interrupt_stream_ok [OF ok] Watch_stream_ok [OF ok]
      Unwatch_stream_ok [OF ok]
    by (cases e) auto
  then show ?case by (simp add: run_snoc run step)
qed

section \<open>Properties\<close>

text \<open>
  C6. Whenever a client watches, from before the first message or in the middle of a
  stream, and however often it stopped and watched again: replaying what it was sent, it
  has exactly the book that the messages since the last gap leave at the stream's depth,
  and it knows that there is none as long as no message came since. One that does not
  watch is sent nothing.
\<close>

theorem watchers_replay_the_book:
  assumes "gated es" and "stream_run ser es (Stream_new ser i venue book precision) = (s, sent)"
  shows "\<exists>evs. sent_to w sent = map (MakePayload ser) evs \<and>
    (watching w es \<longrightarrow> client evs =
       (bs_depth book, if current es = [] then None else Some (replay (bs_depth book) (current es)))) \<and>
    (\<not> watching w es \<and> e \<noteq> SWatch w \<longrightarrow>
       sent_to w (snd (stream_run ser (es @ [e]) (Stream_new ser i venue book precision))) = sent_to w sent)"
proof -
  have ok: "stream_ok ser (bs_depth book) es (s, sent)"
    using run_stream_ok [OF assms(1), of ser book i venue precision] assms(2) by simp
  then obtain evs where "sent_to w sent = map (MakePayload ser) evs"
    "watching w es \<longrightarrow> client evs = (bs_depth book, book_now (bs_depth book) (current es))"
    unfolding stream_ok_def snd_conv by blast
  moreover have "sent_to w (snd (stream_step ser e s)) = []" if "\<not> watching w es" "e \<noteq> SWatch w"
    using ok that
    by (cases e) (auto simp: stream_ok_def Stream_Receive_def Stream_Interrupt_def Stream_Watch_def Let_def sent_to_all
        split: option.split)
  ultimately show ?thesis
    by (intro exI [of _ evs]) (simp add: run_snoc assms(2) book_now_def case_prod_beta)
qed

definition demo_quote :: "Type \<Rightarrow> i64 \<Rightarrow> Message" where
  "demo_quote t p = \<lparr>msg_type = t, checksum = 0, venue_time_ns = 1, capture_time_ns = 2, msg_symbol = ''A/B'',
     buys = [\<lparr>price = p, quantity = 5\<rparr>], sells = []\<rparr>"

theorem watchers_replay_the_book_witness:
  "\<exists>evs. sent_to 3 (snd (stream_run (\<lambda>_. []) [SReceive (demo_quote kSnapshot 7), SWatch 3, SReceive (demo_quote kUpdate 8)]
       (Stream_new (\<lambda>_. []) 65536 ''kraken'' \<lparr>bs_symbol = ''A/B'', bs_depth = 10\<rparr>
         \<lparr>price_decimals = 1, qty_decimals = 2\<rparr>))) = map (MakePayload (\<lambda>_. [])) evs \<and>
     client evs = (10, Some \<lparr>bk_depth = 10, bk_bids = [(8, 5), (7, 5)], bk_asks = []\<rparr>)"
proof -
  let ?es = "[SReceive (demo_quote kSnapshot 7), SWatch 3, SReceive (demo_quote kUpdate 8)]"
  have "gated ?es" by (simp add: gated_def demo_quote_def)
  moreover have "watching 3 ?es" "current ?es = [demo_quote kSnapshot 7, demo_quote kUpdate 8]"
    by (simp_all add: watching_def current_def)
  moreover have "replay 10 [demo_quote kSnapshot 7, demo_quote kUpdate 8] =
      \<lparr>bk_depth = 10, bk_bids = [(8, 5), (7, 5)], bk_asks = []\<rparr>"
    by (simp add: replay_def Book_Apply_def Book_Clear_def Book_of_depth_def ApplyLevels_def demo_quote_def
        kFullDepth_def Let_def)
  ultimately show ?thesis
    using watchers_replay_the_book [OF \<open>gated ?es\<close> surjective_pairing,
        where w = 3 and ser = "\<lambda>_. []" and i = 65536 and venue = "''kraken''" and e = "SUnwatch 3" and
          book = "\<lparr>bs_symbol = ''A/B'', bs_depth = 10\<rparr>" and precision = "\<lparr>price_decimals = 1, qty_decimals = 2\<rparr>"]
    by auto
qed

end
