(* ===== verification/FrontendSession.thy ===== *)
theory FrontendSession
  imports FrontendWire
begin

text \<open>
  One client connection: \<^verbatim>\<open>Server::Session\<close> of frontend/server.cc. Its handlers run one
  at a time on the network thread and take the steady clock and, where one completes an
  operation of the socket, its error code (whether there is one). What is posted, to the
  network thread or to the connection's command strand, is a queue in the state.
\<close>

section \<open>The code\<close>

definition kMaxCommandBytes :: nat where "kMaxCommandBytes = 64 * 1024"
definition kMaxQueuedFrames :: nat where "kMaxQueuedFrames = 4096"
definition kMaxBacklogFrames :: nat where "kMaxBacklogFrames = 2 * kMaxQueuedFrames"
definition kMaxPendingCommands :: nat where "kMaxPendingCommands = 64"

text \<open>In nanoseconds.\<close>

definition kHeartbeatPeriod :: int where "kHeartbeatPeriod = 5 * 1000000000"

definition CommandFailure :: "enum \<Rightarrow> string \<Rightarrow> wire_CommandResult" where
  "CommandFailure c d = \<lparr>cr_request_id = 0, cr_result = kError \<lparr>ce_code = c, ce_detail = d\<rparr>\<rparr>"

definition CommandOk :: wire_CommandResult where
  "CommandOk = \<lparr>cr_request_id = 0, cr_result = kOk\<rparr>"

definition HeartbeatPayload :: "(wire_event \<Rightarrow> byte list) \<Rightarrow> Payload" where
  "HeartbeatPayload ser = MakePayload ser EvHeartbeat"

record Outgoing =
  og_sequence :: u64
  og_payload :: Payload
  og_header :: "byte list"

text \<open>What the command strand has to do; \<open>'c\<close> is a parsed command.\<close>

datatype 'c task = RunCommand 'c | NotACommand | Forget

record 'c Session =
  outgoing :: "Outgoing list"
  next_sequence :: u64
  last_enqueue :: int
  closed :: bool
  pending_commands :: nat
  reading :: bool
  heartbeat :: bool
  writing :: bool
  posted :: "Payload list"
  strand :: "'c task list"

definition Session_new :: "int \<Rightarrow> 'c Session" where
  "Session_new now =
     \<lparr>outgoing = [], next_sequence = 0, last_enqueue = now, closed = False, pending_commands = 0,
      reading = False, heartbeat = False, writing = False, posted = [], strand = []\<rparr>"

definition Session_Close :: "'c Session \<Rightarrow> 'c Session" where
  "Session_Close s =
     (if closed s then s else s\<lparr>closed := True, heartbeat := False, strand := strand s @ [Forget]\<rparr>)"

text \<open>The handshake of \<^verbatim>\<open>Begin\<close> is over.\<close>

definition Session_Begun :: "bool \<Rightarrow> 'c Session \<Rightarrow> 'c Session" where
  "Session_Begun ec s =
     (if ec \<or> closed s then Session_Close s else s\<lparr>reading := True, heartbeat := True\<rparr>)"

definition Session_Send :: "Payload \<Rightarrow> 'c Session \<Rightarrow> 'c Session" where
  "Session_Send payload s = s\<lparr>posted := posted s @ [payload]\<rparr>"

definition CommandDone :: "'c Session \<Rightarrow> 'c Session" where
  "CommandDone s = s\<lparr>pending_commands := pending_commands s - 1\<rparr>"

text \<open>A read is over; \<open>parsed\<close> is the command protobuf makes of what was read, if any.\<close>

definition Session_Read :: "bool \<Rightarrow> 'c option \<Rightarrow> 'c Session \<Rightarrow> 'c Session" where
  "Session_Read ec parsed s =
     (if ec \<or> closed s then Session_Close (s\<lparr>reading := False\<rparr>)
      else if pending_commands s \<ge> kMaxPendingCommands then Session_Close (s\<lparr>reading := False\<rparr>)
      else s\<lparr>pending_commands := pending_commands s + 1,
             strand := strand s @ [case parsed of Some command \<Rightarrow> RunCommand command | None \<Rightarrow> NotACommand]\<rparr>)"

text \<open>The front frame gets its envelope as its write starts.\<close>

definition WriteFront :: "coded \<Rightarrow> i64 \<Rightarrow> 'c Session \<Rightarrow> 'c Session" where
  "WriteFront out unix_now s =
     (case outgoing s of
        [] \<Rightarrow> s
      | front # rest \<Rightarrow>
          s\<lparr>outgoing := front\<lparr>og_header := FrameHeader out (og_sequence front) unix_now (og_payload front)\<rparr> # rest, writing := True\<rparr>)"

definition Enqueue :: "coded \<Rightarrow> int \<Rightarrow> i64 \<Rightarrow> Payload \<Rightarrow> 'c Session \<Rightarrow> 'c Session" where
  "Enqueue out now unix_now payload s =
     (if closed s then s
      else if length (outgoing s) \<ge> kMaxQueuedFrames \<and> field_number payload = kBookFieldNumber
      then s\<lparr>next_sequence := next_sequence s + 1\<rparr>
      else if length (outgoing s) \<ge> kMaxQueuedFrames \<and> length (outgoing s) \<ge> kMaxBacklogFrames
      then Session_Close s
      else
        let s = s\<lparr>outgoing := outgoing s @ [\<lparr>og_sequence = next_sequence s, og_payload = payload, og_header = []\<rparr>],
                  next_sequence := next_sequence s + 1, last_enqueue := now\<rparr>
        in if length (outgoing s) = 1 then WriteFront out unix_now s else s)"

text \<open>A write of \<^verbatim>\<open>WriteFront\<close> is over.\<close>

definition Session_Written :: "coded \<Rightarrow> i64 \<Rightarrow> bool \<Rightarrow> 'c Session \<Rightarrow> 'c Session" where
  "Session_Written out unix_now ec s =
     (if ec then Session_Close (s\<lparr>writing := False\<rparr>)
      else
        let s = s\<lparr>outgoing := tl (outgoing s), writing := False\<rparr>
        in if \<not> closed s \<and> outgoing s \<noteq> [] then WriteFront out unix_now s else s)"

text \<open>The heartbeat's timer went off; it is armed again unless the connection was dropped.\<close>

definition Session_Heartbeat ::
    "(wire_event \<Rightarrow> byte list) \<Rightarrow> coded \<Rightarrow> int \<Rightarrow> i64 \<Rightarrow> bool \<Rightarrow> 'c Session \<Rightarrow> 'c Session" where
  "Session_Heartbeat ser out now unix_now ec s =
     (if ec \<or> closed s then s\<lparr>heartbeat := False\<rparr>
      else
        let s = (if now - last_enqueue s \<ge> kHeartbeatPeriod then Enqueue out now unix_now (HeartbeatPayload ser) s else s)
        in s\<lparr>heartbeat := \<not> closed s\<rparr>)"

text \<open>What the network thread does with the next payload posted to it.\<close>

definition Session_Posted :: "coded \<Rightarrow> int \<Rightarrow> i64 \<Rightarrow> 'c Session \<Rightarrow> 'c Session" where
  "Session_Posted out now unix_now s =
     (case posted s of [] \<Rightarrow> s | payload # rest \<Rightarrow> Enqueue out now unix_now payload (s\<lparr>posted := rest\<rparr>))"

text \<open>The strand answers the command in front of it, or lets the session go.\<close>

definition Session_Answered :: "(wire_event \<Rightarrow> byte list) \<Rightarrow> ('c \<Rightarrow> wire_CommandResult) \<Rightarrow> 'c Session \<Rightarrow> 'c Session" where
  "Session_Answered ser answer s =
     (case strand s of
        [] \<Rightarrow> s
      | Forget # rest \<Rightarrow> s\<lparr>strand := rest\<rparr>
      | RunCommand command # rest \<Rightarrow>
          CommandDone (Session_Send (MakePayload ser (EvResult (answer command))) (s\<lparr>strand := rest\<rparr>))
      | NotACommand # rest \<Rightarrow>
          CommandDone (Session_Send (MakePayload ser (EvResult
            (CommandFailure CODE_INVALID_COMMAND ''Not a ClientCommand''))) (s\<lparr>strand := rest\<rparr>)))"

section \<open>Runs\<close>

text \<open>
  A run of a connection, with the payloads that reached it while it was open, heartbeats
  included, oldest first, and the frames whose write is over. A write is over only when one is in flight, and a
  read or the timer only while it is waited for.
\<close>

inductive session_reach ::
    "(wire_event \<Rightarrow> byte list) \<Rightarrow> coded \<Rightarrow> Payload list \<Rightarrow> Outgoing list \<Rightarrow> 'c Session \<Rightarrow> bool"
  for ser :: "wire_event \<Rightarrow> byte list" and out :: coded where
  ses_new: "session_reach ser out [] [] (Session_new now)"
| ses_begun: "session_reach ser out offered went s \<Longrightarrow> session_reach ser out offered went (Session_Begun ec s)"
| ses_send: "session_reach ser out offered went s \<Longrightarrow> session_reach ser out offered went (Session_Send payload s)"
| ses_read: "session_reach ser out offered went s \<Longrightarrow> reading s \<Longrightarrow>
     session_reach ser out offered went (Session_Read ec parsed s)"
| ses_posted: "session_reach ser out offered went s \<Longrightarrow> posted s = payload # rest \<Longrightarrow>
     s' = Session_Posted out now unix_now s \<Longrightarrow>
     offered' = (if closed s then offered else offered @ [payload]) \<Longrightarrow>
     session_reach ser out offered' went s'"
| ses_written: "session_reach ser out offered went s \<Longrightarrow> writing s \<Longrightarrow> outgoing s = front # rest \<Longrightarrow>
     session_reach ser out offered (if ec then went else went @ [front]) (Session_Written out unix_now ec s)"
| ses_heartbeat: "session_reach ser out offered went s \<Longrightarrow> heartbeat s \<Longrightarrow>
     s' = Session_Heartbeat ser out now unix_now ec s \<Longrightarrow>
     offered' = (if ec \<or> closed s \<or> now - last_enqueue s < kHeartbeatPeriod then offered
       else offered @ [HeartbeatPayload ser]) \<Longrightarrow>
     session_reach ser out offered' went s'"
| ses_answered: "session_reach ser out offered went s \<Longrightarrow>
     session_reach ser out offered went (Session_Answered ser answer s)"
| ses_close: "session_reach ser out offered went s \<Longrightarrow> session_reach ser out offered went (Session_Close s)"

section \<open>The invariant\<close>

text \<open>
  The frames sent and waiting are those of the payloads offered, but for dropped books
  and, when \<open>over\<close>, the one that closed the connection.
\<close>

definition numbered :: "bool \<Rightarrow> Payload list \<Rightarrow> Outgoing list \<Rightarrow> bool" where
  "numbered over offered frames \<longleftrightarrow>
     (\<exists>keep. map (\<lambda>f. (og_sequence f, og_payload f)) frames =
          map (\<lambda>k. (of_nat k, offered ! k)) (filter keep [0..<length offered]) \<and>
        (\<forall>k < length offered. \<not> keep k \<longrightarrow>
           field_number (offered ! k) = kBookFieldNumber \<or> over \<and> Suc k = length offered))"

definition framed :: "coded \<Rightarrow> Outgoing \<Rightarrow> bool" where
  "framed out f \<longleftrightarrow> (\<exists>t. og_header f = FrameHeader out (og_sequence f) t (og_payload f))"

text \<open>\<open>Forget\<close> is the last thing the strand ever does.\<close>

definition forgets_last :: "'c Session \<Rightarrow> bool" where
  "forgets_last s \<longleftrightarrow>
     (if closed s then strand s = [] \<or> (\<exists>tasks. strand s = tasks @ [Forget] \<and> Forget \<notin> set tasks)
      else Forget \<notin> set (strand s))"

definition session_core :: "coded \<Rightarrow> Payload list \<Rightarrow> Outgoing list \<Rightarrow> 'c Session \<Rightarrow> bool" where
  "session_core out offered went s \<longleftrightarrow>
     (\<not> closed s \<longrightarrow> next_sequence s = of_nat (length offered)) \<and> numbered (closed s) offered (went @ outgoing s) \<and>
     length (outgoing s) \<le> kMaxBacklogFrames \<and>
     pending_commands s \<le> kMaxPendingCommands \<and>
     pending_commands s = length (filter (\<lambda>t. t \<noteq> Forget) (strand s)) \<and> forgets_last s \<and>
     list_all (framed out) went \<and> (writing s \<longrightarrow> outgoing s \<noteq> [] \<and> framed out (hd (outgoing s)))"

text \<open>And as long as the connection is open, frames that wait are being written.\<close>

definition session_ok :: "coded \<Rightarrow> Payload list \<Rightarrow> Outgoing list \<Rightarrow> 'c Session \<Rightarrow> bool" where
  "session_ok out offered went s \<longleftrightarrow>
     session_core out offered went s \<and> (\<not> closed s \<longrightarrow> outgoing s \<noteq> [] \<longrightarrow> writing s)"

lemma session_ok_fields [simp]:
  "session_core out offered went (s\<lparr>reading := r\<rparr>) = session_core out offered went s"
  "session_core out offered went (s\<lparr>heartbeat := h\<rparr>) = session_core out offered went s"
  "session_core out offered went (s\<lparr>posted := p\<rparr>) = session_core out offered went s"
  "session_core out offered went (s\<lparr>last_enqueue := t\<rparr>) = session_core out offered went s"
  by (simp_all add: session_core_def forgets_last_def)

lemma numbered_add:
  assumes "numbered False offered frames" and "og_sequence f = of_nat (length offered)" and "og_payload f = payload"
  shows "numbered False (offered @ [payload]) (frames @ [f])"
proof -
  obtain keep where keep: "map (\<lambda>f. (og_sequence f, og_payload f)) frames =
      map (\<lambda>k. (of_nat k, offered ! k)) (filter keep [0..<length offered])"
    "\<forall>k < length offered. \<not> keep k \<longrightarrow> field_number (offered ! k) = kBookFieldNumber"
    using assms(1) by (auto simp: numbered_def)
  let ?keep = "\<lambda>k. k < length offered \<longrightarrow> keep k"
  have "filter ?keep [0..<length offered] = filter keep [0..<length offered]" by (rule filter_cong) auto
  then show ?thesis
    using keep assms(2,3) unfolding numbered_def by (intro exI [of _ ?keep]) (auto simp: nth_append less_Suc_eq)
qed

lemma numbered_drop:
  assumes "numbered False offered frames" and "over \<or> field_number payload = kBookFieldNumber"
  shows "numbered over (offered @ [payload]) frames"
proof -
  obtain keep where keep: "map (\<lambda>f. (og_sequence f, og_payload f)) frames =
      map (\<lambda>k. (of_nat k, offered ! k)) (filter keep [0..<length offered])"
    "\<forall>k < length offered. \<not> keep k \<longrightarrow> field_number (offered ! k) = kBookFieldNumber"
    using assms(1) by (auto simp: numbered_def)
  let ?keep = "\<lambda>k. k < length offered \<and> keep k"
  have "filter ?keep [0..<length offered] = filter keep [0..<length offered]" by (rule filter_cong) auto
  then show ?thesis
    using keep assms(2) unfolding numbered_def by (intro exI [of _ ?keep]) (auto simp: nth_append less_Suc_eq)
qed

lemma numbered_over: "numbered over offered frames \<Longrightarrow> numbered True offered frames"
  unfolding numbered_def by blast

lemma numbered_cong:
  "map (\<lambda>f. (og_sequence f, og_payload f)) frames' = map (\<lambda>f. (og_sequence f, og_payload f)) frames \<Longrightarrow>
     numbered over offered frames' = numbered over offered frames"
  by (simp add: numbered_def)

lemma Close_core: "session_core out offered went s \<Longrightarrow> session_core out offered went (Session_Close s)"
  by (auto simp: session_core_def Session_Close_def forgets_last_def intro: numbered_over)

lemma Close_simps [simp]: "closed (Session_Close s)" "outgoing (Session_Close s) = outgoing s"
  "next_sequence (Session_Close s) = next_sequence s" "writing (Session_Close s) = writing s"
  by (simp_all add: Session_Close_def)

lemma Close_ok: "session_core out offered went s \<Longrightarrow> session_ok out offered went (Session_Close s)"
  by (simp add: session_ok_def Close_core)

lemma WriteFront_simps [simp]:
  "next_sequence (WriteFront out t s) = next_sequence s" "closed (WriteFront out t s) = closed s"
  "length (outgoing (WriteFront out t s)) = length (outgoing s)"
  by (simp_all add: WriteFront_def split: list.split)

lemma WriteFront_ok:
  assumes "session_core out offered went s" and "outgoing s \<noteq> []"
  shows "session_ok out offered went (WriteFront out t s)"
proof -
  obtain f rest where f: "outgoing s = f # rest" using assms(2) by (cases "outgoing s") auto
  let ?g = "f\<lparr>og_header := FrameHeader out (og_sequence f) t (og_payload f)\<rparr>"
  have "numbered over offered (went @ ?g # rest) = numbered over offered (went @ f # rest)" for over
    by (rule numbered_cong) simp
  then show ?thesis
    using assms(1) f by (auto simp: session_ok_def session_core_def WriteFront_def forgets_last_def framed_def)
qed

lemma Enqueue_ok:
  assumes ok: "session_ok out offered went s" and run: "s' = Enqueue out now t payload s"
  shows "session_ok out (if closed s then offered else offered @ [payload]) went s'"
proof -
  have core: "session_core out offered went s" using ok by (simp add: session_ok_def)
  have "kMaxQueuedFrames \<le> kMaxBacklogFrames" by (simp add: kMaxBacklogFrames_def)
  then consider "closed s" | "\<not> closed s" "length (outgoing s) \<ge> kMaxQueuedFrames" "field_number payload = kBookFieldNumber"
    | "\<not> closed s" "length (outgoing s) \<ge> kMaxBacklogFrames" "field_number payload \<noteq> kBookFieldNumber"
    | "\<not> closed s" "length (outgoing s) < kMaxBacklogFrames"
      "\<not> (length (outgoing s) \<ge> kMaxQueuedFrames \<and> field_number payload = kBookFieldNumber)"
    by (meson not_le order_trans)
  then show ?thesis
  proof cases
    case 1
    then show ?thesis using ok run by (simp add: Enqueue_def)
  next
    case 2
    then show ?thesis
      using ok run numbered_drop [of offered "went @ outgoing s" False payload]
      by (simp add: Enqueue_def session_ok_def session_core_def forgets_last_def)
  next
    case 3
    then have "kMaxQueuedFrames \<le> length (outgoing s)" by (simp add: kMaxBacklogFrames_def kMaxQueuedFrames_def)
    moreover have "session_core out (offered @ [payload]) went (Session_Close s)"
      using core 3 numbered_drop [of offered "went @ outgoing s" True payload]
      by (auto simp: session_core_def Session_Close_def forgets_last_def)
    ultimately show ?thesis using 3 run by (simp add: Enqueue_def session_ok_def)
  next
    case 4
    let ?f = "\<lparr>og_sequence = next_sequence s, og_payload = payload, og_header = []\<rparr>"
    let ?s = "s\<lparr>outgoing := outgoing s @ [?f], next_sequence := next_sequence s + 1, last_enqueue := now\<rparr>"
    have "numbered False (offered @ [payload]) ((went @ outgoing s) @ [?f])"
      using core 4(1) by (intro numbered_add) (auto simp: session_core_def)
    then have core': "session_core out (offered @ [payload]) went ?s"
      using core 4(1,2) by (auto simp: session_core_def forgets_last_def)
    have s': "s' = (if outgoing s = [] then WriteFront out t ?s else ?s)"
      using run 4 by (auto simp: Enqueue_def Let_def)
    show ?thesis
    proof (cases "outgoing s = []")
      case True
      then show ?thesis using WriteFront_ok [OF core', of t] 4(1) by (simp add: s')
    next
      case False
      then have "session_ok out (offered @ [payload]) went ?s" using core' ok 4(1) by (simp add: session_ok_def)
      then show ?thesis using False 4(1) by (simp add: s')
    qed
  qed
qed

lemma Written_ok:
  assumes ok: "session_ok out offered went s" and front: "writing s" "outgoing s = front # rest"
  shows "session_ok out offered (if ec then went else went @ [front]) (Session_Written out t ec s)"
proof (cases ec)
  case True
  have "session_core out offered went (s\<lparr>writing := False\<rparr>)"
    using ok by (simp add: session_ok_def session_core_def forgets_last_def)
  then show ?thesis using True by (simp add: Session_Written_def Close_ok)
next
  case False
  let ?s = "s\<lparr>outgoing := rest, writing := False\<rparr>"
  have core: "session_core out offered (went @ [front]) ?s"
    using ok front by (auto simp: session_ok_def session_core_def forgets_last_def)
  show ?thesis
  proof (cases "\<not> closed s \<and> rest \<noteq> []")
    case True
    then show ?thesis
      using WriteFront_ok [OF core, of t] False front by (simp add: Session_Written_def Let_def)
  next
    case no: False
    then show ?thesis using core False front by (auto simp: Session_Written_def Let_def session_ok_def)
  qed
qed

lemma Read_ok:
  assumes ok: "session_ok out offered went s"
  shows "session_ok out offered went (Session_Read ec parsed s)"
proof (cases "ec \<or> closed s \<or> pending_commands s \<ge> kMaxPendingCommands")
  case True
  then show ?thesis using ok by (auto simp: Session_Read_def session_ok_def intro: Close_core)
next
  case False
  then show ?thesis
    using ok by (auto simp: Session_Read_def session_ok_def session_core_def forgets_last_def split: option.split)
qed

lemma Answered_ok:
  assumes ok: "session_ok out offered went s"
  shows "session_ok out offered went (Session_Answered ser answer s)"
proof (cases "strand s")
  case (Cons t rest)
  have forget: "forgets_last (s\<lparr>strand := rest\<rparr>)"
    using ok Cons by (auto simp: session_ok_def session_core_def forgets_last_def Cons_eq_append_conv split: if_splits)
  then show ?thesis
    using ok Cons
    by (cases t) (auto simp: Session_Answered_def CommandDone_def Session_Send_def session_ok_def session_core_def
        forgets_last_def split: if_splits)
qed (use ok in \<open>simp add: Session_Answered_def\<close>)

lemma Heartbeat_ok:
  assumes ok: "session_ok out offered went s" and run: "s' = Session_Heartbeat ser out now t ec s"
  shows "session_ok out (if ec \<or> closed s \<or> now - last_enqueue s < kHeartbeatPeriod then offered
    else offered @ [HeartbeatPayload ser]) went s'"
proof -
  have same: "session_ok out offered went (s\<lparr>heartbeat := h\<rparr>) = session_ok out offered went s" for offered s h
    by (simp add: session_ok_def)
  let ?e = "Enqueue out now t (HeartbeatPayload ser) s"
  show ?thesis
    using ok Enqueue_ok [OF ok refl, where now = now and t = t and payload = "HeartbeatPayload ser"] run
    by (auto simp: Session_Heartbeat_def Let_def same split: if_splits)
qed

lemma reach_session_ok: "session_reach ser out offered went s \<Longrightarrow> session_ok out offered went s"
proof (induction rule: session_reach.induct)
  case (ses_new now)
  then show ?case
    by (simp add: session_ok_def session_core_def Session_new_def numbered_def forgets_last_def)
next
  case (ses_begun offered went s ec)
  then show ?case by (auto simp: Session_Begun_def session_ok_def intro: Close_core)
next
  case (ses_send offered went s payload)
  then show ?case by (simp add: Session_Send_def session_ok_def)
next
  case (ses_posted offered went s payload rest s' now unix_now offered')
  then have "session_ok out offered went (s\<lparr>posted := rest\<rparr>)" by (simp add: session_ok_def)
  then show ?case
    using ses_posted.hyps Enqueue_ok [OF _ refl, where s = "s\<lparr>posted := rest\<rparr>" and now = now and t = unix_now and payload = payload]
    by (simp add: Session_Posted_def)
next
  case (ses_close offered went s)
  then show ?case by (intro Close_ok) (simp add: session_ok_def)
next
  case (ses_heartbeat offered went s s' now unix_now ec offered')
  from Heartbeat_ok [OF ses_heartbeat.IH ses_heartbeat.hyps(3)] show ?case
    by (simp only: ses_heartbeat.hyps(4))
qed (simp_all add: Read_ok Written_ok Answered_ok)

section \<open>Properties\<close>

text \<open>
  C11. Over every run of a connection: the frames it has sent, and those waiting, are the
  payloads that reached it while open, in order and each under its place in that order, and
  a place that is skipped was a book's, or the last one, which found the queue full and
  closed the connection; so a client that sees no number skipped missed nothing, and one
  that does missed books only. The frames waiting and the commands not yet answered
  stay bounded, frames that wait are being written while the connection is open, and
  once it is closed letting the session go is the last thing its strand does.
\<close>

theorem session_frames_in_order:
  assumes "session_reach ser out offered went s" and "length offered < 2 ^ 64"
  shows "(\<exists>keep. map (\<lambda>f. (unat (og_sequence f), og_payload f)) (went @ outgoing s) =
        map (\<lambda>k. (k, offered ! k)) (filter keep [0..<length offered]) \<and>
      (\<forall>k < length offered. keep k \<or> field_number (offered ! k) = kBookFieldNumber \<or>
         closed s \<and> Suc k = length offered)) \<and>
    (\<forall>f \<in> set went. \<exists>t. og_header f = FrameHeader out (og_sequence f) t (og_payload f)) \<and>
    length (outgoing s) \<le> kMaxBacklogFrames \<and> pending_commands s \<le> kMaxPendingCommands \<and>
    (closed s \<or> outgoing s = [] \<or> writing s) \<and>
    (if closed s then strand s = [] \<or> (\<exists>tasks. strand s = tasks @ [Forget] \<and> Forget \<notin> set tasks)
     else Forget \<notin> set (strand s))"
proof -
  have ok: "session_ok out offered went s" by (rule reach_session_ok [OF assms(1)])
  then obtain keep where keep: "map (\<lambda>f. (og_sequence f, og_payload f)) (went @ outgoing s) =
      map (\<lambda>k. (of_nat k, offered ! k)) (filter keep [0..<length offered])"
    "\<forall>k < length offered. \<not> keep k \<longrightarrow>
      field_number (offered ! k) = kBookFieldNumber \<or> closed s \<and> Suc k = length offered"
    by (auto simp: session_ok_def session_core_def numbered_def)
  have "map (\<lambda>f. (unat (og_sequence f), og_payload f)) (went @ outgoing s) =
      map (map_prod unat id) (map (\<lambda>f. (og_sequence f, og_payload f)) (went @ outgoing s))" by simp
  also have "\<dots> = map (\<lambda>k. (k, offered ! k)) (filter keep [0..<length offered])"
    unfolding keep(1) using assms(2) by (auto simp: unat_of_nat_u64)
  finally have frames: "map (\<lambda>f. (unat (og_sequence f), og_payload f)) (went @ outgoing s) = \<dots>" .
  moreover have "\<forall>k < length offered. keep k \<or> field_number (offered ! k) = kBookFieldNumber \<or>
      closed s \<and> Suc k = length offered" using keep(2) by blast
  ultimately have "\<exists>keep. map (\<lambda>f. (unat (og_sequence f), og_payload f)) (went @ outgoing s) =
        map (\<lambda>k. (k, offered ! k)) (filter keep [0..<length offered]) \<and>
      (\<forall>k < length offered. keep k \<or> field_number (offered ! k) = kBookFieldNumber \<or>
         closed s \<and> Suc k = length offered)" by blast
  moreover have "\<forall>f \<in> set went. \<exists>t. og_header f = FrameHeader out (og_sequence f) t (og_payload f)"
    using ok by (simp add: session_ok_def session_core_def framed_def list_all_iff)
  moreover have "length (outgoing s) \<le> kMaxBacklogFrames" "pending_commands s \<le> kMaxPendingCommands"
    "if closed s then strand s = [] \<or> (\<exists>tasks. strand s = tasks @ [Forget] \<and> Forget \<notin> set tasks)
     else Forget \<notin> set (strand s)"
    using ok by (simp_all add: session_ok_def session_core_def forgets_last_def)
  moreover have "closed s \<or> outgoing s = [] \<or> writing s" using ok by (auto simp: session_ok_def)
  ultimately show ?thesis by (intro conjI)
qed

definition demo_payload :: Payload where
  "demo_payload = MakePayload (\<lambda>_. [1]) (EvResult CommandOk)"

definition demo_frame_of :: "u64 \<Rightarrow> i64 \<Rightarrow> Outgoing" where
  "demo_frame_of n t = \<lparr>og_sequence = n, og_payload = demo_payload, og_header = FrameHeader proto_coded n t demo_payload\<rparr>"

definition demo_session :: "unit Session" where
  "demo_session = Session_Posted proto_coded 3 4 (Session_Send demo_payload (Session_Begun False (Session_new 0)))"

theorem session_frames_in_order_witness:
  "\<exists>keep. map (\<lambda>f. (unat (og_sequence f), og_payload f)) ([demo_frame_of 0 4] @ outgoing (Session_Written proto_coded 5 False demo_session)) =
     map (\<lambda>k. (k, [demo_payload] ! k)) (filter keep [0..<1]) \<and> keep 0"
proof -
  have front: "outgoing demo_session = [demo_frame_of 0 4]" "writing demo_session" "next_sequence demo_session = 1"
    by (simp_all add: demo_session_def Session_Posted_def Session_Send_def Session_Begun_def Session_new_def
        Enqueue_def Let_def WriteFront_def kMaxQueuedFrames_def kMaxBacklogFrames_def demo_frame_of_def)
  have "session_reach (\<lambda>_. [1]) proto_coded [demo_payload] [] demo_session"
    using front(3)
    by (intro ses_posted [OF ses_send [where payload = demo_payload,
            OF ses_begun [where ec = False, OF ses_new [where now = 0]]]])
      (simp_all add: demo_session_def Session_Send_def Session_Begun_def Session_new_def)
  from ses_written [OF this front(2,1), of False 5]
  have "session_reach (\<lambda>_. [1]) proto_coded [demo_payload] [demo_frame_of 0 4] (Session_Written proto_coded 5 False demo_session)"
    by simp
  moreover have "length [demo_payload] < 2 ^ 64" by simp
  ultimately obtain keep where keep: "map (\<lambda>f. (unat (og_sequence f), og_payload f))
       ([demo_frame_of 0 4] @ outgoing (Session_Written proto_coded 5 False demo_session)) =
     map (\<lambda>k. (k, [demo_payload] ! k)) (filter keep [0..<length [demo_payload]])"
    using session_frames_in_order [THEN conjunct1] by blast
  then have "map (\<lambda>f. (unat (og_sequence f), og_payload f))
       ([demo_frame_of 0 4] @ outgoing (Session_Written proto_coded 5 False demo_session)) =
     map (\<lambda>k. (k, [demo_payload] ! k)) (filter keep [0..<1])" by (simp only: list.size)  (simp)
  moreover from this have "keep 0" by (cases "keep 0") simp_all
  ultimately show ?thesis by blast
qed

end
