(* ===== verification/FrontendServer.thy ===== *)
theory FrontendServer
  imports FrontendStream FrontendSession VenueRouterRuns
begin

text \<open>
  frontend/outbox.h and frontend/outbox.cc, frontend/transmitter.h and
  frontend/transmitter.cc, and the commands of frontend/server.cc. A session is the
  watcher it is; the server's state holds the Router, the Outbox and what each session
  watches.
\<close>

section \<open>The outbox\<close>

text \<open>A shared pointer to a stream is the stream under its id, where its Transmitter feeds it.\<close>

type_synonym Outbox = "(SubscriptionId \<times> Stream) list"

definition Outbox_Register :: "SubscriptionId \<Rightarrow> Stream \<Rightarrow> Outbox \<Rightarrow> Outbox result" where
  "Outbox_Register i stream ob =
     (if map_of ob i \<noteq> None
      then Inl (logic_error (''Live subscription '' @ nat_to_dec (unat i) @ '' is already registered''))
      else Inr (emplace (<) i stream ob))"

definition Outbox_Unregister :: "SubscriptionId \<Rightarrow> Outbox \<Rightarrow> Outbox" where
  "Outbox_Unregister i ob = erase (<) i ob"

definition Outbox_Find :: "SubscriptionId \<Rightarrow> Outbox \<Rightarrow> Stream option" where
  "Outbox_Find i ob = map_of ob i"

definition Outbox_Watch ::
    "(wire_event \<Rightarrow> byte list) \<Rightarrow> SubscriptionId \<Rightarrow> watcher \<Rightarrow> Outbox \<Rightarrow> (Outbox \<times> sends) \<times> bool" where
  "Outbox_Watch ser i w ob =
     (case Outbox_Find i ob of
        None \<Rightarrow> ((ob, []), False)
      | Some stream \<Rightarrow>
          (case Stream_Watch ser w stream of (stream, out) \<Rightarrow> ((insert_or_assign (<) i stream ob, out), True)))"

definition Outbox_Unwatch :: "SubscriptionId \<Rightarrow> watcher \<Rightarrow> Outbox \<Rightarrow> Outbox" where
  "Outbox_Unwatch i w ob =
     (case Outbox_Find i ob of
        None \<Rightarrow> ob
      | Some stream \<Rightarrow> insert_or_assign (<) i (Stream_Unwatch w stream) ob)"

section \<open>The transmitter\<close>

definition Transmitter_new ::
    "(wire_event \<Rightarrow> byte list) \<Rightarrow> SubscriptionId \<Rightarrow> string \<Rightarrow> BookSpec \<Rightarrow> PairPrecision \<Rightarrow> Outbox \<Rightarrow> Outbox result" where
  "Transmitter_new ser i venue book precision ob =
     (if SinkOf i \<noteq> kLive
      then Inl (logic_error (''Subscription '' @ nat_to_dec (unat i) @ '' is not a live feed''))
      else Outbox_Register i (Stream_new ser i venue book precision) ob)"

definition Transmitter_destroy :: "SubscriptionId \<Rightarrow> Outbox \<Rightarrow> Outbox" where
  "Transmitter_destroy i ob = Outbox_Unregister i ob"

definition on_stream :: "(Stream \<Rightarrow> Stream \<times> sends) \<Rightarrow> SubscriptionId \<Rightarrow> Outbox \<Rightarrow> Outbox \<times> sends" where
  "on_stream f i ob =
     (case map_of ob i of
        None \<Rightarrow> (ob, [])
      | Some stream \<Rightarrow> (case f stream of (stream, out) \<Rightarrow> (insert_or_assign (<) i stream ob, out)))"

definition Transmitter_Receive :: "(wire_event \<Rightarrow> byte list) \<Rightarrow> Message \<Rightarrow> SubscriptionId \<Rightarrow> Outbox \<Rightarrow> Outbox \<times> sends" where
  "Transmitter_Receive ser message = on_stream (Stream_Receive ser message)"

definition Transmitter_OnGap :: "Gap \<Rightarrow> SubscriptionId \<Rightarrow> Outbox \<Rightarrow> Outbox \<times> sends" where
  "Transmitter_OnGap gap = on_stream (Stream_Interrupt gap)"

section \<open>The commands\<close>

datatype command =
    COMMAND_NOT_SET
  | kStart enum string u32 enum
  | kStop SubscriptionId enum
  | kList
  | kWatch SubscriptionId
  | kUnwatch
  | kListPairs enum
  | kListVenues

record ClientCommand =
  cc_request_id :: u64
  cc_command :: command

text \<open>\<open>watched\<close> is every session's \<^verbatim>\<open>watched_id\<close>, 0 for none.\<close>

record 'm Server =
  sv_router :: "'m Router"
  sv_outbox :: Outbox
  watched :: "watcher \<Rightarrow> SubscriptionId"

definition ToResult :: "'a expected \<Rightarrow> ('a \<Rightarrow> wire_CommandResult) \<Rightarrow> wire_CommandResult" where
  "ToResult outcome on_success =
     (case outcome of
        Inl e \<Rightarrow> \<lparr>cr_request_id = 0, cr_result = kError (MakeCommandError e)\<rparr>
      | Inr a \<Rightarrow> on_success a)"

definition result_of :: "wire_result \<Rightarrow> wire_CommandResult" where
  "result_of r = \<lparr>cr_request_id = 0, cr_result = r\<rparr>"

text \<open>\<open>first\<close> gives the state of a venue's manager when a \<^verbatim>\<open>Subscribe\<close> first locks it.\<close>

definition Server_Start ::
    "(Id \<Rightarrow> ('e, 'm) Manager) \<Rightarrow> 'e \<Rightarrow> (Id \<Rightarrow> 'm) \<Rightarrow> enum \<Rightarrow> string \<Rightarrow> u32 \<Rightarrow> enum \<Rightarrow> 'm Server \<Rightarrow>
       'm Server \<times> wire_CommandResult result" where
  "Server_Start mgr e first venue symbol d sink sv =
     (case (FromWire_Id venue, FromWire_Sink sink) of
        (Some v, Some k) \<Rightarrow>
          (case Router_Subscribe mgr k e (first v) v \<lparr>bs_symbol = symbol, bs_depth = d\<rparr> (sv_router sv) of
             (r, Inl ex) \<Rightarrow> (sv\<lparr>sv_router := r\<rparr>, Inl ex)
           | (r, Inr outcome) \<Rightarrow> (sv\<lparr>sv_router := r\<rparr>, Inr (ToResult outcome (\<lambda>i. result_of (kStartedId i)))))
      | _ \<Rightarrow> (sv, Inr (CommandFailure CODE_INVALID_COMMAND ''Start needs a known venue and sink'')))"

definition Server_Stop ::
    "(Id \<Rightarrow> ('e, 'm) Manager) \<Rightarrow> SubscriptionId \<Rightarrow> enum \<Rightarrow> 'm Server \<Rightarrow> 'm Server \<times> wire_CommandResult" where
  "Server_Stop mgr i sink sv =
     (case FromWire_Sink sink of
        None \<Rightarrow> (sv, CommandFailure CODE_INVALID_COMMAND ''Stop needs a known sink'')
      | Some k \<Rightarrow>
          if SinkOf i \<noteq> k
          then (sv, CommandFailure CODE_SINK_MISMATCH
                 (''Subscription '' @ nat_to_dec (unat i) @ '' is not '' @ SinkName k))
          else (case Router_Unsubscribe mgr i (sv_router sv) of
                  (r, outcome) \<Rightarrow> (sv\<lparr>sv_router := r\<rparr>, ToResult outcome (\<lambda>_. CommandOk))))"

definition Server_List :: "(Id \<Rightarrow> ('e, 'm) Manager) \<Rightarrow> 'm Server \<Rightarrow> wire_CommandResult" where
  "Server_List mgr sv =
     result_of (kSubscriptions (map (\<lambda>listing. let s = ls_subscription listing in
       \<lparr>ws_id = si_id s, ws_venue = ToWire_Id (ls_venue listing), ws_symbol = bs_symbol (si_book s),
        ws_depth = bs_depth (si_book s), ws_sink = ToWire_Sink (SinkOf (si_id s)), ws_start_time_ns = si_start_time_ns s\<rparr>)
       (Router_List mgr (sv_router sv))))"

definition Server_Watch ::
    "(wire_event \<Rightarrow> byte list) \<Rightarrow> (Id \<Rightarrow> ('e, 'm) Manager) \<Rightarrow> watcher \<Rightarrow> SubscriptionId \<Rightarrow> 'm Server \<Rightarrow>
       ('m Server \<times> sends) \<times> wire_CommandResult" where
  "Server_Watch ser mgr session i sv =
     (case Outbox_Watch ser i session (sv_outbox sv) of
        ((_, _), False) \<Rightarrow>
          ((sv, []),
           if \<exists>listing \<in> set (Router_List mgr (sv_router sv)). si_id (ls_subscription listing) = i \<and>
                SinkOf (si_id (ls_subscription listing)) = kRecord
           then CommandFailure CODE_SINK_MISMATCH
             (''Subscription '' @ nat_to_dec (unat i) @ '' is a recording, not a live feed'')
           else CommandFailure CODE_UNKNOWN_ID (''No live subscription '' @ nat_to_dec (unat i)))
      | ((ob, out), True) \<Rightarrow>
          let before = watched sv session;
              ob = (if before \<noteq> 0 \<and> before \<noteq> i then Outbox_Unwatch before session ob else ob)
          in ((sv\<lparr>sv_outbox := ob, watched := (watched sv)(session := i)\<rparr>, out), CommandOk))"

text \<open>\<^verbatim>\<open>Unwatch\<close>, and what \<^verbatim>\<open>Forget\<close> does of it on the command strand.\<close>

definition unwatch_session :: "watcher \<Rightarrow> 'm Server \<Rightarrow> 'm Server" where
  "unwatch_session session sv =
     (if watched sv session \<noteq> 0
      then sv\<lparr>sv_outbox := Outbox_Unwatch (watched sv session) session (sv_outbox sv),
              watched := (watched sv)(session := 0)\<rparr>
      else sv)"

definition Server_Unwatch :: "watcher \<Rightarrow> 'm Server \<Rightarrow> 'm Server \<times> wire_CommandResult" where
  "Server_Unwatch session sv = (unwatch_session session sv, CommandOk)"

definition Server_ListPairs ::
    "(Id \<Rightarrow> ('e, 'm) Manager) \<Rightarrow> 'e \<Rightarrow> enum \<Rightarrow> 'm Server \<Rightarrow> 'm Server \<times> wire_CommandResult" where
  "Server_ListPairs mgr e venue sv =
     (case FromWire_Id venue of
        None \<Rightarrow> (sv, CommandFailure CODE_INVALID_COMMAND ''ListPairs needs a known venue'')
      | Some v \<Rightarrow>
          (case Router_ListPairs mgr e v (sv_router sv) of
             (r, outcome) \<Rightarrow>
               (sv\<lparr>sv_router := r\<rparr>, ToResult outcome (\<lambda>pairs. result_of (kPairs (pl_symbols pairs) (pl_depths pairs))))))"

definition Server_ListVenues :: "(Id \<Rightarrow> ('e, 'm) Manager) \<Rightarrow> 'm Server \<Rightarrow> wire_CommandResult" where
  "Server_ListVenues mgr sv =
     result_of (kVenues (map (\<lambda>st.
       \<lparr>vi_venue = ToWire_Id (vs_venue st), vi_name = vs_name st, vi_connected = vs_connected st\<rparr>)
       (Router_ListVenues mgr (sv_router sv))))"

definition Server_Run ::
    "(wire_event \<Rightarrow> byte list) \<Rightarrow> (Id \<Rightarrow> ('e, 'm) Manager) \<Rightarrow> 'e \<Rightarrow> (Id \<Rightarrow> 'm) \<Rightarrow> watcher \<Rightarrow> command \<Rightarrow> 'm Server \<Rightarrow>
       ('m Server \<times> sends) \<times> wire_CommandResult" where
  "Server_Run ser mgr e first session command sv =
     (case command of
        kStart venue symbol d sink \<Rightarrow>
          (case Server_Start mgr e first venue symbol d sink sv of
             (sv, Inr result) \<Rightarrow> ((sv, []), result)
           | (sv, Inl ex) \<Rightarrow> ((sv, []), CommandFailure CODE_VENUE_FAILED (what ex)))
      | kStop i sink \<Rightarrow> (case Server_Stop mgr i sink sv of (sv, result) \<Rightarrow> ((sv, []), result))
      | kList \<Rightarrow> ((sv, []), Server_List mgr sv)
      | kWatch i \<Rightarrow> Server_Watch ser mgr session i sv
      | kUnwatch \<Rightarrow> (case Server_Unwatch session sv of (sv, result) \<Rightarrow> ((sv, []), result))
      | kListPairs venue \<Rightarrow> (case Server_ListPairs mgr e venue sv of (sv, result) \<Rightarrow> ((sv, []), result))
      | kListVenues \<Rightarrow> ((sv, []), Server_ListVenues mgr sv)
      | COMMAND_NOT_SET \<Rightarrow>
          ((sv, []), CommandFailure CODE_INVALID_COMMAND ''No command, or one this backend does not know''))"

text \<open>The result goes out last, under the request's id.\<close>

definition Server_Execute ::
    "(wire_event \<Rightarrow> byte list) \<Rightarrow> (Id \<Rightarrow> ('e, 'm) Manager) \<Rightarrow> 'e \<Rightarrow> (Id \<Rightarrow> 'm) \<Rightarrow> watcher \<Rightarrow> ClientCommand \<Rightarrow> 'm Server \<Rightarrow>
       'm Server \<times> sends" where
  "Server_Execute ser mgr e first session command sv =
     (case Server_Run ser mgr e first session (cc_command command) sv of
        ((sv, out), result) \<Rightarrow>
          (sv, out @ [(session, MakePayload ser (EvResult (result\<lparr>cr_request_id := cc_request_id command\<rparr>)))]))"

end
