(* ===== verification/FrontendServerRuns.thy ===== *)
theory FrontendServerRuns
  imports FrontendServer
begin

text \<open>
  What the Server keeps true, whatever clients send it and however its commands and the
  live feeds interleave: a session is sent the books of the one subscription it watches,
  and a command touches no subscription but the one it names.
\<close>

section \<open>Runs\<close>

text \<open>
  A run of the server, with a bound on the commands executed: a command of any session,
  a session let go, the transmitters of live subscriptions coming, going and feeding
  their streams, and what the Router and the venues do on their own.
\<close>

inductive server_reach ::
    "(wire_event \<Rightarrow> byte list) \<Rightarrow> (Id \<Rightarrow> ('e, 'm) Manager) \<Rightarrow> (Id \<Rightarrow> 'm \<Rightarrow> 'm \<Rightarrow> bool) \<Rightarrow> (Id \<times> 'm) list \<Rightarrow> nat \<Rightarrow>
       'm Server \<Rightarrow> bool"
  for ser :: "wire_event \<Rightarrow> byte list" and mgr :: "Id \<Rightarrow> ('e, 'm) Manager"
    and moves :: "Id \<Rightarrow> 'm \<Rightarrow> 'm \<Rightarrow> bool" and ms :: "(Id \<times> 'm) list" where
  srv_new: "server_reach ser mgr moves ms 0 \<lparr>sv_router = Router_new ms, sv_outbox = [], watched = \<lambda>_. 0\<rparr>"
| srv_run: "server_reach ser mgr moves ms n sv \<Longrightarrow>
     Server_Run ser mgr e first session command sv = ((sv', out), result) \<Longrightarrow> server_reach ser mgr moves ms (Suc n) sv'"
| srv_forget: "server_reach ser mgr moves ms n sv \<Longrightarrow> server_reach ser mgr moves ms n (unwatch_session session sv)"
| srv_live: "server_reach ser mgr moves ms n sv \<Longrightarrow> i \<noteq> 0 \<Longrightarrow>
     Transmitter_new ser i venue book precision (sv_outbox sv) = Inr ob \<Longrightarrow>
     server_reach ser mgr moves ms n (sv\<lparr>sv_outbox := ob\<rparr>)"
| srv_over: "server_reach ser mgr moves ms n sv \<Longrightarrow>
     server_reach ser mgr moves ms n (sv\<lparr>sv_outbox := Transmitter_destroy i (sv_outbox sv)\<rparr>)"
| srv_message: "server_reach ser mgr moves ms n sv \<Longrightarrow> Transmitter_Receive ser message i (sv_outbox sv) = (ob, out) \<Longrightarrow>
     server_reach ser mgr moves ms n (sv\<lparr>sv_outbox := ob\<rparr>)"
| srv_gap: "server_reach ser mgr moves ms n sv \<Longrightarrow> Transmitter_OnGap gap i (sv_outbox sv) = (ob, out) \<Longrightarrow>
     server_reach ser mgr moves ms n (sv\<lparr>sv_outbox := ob\<rparr>)"
| srv_supervise: "server_reach ser mgr moves ms n sv \<Longrightarrow>
     supervise_pass mgr backoff es now failed_at (managers (sv_router sv)) retries = (ms', retries') \<Longrightarrow>
     server_reach ser mgr moves ms n (sv\<lparr>sv_router := (sv_router sv)\<lparr>managers := ms'\<rparr>\<rparr>)"
| srv_venue: "server_reach ser mgr moves ms n sv \<Longrightarrow> map_of (managers (sv_router sv)) venue = Some m \<Longrightarrow>
     moves venue m m' \<Longrightarrow> server_reach ser mgr moves ms n (sv\<lparr>sv_router := put venue m' (sv_router sv)\<rparr>)"

section \<open>Watching\<close>

text \<open>Whoever a stream sends to watches it.\<close>

definition watch_ok :: "'m Server \<Rightarrow> bool" where
  "watch_ok sv \<longleftrightarrow> ordered (<) (sv_outbox sv) \<and>
     (\<forall>i s. map_of (sv_outbox sv) i = Some s \<longrightarrow>
        i \<noteq> 0 \<and> SinkOf i = kLive \<and> (\<forall>w \<in> set (watchers s). watched sv w = i))"

lemma stream_watchers:
  "Stream_Receive ser m s = (s', out) \<Longrightarrow> watchers s' = watchers s"
  "Stream_Interrupt g s = (s', out) \<Longrightarrow> watchers s' = watchers s"
  "Stream_Watch ser w s = (s', out) \<Longrightarrow> set (watchers s') = insert w (set (watchers s))"
  "set (watchers (Stream_Unwatch w s)) = set (watchers s) - {w}"
  "watchers (Stream_new ser i venue book precision) = []"
  by (auto simp: Stream_Receive_def Stream_Interrupt_def Stream_Watch_def Stream_Unwatch_def Stream_new_def Let_def
      split: if_splits)

lemma on_stream_ok:
  assumes "watch_ok sv" and "on_stream f i (sv_outbox sv) = (ob, out)"
    and "\<And>s s' out. f s = (s', out) \<Longrightarrow> watchers s' = watchers s"
  shows "watch_ok (sv\<lparr>sv_outbox := ob\<rparr>)"
proof (cases "map_of (sv_outbox sv) i")
  case None
  then show ?thesis using assms(1,2) by (auto simp: on_stream_def watch_ok_def)
next
  case (Some s)
  then obtain s' where "f s = (s', out)" "ob = insert_or_assign (<) i s' (sv_outbox sv)"
    using assms(2) by (auto simp: on_stream_def split: prod.splits)
  moreover from this have "watchers s' = watchers s" using assms(3) by blast
  ultimately show ?thesis
    using assms(1) Some
    by (auto simp: watch_ok_def map_ops)
qed

lemma Unwatch_ok:
  assumes "ordered (<) ob"
  shows "ordered (<) (Outbox_Unwatch i w ob)"
    "map_of (Outbox_Unwatch i w ob) j = (if j = i then map_option (Stream_Unwatch w) (map_of ob i) else map_of ob j)"
  using assms
  by (auto simp: Outbox_Unwatch_def Outbox_Find_def map_ops
      split: option.split)

lemma unwatch_session_ok:
  assumes "watch_ok sv"
  shows "watch_ok (unwatch_session w sv)" "watched (unwatch_session w sv) w = 0"
  using assms Unwatch_ok [of "sv_outbox sv" "watched sv w" w]
  by (auto simp: unwatch_session_def watch_ok_def stream_watchers split: if_splits)

lemma Server_Watch_ok:
  assumes ok: "watch_ok sv" and run: "Server_Watch ser mgr w i sv = ((sv', out), result)"
  shows "watch_ok sv'"
proof (cases "map_of (sv_outbox sv) i")
  case None
  then show ?thesis using ok run by (auto simp: Server_Watch_def Outbox_Watch_def Outbox_Find_def)
next
  case (Some s)
  obtain s' where s': "Stream_Watch ser w s = (s', out)"
    using run Some by (auto simp: Server_Watch_def Outbox_Watch_def Outbox_Find_def Let_def split: prod.splits)
  let ?ob = "insert_or_assign (<) i s' (sv_outbox sv)"
  let ?after = "if watched sv w \<noteq> 0 \<and> watched sv w \<noteq> i then Outbox_Unwatch (watched sv w) w ?ob else ?ob"
  have sv': "sv' = sv\<lparr>sv_outbox := ?after, watched := (watched sv)(w := i)\<rparr>"
    using run Some s' by (auto simp: Server_Watch_def Outbox_Watch_def Outbox_Find_def Let_def)
  have sorted: "ordered (<) ?ob" using ok by (simp add: watch_ok_def map_ops)
  have look: "map_of ?ob = (map_of (sv_outbox sv))(i \<mapsto> s')" by (simp add: map_ops)
  have "i \<noteq> 0 \<and> SinkOf i = kLive" "\<forall>v \<in> set (watchers s). watched sv v = i" using ok Some by (auto simp: watch_ok_def)
  then show ?thesis
    using ok Unwatch_ok [OF sorted] sorted stream_watchers(3) [OF s'] unfolding sv'
    by (auto simp: watch_ok_def look stream_watchers split: if_splits)
qed

lemma Server_Run_router_only:
  assumes "\<And>i. command \<noteq> kWatch i" and "command \<noteq> kUnwatch"
    and "Server_Run ser mgr e first w command sv = ((sv', out), result)"
  shows "sv' = sv\<lparr>sv_router := sv_router sv'\<rparr> \<and> out = []"
  using assms
  by (cases command)
    (auto simp: Server_Run_def Server_Start_def Server_Stop_def Server_ListPairs_def
      split: option.splits prod.splits sum.splits if_splits)

lemma watch_ok_router [simp]: "watch_ok (sv\<lparr>sv_router := r\<rparr>) = watch_ok sv"
  by (simp add: watch_ok_def)

lemma Server_Run_watch_ok:
  assumes ok: "watch_ok sv" and run: "Server_Run ser mgr e first w command sv = ((sv', out), result)"
  shows "watch_ok sv'"
proof -
  consider i where "command = kWatch i" | "command = kUnwatch" | "\<forall>i. command \<noteq> kWatch i" "command \<noteq> kUnwatch" by blast
  then show ?thesis
  proof cases
    case 1
    then show ?thesis using run Server_Watch_ok [OF ok] by (simp add: Server_Run_def)
  next
    case 2
    then show ?thesis using run unwatch_session_ok(1) [OF ok] by (auto simp: Server_Run_def Server_Unwatch_def)
  next
    case 3
    then have "sv' = sv\<lparr>sv_router := sv_router sv'\<rparr>" using Server_Run_router_only [OF _ _ run] by blast
    then show ?thesis using ok watch_ok_router by metis
  qed
qed

lemma reach_watch_ok: "server_reach ser mgr moves ms n sv \<Longrightarrow> watch_ok sv"
proof (induction rule: server_reach.induct)
  case (srv_live n sv i venue book precision ob)
  then have "SinkOf i = kLive" "map_of (sv_outbox sv) i = None"
    "ob = emplace (<) i (Stream_new ser i venue book precision) (sv_outbox sv)"
    by (auto simp: Transmitter_new_def Outbox_Register_def split: if_splits)
  then show ?case
    using srv_live.IH srv_live.hyps(2)
    by (auto simp: watch_ok_def map_ops stream_watchers)
next
  case (srv_over n sv i)
  then show ?case
    by (auto simp: watch_ok_def Transmitter_destroy_def Outbox_Unregister_def map_ops
        split: if_splits)
next
  case (srv_message n sv message i ob out)
  then show ?case
    unfolding Transmitter_Receive_def using on_stream_ok stream_watchers(1) by metis
next
  case (srv_gap n sv gap i ob out)
  then show ?case
    unfolding Transmitter_OnGap_def using on_stream_ok stream_watchers(2) by metis
qed (simp_all add: watch_ok_def [where sv = "\<lparr>sv_router = _, sv_outbox = [], watched = _\<rparr>"] Server_Run_watch_ok
  unwatch_session_ok)

section \<open>The Router behind the commands\<close>

lemma Server_Run_router:
  assumes reach: "router_reach mgr moves ms k (sv_router sv)"
    and run: "Server_Run ser mgr e first w command sv = ((sv', out), result)"
  shows "\<exists>k'. k' \<le> Suc k \<and> router_reach mgr moves ms k' (sv_router sv')"
proof -
  have up: ?thesis if "router_reach mgr moves ms k (sv_router sv')" using that by (intro exI [of _ k]) simp
  then have same: ?thesis if "sv_router sv' = sv_router sv" using reach that by simp
  show ?thesis
  proof (cases command)
    case (kStart venue symbol d sink)
    show ?thesis
    proof (cases "FromWire_Id venue = None \<or> FromWire_Sink sink = None")
      case True
      then show ?thesis using run same kStart by (auto simp: Server_Run_def Server_Start_def split: option.splits)
    next
      case False
      then obtain v t where v: "FromWire_Id venue = Some v" "FromWire_Sink sink = Some t" by auto
      let ?call = "Router_Subscribe mgr t e (first v) v \<lparr>bs_symbol = symbol, bs_depth = d\<rparr> (sv_router sv)"
      have "sv_router sv' = fst ?call"
        using run v kStart by (auto simp: Server_Run_def Server_Start_def split: prod.splits sum.splits)
      then show ?thesis using run_Subscribe [OF reach, of t e "first v" v _ "fst ?call" "snd ?call"] by auto
    qed
  next
    case (kStop i sink)
    have "sv_router sv' = sv_router sv \<or> sv_router sv' = fst (Router_Unsubscribe mgr i (sv_router sv))"
      using run kStop by (auto simp: Server_Run_def Server_Stop_def split: prod.splits option.splits if_splits)
    then show ?thesis
      using same up run_Unsubscribe [OF reach surjective_pairing, of i] by auto
  next
    case (kListPairs venue)
    have "sv_router sv' = sv_router sv \<or> (\<exists>v. sv_router sv' = fst (Router_ListPairs mgr e v (sv_router sv)))"
      using run kListPairs
      by (cases "FromWire_Id venue") (auto simp: Server_Run_def Server_ListPairs_def case_prod_beta)
    then show ?thesis
      using same up run_ListPairs [OF reach surjective_pairing] by auto
  next
    case (kWatch i)
    have "sv_router sv' = sv_router sv"
      using run kWatch by (auto simp: Server_Run_def Server_Watch_def Let_def split: prod.splits bool.splits)
    then show ?thesis by (rule same)
  qed (use run same in \<open>auto simp: Server_Run_def Server_Unwatch_def unwatch_session_def\<close>)
qed

lemma reach_router:
  "server_reach ser mgr moves ms n sv \<Longrightarrow> \<exists>k \<le> n. router_reach mgr moves ms k (sv_router sv)"
proof (induction rule: server_reach.induct)
  case srv_new
  then show ?case using run_start by fastforce
next
  case (srv_run n sv e first session command sv' out result)
  then obtain k where "k \<le> n" "router_reach mgr moves ms k (sv_router sv)" by blast
  with Server_Run_router [OF this(2) srv_run.hyps(2)] show ?case by (meson Suc_le_mono le_trans)
next
  case (srv_forget n sv session)
  then show ?case by (simp add: unwatch_session_def)
next
  case (srv_supervise n sv backoff es now failed_at retries ms' retries')
  then show ?case using run_supervise by (metis Server.select_convs(1) Server.surjective Server.update_convs(1))
next
  case (srv_venue n sv venue m m')
  then show ?case using run_venue by (metis Server.select_convs(1) Server.surjective Server.update_convs(1))
qed simp_all

section \<open>Properties\<close>

text \<open>
  Over every run of the server: a session is among the watchers of no stream but the
  live subscription it watches last, and of none once it stopped watching or was let go;
  so what a subscription's messages and gaps send goes only to sessions watching it.
\<close>

theorem sessions_watch_one_feed:
  assumes "server_reach ser mgr moves ms n sv" and "map_of (sv_outbox sv) i = Some s"
  shows "SinkOf i = kLive \<and> i \<noteq> 0 \<and> (\<forall>w \<in> set (watchers s). watched sv w = i) \<and>
    (\<forall>message ob out. Transmitter_Receive ser message i (sv_outbox sv) = (ob, out) \<longrightarrow>
       (\<forall>(w, payload) \<in> set out. watched sv w = i)) \<and>
    (\<forall>gap ob out. Transmitter_OnGap gap i (sv_outbox sv) = (ob, out) \<longrightarrow>
       (\<forall>(w, payload) \<in> set out. watched sv w = i)) \<and>
    (\<forall>w j t. map_of (sv_outbox (unwatch_session w sv)) j = Some t \<longrightarrow> w \<notin> set (watchers t))"
proof -
  have ok: "watch_ok sv" by (rule reach_watch_ok [OF assms(1)])
  have at_i: "SinkOf i = kLive \<and> i \<noteq> 0 \<and> (\<forall>w \<in> set (watchers s). watched sv w = i)"
    using ok assms(2) by (simp add: watch_ok_def)
  have gone: "w \<notin> set (watchers t)" if "map_of (sv_outbox (unwatch_session w sv)) j = Some t" for w j t
    using unwatch_session_ok [OF ok, of w] that by (auto simp: watch_ok_def)
  have out: "\<forall>(w, payload) \<in> set out. w \<in> set (watchers s)"
    if "f = Stream_Receive ser message \<or> f = Stream_Interrupt gap" "on_stream f i (sv_outbox sv) = (ob, out)"
    for f message gap ob out
    using that assms(2)
    by (auto simp: on_stream_def Stream_Receive_def Stream_Interrupt_def Stream_SendLocked_def Let_def
        split: prod.splits if_splits)
  show ?thesis
    using at_i out gone unfolding Transmitter_Receive_def Transmitter_OnGap_def by (intro conjI allI impI) blast+
qed

definition demo_server :: "venue_state Server" where
  "demo_server = \<lparr>sv_router = Router_new (main_venues demo_answer),
     sv_outbox = [(65536, Stream_new (\<lambda>_. []) 65536 ''kraken'' demo_spec \<lparr>price_decimals = 1, qty_decimals = 2\<rparr>)],
     watched = \<lambda>_. 0\<rparr>"

abbreviation demo_run :: "command \<Rightarrow> venue_state Server \<Rightarrow> (venue_state Server \<times> sends) \<times> wire_CommandResult" where
  "demo_run command sv \<equiv>
     Server_Run (\<lambda>_. []) demo_managers demo_input (\<lambda>_. Inl (L2Manager_new demo_adapter ())) 3 command sv"

abbreviation demo_server_reach :: "nat \<Rightarrow> venue_state Server \<Rightarrow> bool" where
  "demo_server_reach \<equiv> server_reach (\<lambda>_. []) demo_managers (main_moves demo_answer (\<lambda>_ _ _. 0)) (main_venues demo_answer)"

lemma demo_server_reached: "demo_server_reach 0 demo_server"
proof -
  let ?new = "\<lparr>sv_router = Router_new (main_venues demo_answer), sv_outbox = [], watched = \<lambda>_. 0\<rparr>"
  let ?stream = "Stream_new (\<lambda>_. []) 65536 ''kraken'' demo_spec \<lparr>price_decimals = 1, qty_decimals = 2\<rparr>"
  have "Transmitter_new (\<lambda>_. []) 65536 ''kraken'' demo_spec \<lparr>price_decimals = 1, qty_decimals = 2\<rparr> (sv_outbox ?new) =
      Inr [(65536, ?stream)]"
    by (simp add: Transmitter_new_def Outbox_Register_def emplace_def SinkOf_def kLive_def)
  from srv_live [OF srv_new _ this] show ?thesis by (simp add: demo_server_def)
qed

theorem sessions_watch_one_feed_witness:
  "\<exists>s. map_of (sv_outbox (fst (fst (demo_run (kWatch 65536) demo_server)))) 65536 = Some s \<and> watchers s = [3] \<and>
     (\<forall>w \<in> set (watchers s). watched (fst (fst (demo_run (kWatch 65536) demo_server))) w = 65536)"
proof -
  let ?sv = "fst (fst (demo_run (kWatch 65536) demo_server))"
  let ?stream = "Stream_new (\<lambda>_. []) 65536 ''kraken'' demo_spec \<lparr>price_decimals = 1, qty_decimals = 2\<rparr>"
  have reach: "demo_server_reach 1 ?sv"
    using srv_run [OF demo_server_reached, of demo_input "\<lambda>_. Inl (L2Manager_new demo_adapter ())" 3 "kWatch 65536" ?sv]
    by (metis One_nat_def prod.collapse)
  have "map_of (sv_outbox ?sv) 65536 = Some (?stream\<lparr>watchers := [3]\<rparr>)"
    by (simp add: Server_Run_def Server_Watch_def Outbox_Watch_def Outbox_Find_def demo_server_def Stream_Watch_def
        Stream_new_def Let_def)
  then show ?thesis using sessions_watch_one_feed [OF reach] by fastforce
qed

text \<open>
  C13. Over every run of the server with Kraken and Coinbase of fewer than
  \<open>2 ^ 64 - 2\<close> commands, a command touches no subscription but the one it names: a Start
  adds one subscription of the venue, book and sink it asks for and answers its id, or
  none; a Stop ends the subscription with its id and only if the sink it names is that
  subscription's, and is answered by ok exactly then; no other command changes any.
\<close>

theorem commands_touch_what_they_name:
  assumes "server_reach ser (main_managers parse unspec) (main_moves parse unspec) (main_venues parse) n sv"
    and "n < 2 ^ 64 - 2"
    and "Server_Run ser (main_managers parse unspec) e first session command sv = ((sv', out), result)"
    and "before = subscribed (main_managers parse unspec) (sv_router sv)"
    and "after = subscribed (main_managers parse unspec) (sv_router sv')"
  shows "case command of
      kStart venue symbol d sink \<Rightarrow> after = before \<or>
        (\<exists>i started v. cr_result result = kStartedId i \<and> FromWire_Id venue = Some v \<and> VenueOf i = v \<and>
           FromWire_Sink sink = Some (SinkOf i) \<and> (\<forall>l \<in> before. si_id (ls_subscription l) \<noteq> i) \<and>
           after = insert \<lparr>ls_venue = v, ls_subscription =
             \<lparr>si_id = i, si_book = \<lparr>bs_symbol = symbol, bs_depth = d\<rparr>, si_start_time_ns = started\<rparr>\<rparr> before)
    | kStop i sink \<Rightarrow>
        after = (if FromWire_Sink sink = Some (SinkOf i) then {l \<in> before. si_id (ls_subscription l) \<noteq> i} else before) \<and>
        (cr_result result = kOk \<longleftrightarrow>
           FromWire_Sink sink = Some (SinkOf i) \<and> (\<exists>l \<in> before. si_id (ls_subscription l) = i))
    | _ \<Rightarrow> after = before"
proof -
  let ?mgr = "main_managers parse unspec"
  obtain k where k: "k \<le> n" "router_reach ?mgr (main_moves parse unspec) (main_venues parse) k (sv_router sv)"
    using reach_router [OF assms(1)] by blast
  have ok: "router_ok ?mgr (main_ok parse) (sv_router sv)" "0 < next_counter (sv_router sv)"
    "unat (next_counter (sv_router sv)) \<le> k + 1"
    using main_router.reach_router_ok [OF k(2) main_venues_ok] assms(2) k(1) by simp_all
  have "unat (next_counter (sv_router sv)) + 1 < 2 ^ 64" using ok(3) assms(2) k(1) by simp
  then have less: "next_counter (sv_router sv) < next_counter (sv_router sv) + 1"
    by (simp add: word_less_nat_alt unat_word_ariths)
  note sub = main_router.Router_Subscribe_ok [OF ok(1,2) less]
  note unsub = main_router.Router_Unsubscribe_ok [OF ok(1)]
  note pairs = main_router.Router_ListPairs_ok [OF ok(1)]
  have same: "after = before" if "sv_router sv' = sv_router sv" using that assms(4,5) by simp
  show ?thesis
  proof (cases command)
    case (kStart venue symbol d sink)
    show ?thesis
    proof (cases "FromWire_Id venue = None \<or> FromWire_Sink sink = None")
      case True
      then have "sv_router sv' = sv_router sv"
        using assms(3) kStart by (auto simp: Server_Run_def Server_Start_def split: option.splits)
      with same kStart show ?thesis by simp
    next
      case False
      then obtain v t where v: "FromWire_Id venue = Some v" "FromWire_Sink sink = Some t" by auto
      obtain r answer where call:
        "Router_Subscribe ?mgr t e (first v) v \<lparr>bs_symbol = symbol, bs_depth = d\<rparr> (sv_router sv) = (r, answer)"
        by fastforce
      have r: "sv_router sv' = r" "\<And>i. answer = Inr (Inr i) \<Longrightarrow> cr_result result = kStartedId i"
        using assms(3) v kStart call
        by (auto simp: Server_Run_def Server_Start_def ToResult_def result_of_def split: sum.splits)
      have "after = before \<or> (\<exists>i started. answer = Inr (Inr i) \<and> VenueOf i = v \<and> SinkOf i = t \<and>
          (\<forall>l \<in> before. si_id (ls_subscription l) \<noteq> i) \<and>
          after = insert (at v \<lparr>si_id = i, si_book = \<lparr>bs_symbol = symbol, bs_depth = d\<rparr>, si_start_time_ns = started\<rparr>) before)"
        using sub [OF call] assms(4,5) r(1) by (auto split: sum.splits)
      then show ?thesis using r(2) v kStart by (auto simp: at_def)
    qed
  next
    case (kStop i sink)
    show ?thesis
    proof (cases "FromWire_Sink sink = Some (SinkOf i)")
      case True
      obtain r gone where call: "Router_Unsubscribe ?mgr i (sv_router sv) = (r, gone)" by fastforce
      have r: "sv_router sv' = r" "cr_result result = kOk \<longleftrightarrow> gone = Inr ()"
        using assms(3) True kStop call
        by (auto simp: Server_Run_def Server_Stop_def ToResult_def CommandOk_def split: sum.splits)
      show ?thesis
        using unsub [OF call] True kStop r assms(4,5) by (auto simp: Failure_def split: if_splits)
    next
      case False
      then have "sv_router sv' = sv_router sv" "cr_result result \<noteq> kOk"
        using assms(3) kStop
        by (auto simp: Server_Run_def Server_Stop_def CommandFailure_def split: option.splits if_splits)
      with same kStop False show ?thesis by simp
    qed
  next
    case (kListPairs venue)
    have "sv_router sv' = sv_router sv \<or> (\<exists>v. sv_router sv' = fst (Router_ListPairs ?mgr e v (sv_router sv)))"
      using assms(3) kListPairs
      by (cases "FromWire_Id venue") (auto simp: Server_Run_def Server_ListPairs_def case_prod_beta)
    then have "after = before" using same pairs [OF surjective_pairing] assms(4,5) by auto
    with kListPairs show ?thesis by simp
  next
    case (kWatch i)
    have "sv_router sv' = sv_router sv"
      using assms(3) kWatch by (auto simp: Server_Run_def Server_Watch_def Let_def split: prod.splits bool.splits)
    with same kWatch show ?thesis by simp
  next
    case kUnwatch
    have "sv_router sv' = sv_router sv"
      using assms(3) kUnwatch by (auto simp: Server_Run_def Server_Unwatch_def unwatch_session_def)
    with same kUnwatch show ?thesis by simp
  qed (use assms(3) same in \<open>auto simp: Server_Run_def\<close>)
qed

theorem commands_touch_what_they_name_witness:
  "subscribed demo_managers (sv_router (fst (fst (demo_run (kStop 1 SINK_RECORD) demo_server)))) = {} \<and>
   cr_result (snd (demo_run (kStop 1 SINK_RECORD) demo_server)) \<noteq> kOk"
proof -
  have none: "subscribed demo_managers (sv_router demo_server) = {}"
    using main_router.router_ok_new(2) main_venues_ok by (simp add: demo_server_def)
  have "FromWire_Sink SINK_RECORD = Some (SinkOf 1)" by (simp add: FromWire_Sink_def SinkOf_def kRecord_def)
  moreover have run: "demo_run (kStop 1 SINK_RECORD) demo_server =
      ((fst (fst (demo_run (kStop 1 SINK_RECORD) demo_server)), snd (fst (demo_run (kStop 1 SINK_RECORD) demo_server))),
       snd (demo_run (kStop 1 SINK_RECORD) demo_server))" by simp
  note commands_touch_what_they_name [OF demo_server_reached _ run refl refl]
  ultimately show ?thesis by (simp add: none)
qed

end
