(* ===== verification/FrontendWatching.thy ===== *)
theory FrontendWatching
  imports FrontendServerRuns
begin

text \<open>
  Watching and unwatching at the points where other threads come in between: the Outbox
  holds its lock only to look a stream up (frontend/outbox.h), so a stream found may lose
  its Transmitter before it is called, and a session that watches another feed is among the
  watchers of both until it has left the first. Streams are shared: they are values of a
  heap, and a shared pointer is an index.
\<close>

section \<open>The code in steps\<close>

text \<open>
  Where a session's command strand is: it found the stream to watch; it is among its
  watchers; it found the one watched before; it found the one to unwatch.
\<close>

datatype watch_at =
    Resting
  | WatchFound SubscriptionId nat
  | Added SubscriptionId
  | BeforeFound SubscriptionId nat
  | Leaving nat

record Watching =
  wt_heap :: "Stream list"
  wt_outbox :: "(SubscriptionId \<times> nat) list"
  wt_watched :: "watcher \<Rightarrow> SubscriptionId"
  wt_at :: "watcher \<Rightarrow> watch_at"

definition Watching_new :: Watching where
  "Watching_new = \<lparr>wt_heap = [], wt_outbox = [], wt_watched = (\<lambda>_. 0), wt_at = (\<lambda>_. Resting)\<rparr>"

text \<open>The Transmitters: only the one registered under an id calls its stream.\<close>

definition shared_Transmitter_new ::
    "(wire_event \<Rightarrow> byte list) \<Rightarrow> SubscriptionId \<Rightarrow> string \<Rightarrow> BookSpec \<Rightarrow> PairPrecision \<Rightarrow> Watching \<Rightarrow> Watching result" where
  "shared_Transmitter_new ser i venue book precision s =
     (if SinkOf i \<noteq> kLive
      then Inl (logic_error (''Subscription '' @ nat_to_dec (unat i) @ '' is not a live feed''))
      else if map_of (wt_outbox s) i \<noteq> None
      then Inl (logic_error (''Live subscription '' @ nat_to_dec (unat i) @ '' is already registered''))
      else Inr (s\<lparr>wt_heap := wt_heap s @ [Stream_new ser i venue book precision],
                  wt_outbox := emplace (<) i (length (wt_heap s)) (wt_outbox s)\<rparr>))"

definition shared_Transmitter_destroy :: "SubscriptionId \<Rightarrow> Watching \<Rightarrow> Watching" where
  "shared_Transmitter_destroy i s = s\<lparr>wt_outbox := erase (<) i (wt_outbox s)\<rparr>"

definition on_shared :: "(Stream \<Rightarrow> Stream \<times> sends) \<Rightarrow> nat \<Rightarrow> Watching \<Rightarrow> Watching \<times> sends" where
  "on_shared f a s = (case f (wt_heap s ! a) of (stream, out) \<Rightarrow> (s\<lparr>wt_heap := (wt_heap s)[a := stream]\<rparr>, out))"

text \<open>\<^verbatim>\<open>Server::Watch\<close> and \<^verbatim>\<open>Server::Unwatch\<close>: the first look at the Outbox, then what a session goes on with.\<close>

definition Watch_begin :: "watcher \<Rightarrow> SubscriptionId \<Rightarrow> Watching \<Rightarrow> Watching" where
  "Watch_begin w i s =
     (case map_of (wt_outbox s) i of None \<Rightarrow> s | Some a \<Rightarrow> s\<lparr>wt_at := (wt_at s)(w := WatchFound i a)\<rparr>)"

definition Unwatch_begin :: "watcher \<Rightarrow> Watching \<Rightarrow> Watching" where
  "Unwatch_begin w s =
     (if wt_watched s w = 0 then s
      else let i = wt_watched s w; s = s\<lparr>wt_watched := (wt_watched s)(w := 0)\<rparr>
           in (case map_of (wt_outbox s) i of None \<Rightarrow> s | Some a \<Rightarrow> s\<lparr>wt_at := (wt_at s)(w := Leaving a)\<rparr>))"

definition Watch_over :: "watcher \<Rightarrow> SubscriptionId \<Rightarrow> Watching \<Rightarrow> Watching" where
  "Watch_over w i s = s\<lparr>wt_watched := (wt_watched s)(w := i), wt_at := (wt_at s)(w := Resting)\<rparr>"

definition Watch_next :: "(wire_event \<Rightarrow> byte list) \<Rightarrow> watcher \<Rightarrow> Watching \<Rightarrow> Watching \<times> sends" where
  "Watch_next ser w s =
     (case wt_at s w of
        Resting \<Rightarrow> (s, [])
      | WatchFound i a \<Rightarrow> on_shared (Stream_Watch ser w) a (s\<lparr>wt_at := (wt_at s)(w := Added i)\<rparr>)
      | Added i \<Rightarrow>
          let before = wt_watched s w
          in if before \<noteq> 0 \<and> before \<noteq> i
             then (case map_of (wt_outbox s) before of
                     None \<Rightarrow> (Watch_over w i s, [])
                   | Some b \<Rightarrow> (s\<lparr>wt_at := (wt_at s)(w := BeforeFound i b)\<rparr>, []))
             else (Watch_over w i s, [])
      | BeforeFound i b \<Rightarrow> on_shared (\<lambda>st. (Stream_Unwatch w st, [])) b (Watch_over w i s)
      | Leaving b \<Rightarrow> on_shared (\<lambda>st. (Stream_Unwatch w st, [])) b (s\<lparr>wt_at := (wt_at s)(w := Resting)\<rparr>))"

section \<open>Runs\<close>

text \<open>A strand runs one command at a time; the Router never gives an id twice.\<close>

inductive watching_step :: "(wire_event \<Rightarrow> byte list) \<Rightarrow> Watching \<Rightarrow> Watching \<Rightarrow> bool" for ser where
  wt_watch: "wt_at s w = Resting \<Longrightarrow> watching_step ser s (Watch_begin w i s)"
| wt_unwatch: "wt_at s w = Resting \<Longrightarrow> watching_step ser s (Unwatch_begin w s)"
| wt_next: "Watch_next ser w s = (s', out) \<Longrightarrow> watching_step ser s s'"
| wt_live: "i \<noteq> 0 \<Longrightarrow> i \<notin> st_id ` set (wt_heap s) \<Longrightarrow>
     shared_Transmitter_new ser i venue book precision s = Inr s' \<Longrightarrow> watching_step ser s s'"
| wt_ends: "watching_step ser s (shared_Transmitter_destroy i s)"
| wt_message: "map_of (wt_outbox s) i = Some a \<Longrightarrow> on_shared (Stream_Receive ser message) a s = (s', out) \<Longrightarrow>
     watching_step ser s s'"
| wt_gap: "map_of (wt_outbox s) i = Some a \<Longrightarrow> on_shared (Stream_Interrupt gap) a s = (s', out) \<Longrightarrow>
     watching_step ser s s'"

inductive watching_reach :: "(wire_event \<Rightarrow> byte list) \<Rightarrow> Watching \<Rightarrow> bool" for ser where
  wt_start: "watching_reach ser Watching_new"
| wt_more: "watching_reach ser s \<Longrightarrow> watching_step ser s s' \<Longrightarrow> watching_reach ser s'"

section \<open>Who is among a stream's watchers\<close>

definition wt_ids :: "Watching \<Rightarrow> SubscriptionId list" where
  "wt_ids s = map st_id (wt_heap s)"

text \<open>What a session watches, or is about to have watched, or has not left yet.\<close>

definition watches :: "Watching \<Rightarrow> watcher \<Rightarrow> SubscriptionId \<Rightarrow> bool" where
  "watches s w i =
     (case wt_at s w of
        Resting \<Rightarrow> wt_watched s w = i
      | WatchFound k a \<Rightarrow> wt_watched s w = i
      | Added k \<Rightarrow> i = k \<or> wt_watched s w = i
      | BeforeFound k b \<Rightarrow> i = k \<or> wt_watched s w = i
      | Leaving b \<Rightarrow> i = wt_ids s ! b)"

definition at_ok :: "SubscriptionId list \<Rightarrow> SubscriptionId \<Rightarrow> watch_at \<Rightarrow> bool" where
  "at_ok known now p \<longleftrightarrow> (now = 0 \<or> now \<in> set known) \<and>
     (case p of
        Resting \<Rightarrow> True
      | WatchFound k a \<Rightarrow> k \<noteq> 0 \<and> a < length known \<and> known ! a = k
      | Added k \<Rightarrow> k \<noteq> 0 \<and> k \<in> set known
      | BeforeFound k b \<Rightarrow> k \<noteq> 0 \<and> k \<in> set known \<and> k \<noteq> now \<and> b < length known \<and> known ! b = now
      | Leaving b \<Rightarrow> b < length known \<and> now = 0)"

definition watching_ok :: "Watching \<Rightarrow> bool" where
  "watching_ok s \<longleftrightarrow> ordered (<) (wt_outbox s) \<and> distinct (wt_ids s) \<and>
     (\<forall>w. at_ok (wt_ids s) (wt_watched s w) (wt_at s w)) \<and>
     (\<forall>i a. map_of (wt_outbox s) i = Some a \<longrightarrow>
        i \<noteq> 0 \<and> SinkOf i = kLive \<and> a < length (wt_ids s) \<and> wt_ids s ! a = i \<and>
        (\<forall>w. w \<in> set (watchers (wt_heap s ! a)) \<longleftrightarrow> watches s w i))"

lemma wt_ids_simps [simp]:
  "wt_ids (s\<lparr>wt_outbox := ob\<rparr>) = wt_ids s" "wt_ids (s\<lparr>wt_watched := f\<rparr>) = wt_ids s" "wt_ids (s\<lparr>wt_at := g\<rparr>) = wt_ids s"
  "wt_ids (Watch_over w i s) = wt_ids s" "length (wt_heap s) = length (wt_ids s)"
  "a < length (wt_ids s) \<Longrightarrow> st_id (wt_heap s ! a) = wt_ids s ! a"
  by (simp_all add: wt_ids_def Watch_over_def)

lemma wt_ids_update [simp]:
  "st_id st = wt_ids s ! a \<Longrightarrow> wt_ids (s\<lparr>wt_heap := (wt_heap s)[a := st]\<rparr>) = wt_ids s"
  by (cases "a < length (wt_heap s)")
    (simp_all add: wt_ids_def map_update list_update_same_conv list_update_beyond del: wt_ids_simps)

lemma same_id: "distinct known \<Longrightarrow> a < length known \<Longrightarrow> b < length known \<Longrightarrow> known ! a = known ! b \<Longrightarrow> a = b"
  by (simp add: nth_eq_iff_index_eq)

text \<open>A step that touches one stream and one session.\<close>

lemma session_step_ok:
  assumes ok: "watching_ok s" and st: "b < length (wt_ids s)" "st_id st = wt_ids s ! b"
    and others: "set (watchers st) - {w} = set (watchers (wt_heap s ! b)) - {w}"
    and s': "s' = s\<lparr>wt_heap := (wt_heap s)[b := st], wt_watched := (wt_watched s)(w := now), wt_at := (wt_at s)(w := p)\<rparr>"
    and at: "at_ok (wt_ids s) now p"
    and w: "\<And>i a. map_of (wt_outbox s) i = Some a \<Longrightarrow>
      (if a = b then w \<in> set (watchers st) else w \<in> set (watchers (wt_heap s ! a))) \<longleftrightarrow> watches s' w i"
  shows "watching_ok s'"
proof -
  have ids: "wt_ids s' = wt_ids s" using wt_ids_update [OF st(2)] by (simp add: s' wt_ids_def del: wt_ids_simps)
  have v: "watches s' v i = watches s v i" if "v \<noteq> w" for v i
    using that ids by (simp add: s' watches_def split: watch_at.split)
  have "v \<in> set (watchers (wt_heap s' ! a)) \<longleftrightarrow> watches s' v i"
    if i: "map_of (wt_outbox s) i = Some a" for i a v
  proof (cases "v = w")
    case True
    then show ?thesis using w [OF i] st(1) by (auto simp: s' nth_list_update split: if_splits)
  next
    case False
    have "v \<in> set (watchers (wt_heap s ! a)) \<longleftrightarrow> watches s v i" using ok i by (simp add: watching_ok_def)
    moreover have "v \<in> set (watchers st) \<longleftrightarrow> v \<in> set (watchers (wt_heap s ! b))" using others False by blast
    ultimately show ?thesis using v [OF False] st(1) by (auto simp: s' nth_list_update)
  qed
  moreover have "wt_outbox s' = wt_outbox s" by (simp add: s')
  ultimately show ?thesis using ok at unfolding watching_ok_def ids by (auto simp: s')
qed

lemma stream_ids:
  "Stream_Receive ser m st = (st', out) \<Longrightarrow> st_id st' = st_id st"
  "Stream_Interrupt g st = (st', out) \<Longrightarrow> st_id st' = st_id st"
  "Stream_Watch ser w st = (st', out) \<Longrightarrow> st_id st' = st_id st"
  "st_id (Stream_Unwatch w st) = st_id st" "st_id (Stream_new ser i venue book precision) = i"
  by (auto simp: Stream_Receive_def Stream_Interrupt_def Stream_Watch_def Stream_Unwatch_def Stream_new_def Let_def
      split: if_splits)

text \<open>A session's own step that touches no stream.\<close>

lemma rest_step_ok:
  assumes ok: "watching_ok s"
    and s': "s' = s\<lparr>wt_watched := (wt_watched s)(w := now), wt_at := (wt_at s)(w := p)\<rparr>"
    and at: "at_ok (wt_ids s) now p"
    and w: "\<And>i a. map_of (wt_outbox s) i = Some a \<Longrightarrow> watches s w i \<longleftrightarrow> watches s' w i"
  shows "watching_ok s'"
proof -
  have ids: "wt_ids s' = wt_ids s" by (simp add: s')
  have "watches s' v i = watches s v i" if "v \<noteq> w" for v i
    using that ids by (simp add: s' watches_def split: watch_at.split)
  then have "watches s' v i = watches s v i" if "map_of (wt_outbox s) i = Some a" for v i a
    using w [OF that] by (cases "v = w") auto
  then show ?thesis using ok at unfolding watching_ok_def ids by (auto simp: s')
qed

lemma feed_step_ok:
  assumes ok: "watching_ok s" and i: "map_of (wt_outbox s) i = Some a" and run: "on_shared f a s = (s', out)"
    and f: "\<And>st st' out. f st = (st', out) \<Longrightarrow> st_id st' = st_id st \<and> watchers st' = watchers st"
  shows "watching_ok s'"
proof -
  obtain st where st: "f (wt_heap s ! a) = (st, out)" "s' = s\<lparr>wt_heap := (wt_heap s)[a := st]\<rparr>"
    using run by (auto simp: on_shared_def split: prod.splits)
  have a: "a < length (wt_ids s)" using ok i by (simp add: watching_ok_def)
  show ?thesis
  proof (rule session_step_ok [OF ok a, where w = 0 and st = st and now = "wt_watched s 0" and p = "wt_at s 0"])
    show "st_id st = wt_ids s ! a" "set (watchers st) - {0} = set (watchers (wt_heap s ! a)) - {0}"
      using f [OF st(1)] a by simp_all
    show "at_ok (wt_ids s) (wt_watched s 0) (wt_at s 0)" using ok by (simp add: watching_ok_def)
    have "wt_ids s' = wt_ids s" using f [OF st(1)] a by (simp add: st(2))
    then have "watches s' w j = watches s w j" for w j by (simp add: watches_def st(2) split: watch_at.split)
    then show "(if b = a then 0 \<in> set (watchers st) else 0 \<in> set (watchers (wt_heap s ! b))) \<longleftrightarrow> watches s' 0 j"
      if "map_of (wt_outbox s) j = Some b" for j b
      using ok that f [OF st(1)] by (auto simp: watching_ok_def)
  qed (simp add: st(2))
qed

lemma Watch_next_ok:
  assumes ok: "watching_ok s" and run: "Watch_next ser w s = (s', out)"
  shows "watching_ok s'"
proof -
  let ?now = "wt_watched s w"
  have at: "at_ok (wt_ids s) ?now (wt_at s w)" and distinct: "distinct (wt_ids s)" using ok by (simp_all add: watching_ok_def)
  have live: "i \<noteq> 0 \<and> a < length (wt_ids s) \<and> wt_ids s ! a = i \<and> (w \<in> set (watchers (wt_heap s ! a)) \<longleftrightarrow> watches s w i)"
    if "map_of (wt_outbox s) i = Some a" for i a using ok that by (simp add: watching_ok_def)
  show ?thesis
  proof (cases "wt_at s w")
    case Resting
    then show ?thesis using ok run by (simp add: Watch_next_def)
  next
    case (WatchFound k b)
    obtain st where st: "Stream_Watch ser w (wt_heap s ! b) = (st, out)"
      "s' = s\<lparr>wt_heap := (wt_heap s)[b := st], wt_watched := (wt_watched s)(w := ?now), wt_at := (wt_at s)(w := Added k)\<rparr>"
      using run WatchFound by (auto simp: Watch_next_def on_shared_def split: prod.splits)
    have b: "b < length (wt_ids s)" "wt_ids s ! b = k" "k \<noteq> 0" "k \<in> set (wt_ids s)"
      using at WatchFound by (auto simp: at_ok_def)
    show ?thesis
    proof (rule session_step_ok [OF ok b(1) _ _ st(2)])
      show "st_id st = wt_ids s ! b" using stream_ids(3) [OF st(1)] b(1) by simp
      show "set (watchers st) - {w} = set (watchers (wt_heap s ! b)) - {w}" using stream_watchers(3) [OF st(1)] by auto
      show "at_ok (wt_ids s) ?now (Added k)" using at b by (simp add: at_ok_def WatchFound)
      show "(if a = b then w \<in> set (watchers st) else w \<in> set (watchers (wt_heap s ! a))) \<longleftrightarrow> watches s' w i"
        if i: "map_of (wt_outbox s) i = Some a" for i a
        using live [OF i] b stream_watchers(3) [OF st(1)] same_id [OF distinct, of a b]
        by (auto simp: watches_def WatchFound st(2))
    qed
  next
    case (Added k)
    have k: "k \<noteq> 0" "k \<in> set (wt_ids s)" using at Added by (simp_all add: at_ok_def)
    have over: ?thesis if s': "s' = Watch_over w k s" and before: "?now = 0 \<or> ?now = k \<or> map_of (wt_outbox s) ?now = None"
    proof (rule rest_step_ok [OF ok s' [unfolded Watch_over_def]])
      show "at_ok (wt_ids s) k Resting" using k by (simp add: at_ok_def)
      show "watches s w i \<longleftrightarrow> watches s' w i" if "map_of (wt_outbox s) i = Some a" for i a
        using before live [OF that] that by (auto simp: watches_def Added s' Watch_over_def)
    qed
    show ?thesis
    proof (cases "?now \<noteq> 0 \<and> ?now \<noteq> k")
      case False
      then have "s' = Watch_over w k s" using run by (auto simp: Watch_next_def Added Let_def split: if_splits)
      with over False show ?thesis by blast
    next
      case True
      show ?thesis
      proof (cases "map_of (wt_outbox s) ?now")
        case None
        then show ?thesis using run over True by (simp add: Watch_next_def Added Let_def)
      next
        case (Some b)
        then have s': "s' = s\<lparr>wt_watched := (wt_watched s)(w := ?now), wt_at := (wt_at s)(w := BeforeFound k b)\<rparr>"
          using run True by (simp add: Watch_next_def Added Let_def)
        show ?thesis
        proof (rule rest_step_ok [OF ok s'])
          show "at_ok (wt_ids s) ?now (BeforeFound k b)" using k True live [OF Some] at by (simp add: at_ok_def)
          show "watches s w i \<longleftrightarrow> watches s' w i" for i by (simp add: watches_def Added s')
        qed
      qed
    qed
  next
    case (BeforeFound k b)
    have s': "s' = s\<lparr>wt_heap := (wt_heap s)[b := Stream_Unwatch w (wt_heap s ! b)],
        wt_watched := (wt_watched s)(w := k), wt_at := (wt_at s)(w := Resting)\<rparr>"
      using run BeforeFound by (auto simp: Watch_next_def on_shared_def Watch_over_def)
    have b: "b < length (wt_ids s)" "wt_ids s ! b = ?now" "?now \<noteq> k" "k \<in> set (wt_ids s)"
      using at BeforeFound by (auto simp: at_ok_def)
    show ?thesis
    proof (rule session_step_ok [OF ok b(1) _ _ s'])
      show "st_id (Stream_Unwatch w (wt_heap s ! b)) = wt_ids s ! b" using b(1) by (simp add: stream_ids)
      show "set (watchers (Stream_Unwatch w (wt_heap s ! b))) - {w} = set (watchers (wt_heap s ! b)) - {w}"
        by (simp add: stream_watchers)
      show "at_ok (wt_ids s) k Resting" using b by (simp add: at_ok_def)
      show "(if a = b then w \<in> set (watchers (Stream_Unwatch w (wt_heap s ! b)))
          else w \<in> set (watchers (wt_heap s ! a))) \<longleftrightarrow> watches s' w i"
        if i: "map_of (wt_outbox s) i = Some a" for i a
        using live [OF i] b same_id [OF distinct, of a b] by (auto simp: watches_def BeforeFound s' stream_watchers)
    qed
  next
    case (Leaving b)
    have s': "s' = s\<lparr>wt_heap := (wt_heap s)[b := Stream_Unwatch w (wt_heap s ! b)],
        wt_watched := (wt_watched s)(w := ?now), wt_at := (wt_at s)(w := Resting)\<rparr>"
      using run Leaving by (auto simp: Watch_next_def on_shared_def)
    have b: "b < length (wt_ids s)" "?now = 0" using at Leaving by (auto simp: at_ok_def)
    show ?thesis
    proof (rule session_step_ok [OF ok b(1) _ _ s'])
      show "st_id (Stream_Unwatch w (wt_heap s ! b)) = wt_ids s ! b" using b(1) by (simp add: stream_ids)
      show "set (watchers (Stream_Unwatch w (wt_heap s ! b))) - {w} = set (watchers (wt_heap s ! b)) - {w}"
        by (simp add: stream_watchers)
      show "at_ok (wt_ids s) ?now Resting" using at by (simp add: at_ok_def)
      show "(if a = b then w \<in> set (watchers (Stream_Unwatch w (wt_heap s ! b)))
          else w \<in> set (watchers (wt_heap s ! a))) \<longleftrightarrow> watches s' w i"
        if i: "map_of (wt_outbox s) i = Some a" for i a
        using live [OF i] b same_id [OF distinct, of a b] by (auto simp: watches_def Leaving s' stream_watchers)
    qed
  qed
qed

lemma Watch_begin_ok:
  assumes ok: "watching_ok s" and rest: "wt_at s w = Resting"
  shows "watching_ok (Watch_begin w i s)"
proof (cases "map_of (wt_outbox s) i")
  case None
  then show ?thesis using ok by (simp add: Watch_begin_def)
next
  case (Some a)
  then have s': "Watch_begin w i s = s\<lparr>wt_watched := (wt_watched s)(w := wt_watched s w),
      wt_at := (wt_at s)(w := WatchFound i a)\<rparr>" by (simp add: Watch_begin_def)
  have "at_ok (wt_ids s) (wt_watched s w) (wt_at s w)" using ok by (simp add: watching_ok_def)
  then show ?thesis
    using ok Some rest
    by (intro rest_step_ok [OF ok s']) (auto simp: watching_ok_def at_ok_def watches_def s')
qed

lemma Unwatch_begin_ok:
  assumes ok: "watching_ok s" and rest: "wt_at s w = Resting"
  shows "watching_ok (Unwatch_begin w s)"
proof -
  let ?i = "wt_watched s w"
  have live: "i \<noteq> 0 \<and> a < length (wt_ids s) \<and> wt_ids s ! a = i" if "map_of (wt_outbox s) i = Some a" for i a
    using ok that by (simp add: watching_ok_def)
  show ?thesis
  proof (cases "map_of (wt_outbox s) ?i")
    case None
    have s': "Unwatch_begin w s = s\<lparr>wt_watched := (wt_watched s)(w := 0), wt_at := (wt_at s)(w := Resting)\<rparr>"
      using None rest by (auto simp: Unwatch_begin_def Let_def intro!: Watching.equality ext)
    show ?thesis
      using None live rest by (intro rest_step_ok [OF ok s']) (auto simp: at_ok_def watches_def s')
  next
    case (Some a)
    then have s': "Unwatch_begin w s = s\<lparr>wt_watched := (wt_watched s)(w := 0), wt_at := (wt_at s)(w := Leaving a)\<rparr>"
      using live [OF Some] by (auto simp: Unwatch_begin_def Let_def)
    show ?thesis
      using live [OF Some] rest by (intro rest_step_ok [OF ok s']) (auto simp: at_ok_def watches_def s')
  qed
qed

lemma Transmitter_new_ok:
  assumes ok: "watching_ok s" and i: "i \<noteq> 0" "i \<notin> st_id ` set (wt_heap s)"
    and run: "shared_Transmitter_new ser i venue book precision s = Inr s'"
  shows "watching_ok s'"
proof -
  let ?st = "Stream_new ser i venue book precision"
  have s': "s' = s\<lparr>wt_heap := wt_heap s @ [?st], wt_outbox := emplace (<) i (length (wt_ids s)) (wt_outbox s)\<rparr>"
    and kind: "SinkOf i = kLive" "map_of (wt_outbox s) i = None"
    using run by (auto simp: shared_Transmitter_new_def split: if_splits)
  have ids: "wt_ids s' = wt_ids s @ [i]" "i \<notin> set (wt_ids s)"
    using i by (simp_all add: s' wt_ids_def stream_ids del: wt_ids_simps)
  have same: "wt_at s' = wt_at s" "wt_watched s' = wt_watched s"
    "wt_outbox s' = emplace (<) i (length (wt_ids s)) (wt_outbox s)" by (simp_all add: s')
  have heap: "wt_heap s' ! a = (if a = length (wt_ids s) then ?st else wt_heap s ! a)" if "a < length (wt_ids s')" for a
    using that unfolding ids(1) by (auto simp: s' nth_append)
  have at: "at_ok (wt_ids s) (wt_watched s w) (wt_at s w)" for w using ok by (simp add: watching_ok_def)
  have "at_ok (wt_ids s') (wt_watched s w) (wt_at s w)" for w
    using at [of w] by (auto simp: at_ok_def ids nth_append split: watch_at.splits)
  moreover have "watches s' w j \<longleftrightarrow> watches s w j" for w j
    using at [of w] by (auto simp: watches_def ids same nth_append at_ok_def split: watch_at.splits)
  moreover have "\<not> watches s w i" for w
    using at [of w] ids(2) i(1) by (auto simp: watches_def at_ok_def split: watch_at.splits)
  moreover have "j \<noteq> 0 \<and> SinkOf j = kLive \<and> a < length (wt_ids s') \<and> wt_ids s' ! a = j \<and>
      (\<forall>w. w \<in> set (watchers (wt_heap s' ! a)) \<longleftrightarrow> watches s w j)" if j: "map_of (wt_outbox s') j = Some a" for j a
  proof (cases "j = i")
    case True
    then have "a = length (wt_ids s)" using j kind(2) by (simp add: same map_ops)
    then show ?thesis using True kind(1) i(1) \<open>\<And>w. \<not> watches s w i\<close> by (simp add: heap ids stream_watchers)
  next
    case False
    then have "map_of (wt_outbox s) j = Some a" using j kind(2) by (simp add: same map_ops)
    then have "j \<noteq> 0 \<and> SinkOf j = kLive \<and> a < length (wt_ids s) \<and> wt_ids s ! a = j \<and>
        (\<forall>w. w \<in> set (watchers (wt_heap s ! a)) \<longleftrightarrow> watches s w j)" using ok by (simp add: watching_ok_def)
    then show ?thesis by (simp add: heap ids nth_append)
  qed
  moreover have "ordered (<) (wt_outbox s')" "distinct (wt_ids s')"
    using ok ids(2) by (simp_all add: watching_ok_def same map_ops ids(1))
  ultimately show ?thesis unfolding watching_ok_def by (simp add: same(1,2))
qed

lemma watches_outbox [simp]: "watches (s\<lparr>wt_outbox := ob\<rparr>) = watches s"
  by (simp add: watches_def fun_eq_iff split: watch_at.split)

lemma Transmitter_destroy_ok: "watching_ok s \<Longrightarrow> watching_ok (shared_Transmitter_destroy i s)"
  by (auto simp: watching_ok_def shared_Transmitter_destroy_def map_ops split: if_splits)

lemma watching_step_ok: "watching_step ser s s' \<Longrightarrow> watching_ok s \<Longrightarrow> watching_ok s'"
proof (induction rule: watching_step.induct)
  case (wt_message s i a message s' out)
  show ?case
    by (rule feed_step_ok [OF wt_message.prems wt_message.hyps]) (simp add: stream_ids(1) stream_watchers(1))
next
  case (wt_gap s i a gap s' out)
  show ?case
    by (rule feed_step_ok [OF wt_gap.prems wt_gap.hyps]) (simp add: stream_ids(2) stream_watchers(2))
qed (blast intro: Watch_begin_ok Unwatch_begin_ok Watch_next_ok Transmitter_new_ok Transmitter_destroy_ok)+

lemma reach_watching_ok: "watching_reach ser s \<Longrightarrow> watching_ok s"
proof (induction rule: watching_reach.induct)
  case wt_start
  then show ?case by (simp add: watching_ok_def Watching_new_def wt_ids_def at_ok_def)
qed (rule watching_step_ok)

section \<open>With nothing in between\<close>

text \<open>Then a Watch is the one step it is in FrontendServer.\<close>

definition flat :: "Watching \<Rightarrow> Outbox" where
  "flat s = map (\<lambda>(i, a). (i, wt_heap s ! a)) (wt_outbox s)"

lemma map_of_flat: "map_of (flat s) i = map_option (\<lambda>a. wt_heap s ! a) (map_of (wt_outbox s) i)"
proof -
  have "map_of (map (\<lambda>(i, a). (i, h ! a)) ob) i = map_option (\<lambda>a. h ! a) (map_of ob i)" for h :: "Stream list" and ob
    by (induction ob) auto
  then show ?thesis by (simp add: flat_def)
qed

lemma ordered_flat: "ordered (<) (wt_outbox s) \<Longrightarrow> ordered (<) (flat s)"
  by (simp add: flat_def ordered_def sorted_wrt_map case_prod_beta)

lemma flat_update:
  assumes ok: "watching_ok s" and i: "map_of (wt_outbox s) i = Some a"
    and s': "wt_heap s' = (wt_heap s)[a := st]" "wt_outbox s' = wt_outbox s"
  shows "flat s' = insert_or_assign (<) i st (flat s)"
proof (rule id_less.ordered_ext)
  have sorted: "ordered (<) (wt_outbox s)" using ok by (simp add: watching_ok_def)
  then show "ordered (<) (flat s')" "ordered (<) (insert_or_assign (<) i st (flat s))"
    using ordered_flat [of s] ordered_flat [of s'] s'(2) by (simp_all add: map_ops)
  have a: "a < length (wt_heap s)" using ok i by (simp add: watching_ok_def)
  have "\<forall>j b. map_of (wt_outbox s) j = Some b \<longrightarrow> wt_ids s ! b = j" using ok by (simp add: watching_ok_def)
  then have one: "j = i" if "map_of (wt_outbox s) j = Some a" for j using i that by blast
  show "map_of (flat s') = map_of (insert_or_assign (<) i st (flat s))"
  proof
    fix j
    have "b \<noteq> a" if "map_of (wt_outbox s) j = Some b" "j \<noteq> i" for b using one that by blast
    then show "map_of (flat s') j = map_of (insert_or_assign (<) i st (flat s)) j"
      using i a by (cases "j = i"; cases "map_of (wt_outbox s) j") (simp_all add: map_ops map_of_flat s')
  qed
qed

lemma Watch_alone:
  assumes ok: "watching_ok s" and rest: "wt_at s w = Resting" and i: "map_of (wt_outbox s) i = Some a"
    and 1: "Watch_next ser w (Watch_begin w i s) = (s1, out1)" and 2: "Watch_next ser w s1 = (s2, out2)"
    and 3: "Watch_next ser w s2 = (s3, out3)"
  shows "Server_Watch ser mgr w i \<lparr>sv_router = r, sv_outbox = flat s, watched = wt_watched s\<rparr> =
    ((\<lparr>sv_router = r, sv_outbox = flat s3, watched = wt_watched s3\<rparr>, out1 @ out2 @ out3), CommandOk)"
proof -
  obtain st where st: "Stream_Watch ser w (wt_heap s ! a) = (st, out1)"
    using 1 i by (auto simp: Watch_begin_def Watch_next_def on_shared_def split: prod.splits)
  have s1: "s1 = s\<lparr>wt_at := (wt_at s)(w := Added i), wt_heap := (wt_heap s)[a := st]\<rparr>"
    using 1 i st by (simp add: Watch_begin_def Watch_next_def on_shared_def)
  have f1: "flat s1 = insert_or_assign (<) i st (flat s)" by (rule flat_update [OF ok i]) (simp_all add: s1)
  have ok1: "watching_ok s1" using Watch_next_ok [OF Watch_begin_ok [OF ok rest] 1] .
  let ?now = "wt_watched s w"
  have "flat s3 = (if ?now \<noteq> 0 \<and> ?now \<noteq> i then Outbox_Unwatch ?now w (flat s1) else flat s1) \<and>
      wt_watched s3 = (wt_watched s)(w := i) \<and> out2 = [] \<and> out3 = []"
  proof (cases "?now \<noteq> 0 \<and> ?now \<noteq> i \<and> map_of (wt_outbox s) ?now \<noteq> None")
    case False
    then have "s2 = Watch_over w i s1" "out2 = []" using 2 by (auto simp: s1 Watch_next_def Let_def split: if_splits)
    moreover from this 3 have "s3 = s2" "out3 = []" by (simp_all add: Watch_next_def Watch_over_def)
    moreover have "map_of (flat s1) ?now = None" if "?now \<noteq> 0" "?now \<noteq> i"
      using False that by (simp add: map_of_flat s1)
    ultimately show ?thesis
      by (auto simp: Watch_over_def s1 Outbox_Unwatch_def Outbox_Find_def) (simp_all add: flat_def)
  next
    case True
    then obtain b where b: "map_of (wt_outbox s) ?now = Some b" by blast
    have s2: "s2 = s1\<lparr>wt_at := (wt_at s1)(w := BeforeFound i b)\<rparr>" "out2 = []"
      using 2 True b by (auto simp: s1 Watch_next_def Let_def)
    have s3: "wt_heap s3 = (wt_heap s1)[b := Stream_Unwatch w (wt_heap s1 ! b)]" "wt_outbox s3 = wt_outbox s1"
      "wt_watched s3 = (wt_watched s)(w := i)" "out3 = []"
      using 3 by (auto simp: s2 Watch_next_def on_shared_def Watch_over_def s1)
    have "map_of (wt_outbox s1) ?now = Some b" using b by (simp add: s1)
    from flat_update [OF ok1 this s3(1,2)] show ?thesis
      using True s2(2) s3(3,4) \<open>map_of (wt_outbox s1) ?now = Some b\<close>
      by (simp add: Outbox_Unwatch_def Outbox_Find_def map_of_flat)
  qed
  then show ?thesis
    using i st f1 by (simp add: Server_Watch_def Outbox_Watch_def Outbox_Find_def map_of_flat Let_def)
qed

section \<open>The property\<close>

lemma stream_sends:
  "Stream_Receive ser message st = (st', out) \<Longrightarrow> fst ` set out = set (watchers st)"
  "Stream_Interrupt gap st = (st', out) \<Longrightarrow> fst ` set out = set (watchers st)"
  by (auto simp: Stream_Receive_def Stream_Interrupt_def Stream_SendLocked_def Let_def image_Un image_image split: if_splits)

text \<open>
  C12. However commands of sessions, messages, gaps and the ends of subscriptions interleave,
  also between finding a stream and calling it: what a live subscription sends at any moment
  goes to exactly the sessions that watch it: those at rest that watch it last, those that
  began to watch another and have not yet left it, and those just added to it; so once an
  Unwatch is over, or a Watch of another subscription, it sends the session nothing more,
  and a subscription that ended sends nobody anything.
\<close>

theorem live_feed_sends_to_its_watchers:
  assumes "watching_reach ser s" and "map_of (wt_outbox s) i = Some a"
  shows "i \<noteq> 0 \<and> SinkOf i = kLive \<and> st_id (wt_heap s ! a) = i \<and>
    (\<forall>message s' out. on_shared (Stream_Receive ser message) a s = (s', out) \<longrightarrow>
       fst ` set out = {w. watches s w i} \<and> map_of (wt_outbox s') i = Some a) \<and>
    (\<forall>gap s' out. on_shared (Stream_Interrupt gap) a s = (s', out) \<longrightarrow> fst ` set out = {w. watches s w i})"
proof -
  have ok: "i \<noteq> 0" "SinkOf i = kLive" "a < length (wt_ids s)" "wt_ids s ! a = i"
    "{w. watches s w i} = set (watchers (wt_heap s ! a))"
    using reach_watching_ok [OF assms(1)] assms(2) by (auto simp: watching_ok_def)
  then have "st_id (wt_heap s ! a) = i" by simp
  moreover have "fst ` set out = {w. watches s w i} \<and> map_of (wt_outbox s') i = Some a"
    if "on_shared (Stream_Receive ser message) a s = (s', out)" for message s' out
    using that assms(2) stream_sends(1) [where st = "wt_heap s ! a"] unfolding ok(5)
    by (auto simp: on_shared_def split: prod.splits)
  moreover have "fst ` set out = {w. watches s w i}" if "on_shared (Stream_Interrupt gap) a s = (s', out)" for gap s' out
    using that stream_sends(2) [where st = "wt_heap s ! a"] unfolding ok(5) by (auto simp: on_shared_def split: prod.splits)
  ultimately show ?thesis using ok(1,2) by blast
qed

text \<open>A session that watches one feed is in the middle of a Watch of another.\<close>

definition demo_watching :: Watching where
  "demo_watching =
     (let new = (\<lambda>i. Stream_new (\<lambda>_. []) i ''kraken'' \<lparr>bs_symbol = ''A/B'', bs_depth = 10\<rparr>
            \<lparr>price_decimals = 1, qty_decimals = 2\<rparr>);
          turn = (\<lambda>s. fst (Watch_next (\<lambda>_. []) 3 s));
          s = \<lparr>wt_heap = [new 65536, new 131072], wt_outbox = [(65536, 0), (131072, 1)],
            wt_watched = (\<lambda>_. 0), wt_at = (\<lambda>_. Resting)\<rparr>;
          s = turn (turn (Watch_begin 3 65536 s))
      in turn (Watch_begin 3 131072 s))"

lemma demo_watching_reached: "watching_reach (\<lambda>_. []) demo_watching"
proof -
  have next1: "watching_reach ser s \<Longrightarrow> watching_reach ser (fst (Watch_next ser w s))" for ser w s
    using wt_more wt_next by (metis prod.collapse)
  let ?new = "\<lambda>i. Stream_new (\<lambda>_. []) i ''kraken'' \<lparr>bs_symbol = ''A/B'', bs_depth = 10\<rparr>
    \<lparr>price_decimals = 1, qty_decimals = 2\<rparr>"
  let ?one = "Watching_new\<lparr>wt_heap := [?new 65536], wt_outbox := [(65536, 0)]\<rparr>"
  let ?two = "?one\<lparr>wt_heap := [?new 65536, ?new 131072], wt_outbox := [(65536, 0), (131072, 1)]\<rparr>"
  have "watching_reach (\<lambda>_. []) ?one"
    by (rule wt_more [OF wt_start wt_live [of 65536 _ _ "''kraken''" "\<lparr>bs_symbol = ''A/B'', bs_depth = 10\<rparr>"
          "\<lparr>price_decimals = 1, qty_decimals = 2\<rparr>"]])
      (simp_all add: Watching_new_def shared_Transmitter_new_def SinkOf_def kLive_def emplace_def)
  then have two: "watching_reach (\<lambda>_. []) ?two"
    by (rule wt_more [OF _ wt_live [of 131072 _ _ "''kraken''" "\<lparr>bs_symbol = ''A/B'', bs_depth = 10\<rparr>"
          "\<lparr>price_decimals = 1, qty_decimals = 2\<rparr>"]])
      (simp_all add: Watching_new_def shared_Transmitter_new_def SinkOf_def kLive_def emplace_def stream_ids)
  let ?s = "fst (Watch_next (\<lambda>_. []) 3 (fst (Watch_next (\<lambda>_. []) 3 (Watch_begin 3 65536 ?two))))"
  have "watching_reach (\<lambda>_. []) (Watch_begin 3 65536 ?two)"
    using two by (rule wt_more) (rule wt_watch, simp add: Watching_new_def)
  then have s: "watching_reach (\<lambda>_. []) ?s" by (intro next1)
  have "wt_at ?s 3 = Resting"
    by (simp add: Watch_begin_def Watch_next_def on_shared_def Watching_new_def Watch_over_def split: prod.split)
  then have "watching_reach (\<lambda>_. []) (fst (Watch_next (\<lambda>_. []) 3 (Watch_begin 3 131072 ?s)))"
    by (intro next1 wt_more [OF s] wt_watch)
  then show ?thesis by (simp add: demo_watching_def Watching_new_def Let_def)
qed

theorem live_feed_sends_to_its_watchers_witness:
  "fst ` set (snd (on_shared (Stream_Interrupt kDisconnected) 0 demo_watching)) = {3} \<and>
   fst ` set (snd (on_shared (Stream_Interrupt kDisconnected) 1 demo_watching)) = {3}"
proof -
  have d: "wt_outbox demo_watching = [(65536, 0), (131072, 1)]" "wt_watched demo_watching = (\<lambda>_. 0)(3 := 65536)"
    "wt_at demo_watching = (\<lambda>_. Resting)(3 := Added 131072)"
    by (simp_all add: demo_watching_def Watch_begin_def Watch_next_def on_shared_def Watch_over_def Let_def
        split: prod.split)
  then have s: "map_of (wt_outbox demo_watching) 65536 = Some 0" "map_of (wt_outbox demo_watching) 131072 = Some 1"
    "{w. watches demo_watching w 65536} = {3}" "{w. watches demo_watching w 131072} = {3}"
    by (auto simp: watches_def split: if_splits)
  show ?thesis
    using live_feed_sends_to_its_watchers [OF demo_watching_reached s(1)]
      live_feed_sends_to_its_watchers [OF demo_watching_reached s(2)] s(3,4)
    by (metis prod.collapse)
qed

end
