(* ===== verification/FrontendServerLife.thy ===== *)
theory FrontendServerLife
  imports FrontendSession
begin

text \<open>
  The server's life in frontend/server.cc: the accept loop, the sessions it holds, and the
  destructor's winding down. Handlers run one at a time on the network thread, and a
  session's strand runs its commands and at last \<open>Forget\<close>; what completes, and with
  what, is an argument of the steps. A session lives on, unlisted, while an operation is
  pending on it.
\<close>

section \<open>The code\<close>

datatype accept_at = Accepting | RetryWaiting | NotAccepting

datatype accepted = AcceptAborted | AcceptError | AcceptedSocket

record 'c Held =
  hl_session :: "'c Session"
  hl_handshaking :: bool
  hl_listed :: bool

record 'c ServerLife =
  lf_accepting :: accept_at
  lf_open :: bool
  lf_held :: "'c Held list"
  lf_shut_down :: bool

definition Server_new :: "'c ServerLife" where
  "Server_new = \<lparr>lf_accepting = Accepting, lf_open = True, lf_held = [], lf_shut_down = False\<rparr>"

text \<open>The handler of an accept; a session begins with its handshake pending.\<close>

definition Server_Accepted :: "accepted \<Rightarrow> int \<Rightarrow> 'c ServerLife \<Rightarrow> 'c ServerLife" where
  "Server_Accepted r now s =
     (if r = AcceptAborted \<or> \<not> lf_open s then s\<lparr>lf_accepting := NotAccepting\<rparr>
      else if r = AcceptError then s\<lparr>lf_accepting := RetryWaiting\<rparr>
      else s\<lparr>lf_held := lf_held s @ [\<lparr>hl_session = Session_new now, hl_handshaking = True, hl_listed = True\<rparr>],
             lf_accepting := Accepting\<rparr>)"

definition Server_Retry :: "bool \<Rightarrow> 'c ServerLife \<Rightarrow> 'c ServerLife" where
  "Server_Retry wait_ec s =
     s\<lparr>lf_accepting := if \<not> wait_ec \<and> lf_open s then Accepting else NotAccepting\<rparr>"

text \<open>What the destructor posts to the network thread.\<close>

definition Held_Close :: "'c Held \<Rightarrow> 'c Held" where
  "Held_Close h = (if hl_listed h then h\<lparr>hl_session := Session_Close (hl_session h)\<rparr> else h)"

definition Server_shut_down :: "'c ServerLife \<Rightarrow> 'c ServerLife" where
  "Server_shut_down s = s\<lparr>lf_open := False, lf_held := map Held_Close (lf_held s), lf_shut_down := True\<rparr>"

text \<open>\<open>sessions_.erase\<close> in \<^verbatim>\<open>Forget\<close>, when the strand comes to it.\<close>

definition Server_strand ::
    "(wire_event \<Rightarrow> byte list) \<Rightarrow> ('c \<Rightarrow> wire_CommandResult) \<Rightarrow> 'c Held \<Rightarrow> 'c Held" where
  "Server_strand ser answer h =
     h\<lparr>hl_session := Session_Answered ser answer (hl_session h),
       hl_listed := hl_listed h \<and> (case strand (hl_session h) of Forget # _ \<Rightarrow> False | _ \<Rightarrow> True)\<rparr>"

text \<open>What completes on a session, on the network thread.\<close>

datatype 'c completion =
    Handshaken bool
  | ReadOver bool "'c option"
  | PostedRun int i64
  | WriteOver i64 bool
  | TimerOver int i64 bool

definition pending :: "'c completion \<Rightarrow> 'c Held \<Rightarrow> bool" where
  "pending e h =
     (case e of
        Handshaken _ \<Rightarrow> hl_handshaking h
      | ReadOver _ _ \<Rightarrow> reading (hl_session h)
      | PostedRun _ _ \<Rightarrow> posted (hl_session h) \<noteq> []
      | WriteOver _ _ \<Rightarrow> writing (hl_session h)
      | TimerOver _ _ _ \<Rightarrow> heartbeat (hl_session h))"

definition Server_completes ::
    "(wire_event \<Rightarrow> byte list) \<Rightarrow> coded \<Rightarrow> 'c completion \<Rightarrow> 'c Held \<Rightarrow> 'c Held" where
  "Server_completes ser out e h =
     (case e of
        Handshaken ec \<Rightarrow> h\<lparr>hl_session := Session_Begun ec (hl_session h), hl_handshaking := False\<rparr>
      | ReadOver ec parsed \<Rightarrow> h\<lparr>hl_session := Session_Read ec parsed (hl_session h)\<rparr>
      | PostedRun now unix_now \<Rightarrow> h\<lparr>hl_session := Session_Posted out now unix_now (hl_session h)\<rparr>
      | WriteOver unix_now ec \<Rightarrow> h\<lparr>hl_session := Session_Written out unix_now ec (hl_session h)\<rparr>
      | TimerOver now unix_now ec \<Rightarrow> h\<lparr>hl_session := Session_Heartbeat ser out now unix_now ec (hl_session h)\<rparr>)"

section \<open>Runs\<close>

text \<open>A step of the network thread; and of the other threads, of which a \<^verbatim>\<open>Send\<close> posts to it.\<close>

inductive network_step ::
    "(wire_event \<Rightarrow> byte list) \<Rightarrow> coded \<Rightarrow> 'c ServerLife \<Rightarrow> 'c ServerLife \<Rightarrow> bool"
  for ser :: "wire_event \<Rightarrow> byte list" and out :: coded where
  nt_accept: "lf_accepting s = Accepting \<Longrightarrow> network_step ser out s (Server_Accepted r now s)"
| nt_retry: "lf_accepting s = RetryWaiting \<Longrightarrow> network_step ser out s (Server_Retry wait_ec s)"
| nt_session: "k < length (lf_held s) \<Longrightarrow> pending e (lf_held s ! k) \<Longrightarrow>
     network_step ser out s (s\<lparr>lf_held := (lf_held s)[k := Server_completes ser out e (lf_held s ! k)]\<rparr>)"

inductive life_reach ::
    "(wire_event \<Rightarrow> byte list) \<Rightarrow> coded \<Rightarrow> 'c ServerLife \<Rightarrow> bool"
  for ser :: "wire_event \<Rightarrow> byte list" and out :: coded where
  lf_new: "life_reach ser out Server_new"
| lf_network: "life_reach ser out s \<Longrightarrow> network_step ser out s s' \<Longrightarrow> life_reach ser out s'"
| lf_send: "life_reach ser out s \<Longrightarrow> k < length (lf_held s) \<Longrightarrow>
     life_reach ser out (s\<lparr>lf_held := (lf_held s)[k := (lf_held s ! k)\<lparr>hl_session :=
       Session_Send payload (hl_session (lf_held s ! k))\<rparr>]\<rparr>)"
| lf_strand: "life_reach ser out s \<Longrightarrow> k < length (lf_held s) \<Longrightarrow>
     life_reach ser out (s\<lparr>lf_held := (lf_held s)[k := Server_strand ser answer (lf_held s ! k)]\<rparr>)"
| lf_shut: "life_reach ser out s \<Longrightarrow> \<not> lf_shut_down s \<Longrightarrow> life_reach ser out (Server_shut_down s)"

section \<open>What runs keep\<close>

text \<open>
  A session is listed until its strand has come to its \<open>Forget\<close>, which its strand holds
  from when it is closed; one that is open is listed.
\<close>

definition held_ok :: "'c Held \<Rightarrow> bool" where
  "held_ok h \<longleftrightarrow>
     (if closed (hl_session h)
      then (if hl_listed h then \<exists>tasks. strand (hl_session h) = tasks @ [Forget] \<and> Forget \<notin> set tasks
            else strand (hl_session h) = [])
      else hl_listed h \<and> Forget \<notin> set (strand (hl_session h)))"

definition life_ok :: "'c ServerLife \<Rightarrow> bool" where
  "life_ok s \<longleftrightarrow> list_all held_ok (lf_held s) \<and> (lf_shut_down s \<longleftrightarrow> \<not> lf_open s) \<and>
     (lf_shut_down s \<longrightarrow> list_all (\<lambda>h. closed (hl_session h)) (lf_held s))"

lemma Close_simps2 [simp]:
  "strand (Session_Close s) = (if closed s then strand s else strand s @ [Forget])"
  "closed s \<Longrightarrow> Session_Close s = s"
  by (simp_all add: Session_Close_def)

lemma held_ok_Close: "held_ok h \<Longrightarrow> held_ok (h\<lparr>hl_session := Session_Close (hl_session h)\<rparr>)"
  by (auto simp: held_ok_def)

lemma held_ok_cong:
  "held_ok h \<Longrightarrow> closed s = closed (hl_session h) \<Longrightarrow> strand s = strand (hl_session h) \<Longrightarrow> held_ok (h\<lparr>hl_session := s\<rparr>)"
  by (simp add: held_ok_def)

text \<open>What may become of a session's strand: nothing, or it is closed, or it is given a command while open.\<close>

definition strand_grows :: "'c Session \<Rightarrow> 'c Session \<Rightarrow> bool" where
  "strand_grows s s' \<longleftrightarrow> (closed s' = closed s \<and> strand s' = strand s) \<or>
     (\<not> closed s \<and> closed s' \<and> strand s' = strand s @ [Forget]) \<or>
     (\<not> closed s \<and> \<not> closed s' \<and> (\<exists>t. t \<noteq> Forget \<and> strand s' = strand s @ [t]))"

lemma strand_grows_Close: "strand_grows s (Session_Close s)"
  by (simp add: strand_grows_def)

lemma strand_grows_fields [simp]:
  "strand_grows (s\<lparr>posted := p\<rparr>) s' = strand_grows s s'" "strand_grows s (s'\<lparr>heartbeat := b\<rparr>) = strand_grows s s'"
  "strand_grows s s"
  by (simp_all add: strand_grows_def)

lemma strand_grows_Enqueue: "strand_grows s (Enqueue out now t payload s)"
  by (auto simp: strand_grows_def Enqueue_def Let_def WriteFront_def split: list.split)

lemma strand_grows_completes:
  "strand_grows (hl_session h) (hl_session (Server_completes ser out e h))" "hl_listed (Server_completes ser out e h) = hl_listed h"
proof -
  show "strand_grows (hl_session h) (hl_session (Server_completes ser out e h))"
  proof (cases e)
    case (PostedRun now unix_now)
    show ?thesis
    proof (cases "posted (hl_session h)")
      case (Cons payload rest)
      then show ?thesis
        using PostedRun strand_grows_Enqueue [of "hl_session h\<lparr>posted := rest\<rparr>" out now unix_now payload]
        by (simp add: Server_completes_def Session_Posted_def)
    qed (use PostedRun in \<open>simp add: Server_completes_def Session_Posted_def\<close>)
  next
    case (TimerOver now unix_now ec)
    then show ?thesis
      by (simp add: Server_completes_def Session_Heartbeat_def Let_def strand_grows_Enqueue)
  qed (auto simp: Server_completes_def strand_grows_def Session_Begun_def Session_Read_def Session_Written_def Let_def
      WriteFront_def Session_Close_def split: list.split option.split)
qed (simp add: Server_completes_def split: completion.split)

lemma held_ok_grows:
  "held_ok h \<Longrightarrow> strand_grows (hl_session h) (hl_session h') \<Longrightarrow> hl_listed h' = hl_listed h \<Longrightarrow> held_ok h'"
  by (auto simp: held_ok_def strand_grows_def)

lemma held_ok_strand:
  assumes "held_ok h" shows "held_ok (Server_strand ser answer h) \<and>
    closed (hl_session (Server_strand ser answer h)) = closed (hl_session h)"
proof (cases "strand (hl_session h)")
  case Nil
  then show ?thesis using assms by (simp add: Server_strand_def Session_Answered_def held_ok_def)
next
  case (Cons t rest)
  then show ?thesis
    using assms
    by (cases t)
      (auto simp: Server_strand_def Session_Answered_def held_ok_def CommandDone_def Session_Send_def
        Cons_eq_append_conv split: if_splits)
qed

lemma completes_closed: "closed (hl_session h) \<Longrightarrow> closed (hl_session (Server_completes ser out e h))"
  using strand_grows_completes(1) [of h ser out e] by (auto simp: strand_grows_def)

lemma life_ok_update:
  assumes "life_ok s" and "k < length (lf_held s)" and "held_ok h"
    and "closed (hl_session (lf_held s ! k)) \<Longrightarrow> closed (hl_session h)"
  shows "life_ok (s\<lparr>lf_held := (lf_held s)[k := h]\<rparr>)"
  using assms by (auto simp: life_ok_def list_all_length nth_list_update)

lemma life_ok_network: "network_step ser out s s' \<Longrightarrow> life_ok s \<Longrightarrow> life_ok s'"
proof (induction rule: network_step.induct)
  case (nt_accept s r now)
  then show ?case
    by (auto simp: life_ok_def Server_Accepted_def held_ok_def Session_new_def)
next
  case (nt_retry s wait_ec)
  then show ?case by (simp add: life_ok_def Server_Retry_def)
next
  case (nt_session k s e)
  have "held_ok (lf_held s ! k)" using nt_session by (simp add: life_ok_def list_all_length)
  then show ?case
    using nt_session
    by (intro life_ok_update held_ok_grows [OF _ strand_grows_completes] completes_closed) auto
qed

lemma held_ok_shut: "held_ok h \<Longrightarrow> held_ok (Held_Close h) \<and> closed (hl_session (Held_Close h))"
  using held_ok_Close [of h] by (auto simp: Held_Close_def held_ok_def split: if_splits)

lemma life_ok_reach: "life_reach ser out s \<Longrightarrow> life_ok s"
proof (induction rule: life_reach.induct)
  case lf_new
  show ?case by (simp add: life_ok_def Server_new_def)
next
  case (lf_network s s')
  then show ?case by (blast intro: life_ok_network)
next
  case (lf_send s k payload)
  have "held_ok (lf_held s ! k)" using lf_send by (simp add: life_ok_def list_all_length)
  then show ?case
    using lf_send by (intro life_ok_update held_ok_cong) (auto simp: Session_Send_def)
next
  case (lf_strand s k answer)
  have "held_ok (lf_held s ! k)" using lf_strand by (simp add: life_ok_def list_all_length)
  then show ?case using lf_strand held_ok_strand by (intro life_ok_update) blast+
next
  case (lf_shut s)
  then show ?case by (simp add: life_ok_def Server_shut_down_def list_all_iff held_ok_shut)
qed

section \<open>Winding down\<close>

text \<open>What is pending for the network thread.\<close>

definition session_work :: "'c Held \<Rightarrow> nat" where
  "session_work h = of_bool (hl_handshaking h) + of_bool (reading (hl_session h)) + length (posted (hl_session h)) +
     of_bool (writing (hl_session h)) + of_bool (heartbeat (hl_session h))"

definition network_work :: "'c ServerLife \<Rightarrow> nat" where
  "network_work s = of_bool (lf_accepting s \<noteq> NotAccepting) + sum_list (map session_work (lf_held s))"

lemma completes_work:
  assumes "closed (hl_session h)" and "pending e h"
  shows "session_work (Server_completes ser out e h) < session_work h"
  using assms
  by (auto simp: session_work_def pending_def Server_completes_def Session_Begun_def Session_Read_def Session_Posted_def
      Session_Written_def Session_Heartbeat_def Enqueue_def Let_def Session_Close_def
      split: completion.splits list.splits)

lemma sum_list_update_less:
  "k < length xs \<Longrightarrow> f x < f (xs ! k) \<Longrightarrow> sum_list (map f (xs[k := x])) < (sum_list (map f xs) :: nat)"
  by (induction xs arbitrary: k) (auto simp: nth_Cons' split: nat.splits)

lemma network_step_work:
  "network_step ser out s s' \<Longrightarrow> life_ok s \<Longrightarrow> lf_shut_down s \<Longrightarrow> network_work s' < network_work s \<and> lf_shut_down s'"
proof (induction rule: network_step.induct)
  case (nt_session k s e)
  then have "closed (hl_session (lf_held s ! k))" by (simp add: life_ok_def list_all_length)
  then show ?case
    using nt_session sum_list_update_less [where f = session_work, OF nt_session.hyps(1) completes_work] by (simp add: network_work_def)
qed (auto simp: network_work_def Server_Accepted_def Server_Retry_def life_ok_def)

lemma network_step_held:
  "network_step ser out s s' \<Longrightarrow> life_ok s \<Longrightarrow> lf_shut_down s \<Longrightarrow> length (lf_held s') = length (lf_held s)"
  by (induction rule: network_step.induct) (auto simp: Server_Accepted_def Server_Retry_def life_ok_def)

text \<open>
  A run past the destructor's handler, with the steps of the network thread and those of the
  other threads counted: what they send to a session, and what a strand runs.
\<close>

inductive winds_down ::
    "(wire_event \<Rightarrow> byte list) \<Rightarrow> coded \<Rightarrow> nat \<Rightarrow> nat \<Rightarrow> 'c ServerLife \<Rightarrow> 'c ServerLife \<Rightarrow> bool"
  for ser :: "wire_event \<Rightarrow> byte list" and out :: coded where
  wd_none: "winds_down ser out 0 0 s s"
| wd_network: "winds_down ser out k j s s' \<Longrightarrow> network_step ser out s' s'' \<Longrightarrow> winds_down ser out (Suc k) j s s''"
| wd_send: "winds_down ser out k j s s' \<Longrightarrow> i < length (lf_held s') \<Longrightarrow>
     winds_down ser out k (Suc j) s (s'\<lparr>lf_held := (lf_held s')[i := (lf_held s' ! i)\<lparr>hl_session :=
       Session_Send payload (hl_session (lf_held s' ! i))\<rparr>]\<rparr>)"
| wd_strand: "winds_down ser out k j s s' \<Longrightarrow> i < length (lf_held s') \<Longrightarrow>
     winds_down ser out k (Suc j) s (s'\<lparr>lf_held := (lf_held s')[i := Server_strand ser answer (lf_held s' ! i)]\<rparr>)"

lemma sum_list_update_Suc:
  "k < length xs \<Longrightarrow> f x \<le> Suc (f (xs ! k)) \<Longrightarrow> sum_list (map f (xs[k := x])) \<le> Suc (sum_list (map f xs) :: nat)"
  by (induction xs arbitrary: k) (auto simp: nth_Cons' split: nat.splits)

lemma strand_work: "session_work (Server_strand ser answer h) \<le> Suc (session_work h)"
  by (auto simp: session_work_def Server_strand_def Session_Answered_def CommandDone_def Session_Send_def
      split: list.split task.split)

lemma send_work: "session_work (h\<lparr>hl_session := Session_Send payload (hl_session h)\<rparr>) \<le> Suc (session_work h)"
  by (simp add: session_work_def Session_Send_def)

lemma send_work_le:
  "k < length (lf_held s) \<Longrightarrow>
     network_work (s\<lparr>lf_held := (lf_held s)[k := (lf_held s ! k)\<lparr>hl_session :=
       Session_Send payload (hl_session (lf_held s ! k))\<rparr>]\<rparr>) \<le> Suc (network_work s)"
  using sum_list_update_Suc [where f = session_work, OF _ send_work] by (simp add: network_work_def)

lemma strand_work_le:
  "k < length (lf_held s) \<Longrightarrow>
     network_work (s\<lparr>lf_held := (lf_held s)[k := Server_strand ser answer (lf_held s ! k)]\<rparr>) \<le> Suc (network_work s)"
  using sum_list_update_Suc [where f = session_work, OF _ strand_work] by (simp add: network_work_def)

lemma winds_down_reach: "winds_down ser out k j s s' \<Longrightarrow> life_reach ser out s \<Longrightarrow> life_reach ser out s'"
  by (induction rule: winds_down.induct) (auto intro: lf_network lf_send lf_strand)

lemma winds_down_work:
  "winds_down ser out k j s s' \<Longrightarrow> life_reach ser out s \<Longrightarrow> lf_shut_down s \<Longrightarrow>
     k + network_work s' \<le> network_work s + j \<and> lf_shut_down s' \<and> length (lf_held s') = length (lf_held s)"
proof (induction rule: winds_down.induct)
  case (wd_network k j s s' s'')
  have "life_ok s'" using wd_network by (blast intro: life_ok_reach winds_down_reach)
  then show ?case
    using wd_network network_step_work [of ser out s' s''] network_step_held [of ser out s' s''] by auto
next
  case (wd_send k j s s' i payload)
  then show ?case using send_work_le [OF wd_send.hyps(2), of payload] by simp
next
  case (wd_strand k j s s' i answer)
  then show ?case using strand_work_le [OF wd_strand.hyps(2), of ser answer] by simp
qed simp

section \<open>A server to apply them to\<close>

text \<open>It holds a connection whose handshake is pending when it is shut down.\<close>

definition demo_life :: "unit ServerLife" where
  "demo_life = Server_shut_down (Server_Accepted AcceptedSocket 0 Server_new)"

definition demo_wound :: "unit ServerLife" where
  "demo_wound = demo_life\<lparr>lf_accepting := NotAccepting, lf_held :=
     [\<lparr>hl_session = (Session_Close (Session_new 0))\<lparr>strand := []\<rparr>, hl_handshaking = False, hl_listed = False\<rparr>]\<rparr>"

lemma demo_life_reach: "life_reach ser out demo_life" "lf_shut_down demo_life"
proof -
  have "life_reach ser out (Server_Accepted AcceptedSocket 0 Server_new)"
    by (rule lf_network [OF lf_new nt_accept]) (simp add: Server_new_def)
  then show "life_reach ser out demo_life"
    unfolding demo_life_def by (rule lf_shut) (simp add: Server_Accepted_def Server_new_def)
qed (simp add: demo_life_def Server_shut_down_def)

lemma demo_winds_down: "winds_down ser out 2 1 demo_life demo_wound"
proof -
  let ?s = "Server_Accepted AcceptedSocket 0 demo_life"
  let ?t = "?s\<lparr>lf_held := (lf_held ?s)[0 := Server_completes ser out (Handshaken False) (lf_held ?s ! 0)]\<rparr>"
  let ?u = "?t\<lparr>lf_held := (lf_held ?t)[0 := Server_strand ser (\<lambda>_. CommandOk) (lf_held ?t ! 0)]\<rparr>"
  note defs = demo_life_def demo_wound_def Server_Accepted_def Server_shut_down_def Server_new_def Held_Close_def
    Session_new_def Session_Close_def Server_completes_def Session_Begun_def Server_strand_def Session_Answered_def
  have "winds_down ser out 1 0 demo_life ?s"
    using wd_network [OF wd_none nt_accept, of demo_life ser out AcceptedSocket 0] by (simp add: defs)
  then have "winds_down ser out 2 0 demo_life ?t"
    using wd_network [OF _ nt_session, of ser out 1 0 demo_life ?s 0 "Handshaken False"]
    by (simp add: defs pending_def numeral_2_eq_2)
  then have "winds_down ser out 2 1 demo_life ?u"
    using wd_strand [of ser out 2 0 demo_life ?t 0 "\<lambda>_. CommandOk"] by (simp add: defs)
  moreover have "?u = demo_wound" by (simp add: defs)
  ultimately show ?thesis by simp
qed

section \<open>Properties\<close>

text \<open>
  C19. Once the destructor's handler has run every session there is or was is closed and no
  session is ever started; and when the strands have run, no session is listed any more,
  so none watches or is kept by the server. Before, every open session is listed, so the
  handler reaches it.
\<close>

theorem shutdown_leaves_no_session:
  assumes "life_reach ser out s" and "h \<in> set (lf_held s)"
  shows "(lf_shut_down s \<longrightarrow> closed (hl_session h) \<and> \<not> lf_open s) \<and>
    (\<not> closed (hl_session h) \<longrightarrow> hl_listed h) \<and>
    (lf_shut_down s \<and> strand (hl_session h) = [] \<longrightarrow> \<not> hl_listed h) \<and>
    (\<not> hl_listed h \<longrightarrow> closed (hl_session h) \<and> strand (hl_session h) = [])"
proof -
  have "held_ok h" "lf_shut_down s \<longleftrightarrow> \<not> lf_open s" "lf_shut_down s \<Longrightarrow> closed (hl_session h)"
    using life_ok_reach [OF assms(1)] assms(2) by (auto simp: life_ok_def list_all_iff)
  then show ?thesis by (auto simp: held_ok_def split: if_splits)
qed

theorem shutdown_leaves_no_session_witness:
  "lf_held demo_wound \<noteq> [] \<and> closed (hl_session (hd (lf_held demo_wound))) \<and> \<not> hl_listed (hd (lf_held demo_wound))"
proof -
  have "life_reach (\<lambda>_. []) proto_coded demo_wound"
    by (rule winds_down_reach [OF demo_winds_down demo_life_reach(1)])
  note shut = shutdown_leaves_no_session [OF this, of "hd (lf_held demo_wound)"]
  show ?thesis using shut by (simp add: demo_wound_def demo_life_def Server_shut_down_def)
qed

text \<open>
  C20. The winding down ends: past the destructor's handler the network thread takes no more
  steps than were pending and the other threads have since posted to it, no session is added, and with
  nothing pending it has no step left, so that \<^verbatim>\<open>ioc_.run()\<close> returns.
\<close>

theorem shutdown_ends:
  assumes "life_reach ser out s" and "lf_shut_down s" and "winds_down ser out k j s s'"
  shows "k + network_work s' \<le> network_work s + j \<and> length (lf_held s') = length (lf_held s) \<and>
    (network_work s' = 0 \<longleftrightarrow> (\<nexists>s''. network_step ser out s' s''))"
proof -
  have shut: "life_ok s'" "lf_shut_down s'"
    using winds_down_work [OF assms(3,1,2)] winds_down_reach [OF assms(3,1)] by (auto intro: life_ok_reach)
  have "network_work s' = 0 \<longleftrightarrow> (\<nexists>s''. network_step ser out s' s'')"
  proof
    assume "network_work s' = 0"
    then show "\<nexists>s''. network_step ser out s' s''"
      using network_step_work [of ser out s'] shut by fastforce
  next
    assume none: "\<nexists>s''. network_step ser out s' s''"
    have "lf_accepting s' = NotAccepting" using none nt_accept nt_retry by (cases "lf_accepting s'") blast+
    moreover have "session_work h = 0" if held: "h \<in> set (lf_held s')" for h
    proof -
      obtain k where k: "k < length (lf_held s')" "h = lf_held s' ! k" using held by (auto simp: in_set_conv_nth)
      then have "\<not> pending e h" for e using none nt_session by blast
      from this [of "Handshaken True"] this [of "ReadOver True None"] this [of "PostedRun 0 0"] this [of "WriteOver 0 True"]
        this [of "TimerOver 0 0 True"]
      show ?thesis by (simp add: pending_def session_work_def)
    qed
    ultimately show "network_work s' = 0" by (simp add: network_work_def)
  qed
  then show ?thesis using winds_down_work [OF assms(3,1,2)] by simp
qed

theorem shutdown_ends_witness:
  "2 + network_work demo_wound \<le> network_work demo_life + 1 \<and>
   (\<nexists>s. network_step (\<lambda>_. []) proto_coded demo_wound s)"
proof -
  have "network_work demo_wound = 0" by (simp add: network_work_def demo_wound_def session_work_def Session_new_def Session_Close_def)
  then show ?thesis
    using shutdown_ends [OF demo_life_reach demo_winds_down, of "\<lambda>_. []" proto_coded] by simp
qed

end
