(* ===== verification/TimingAggregatorRuns.thy ===== *)
theory TimingAggregatorRuns
  imports TimingAggregator "HOL-Library.Multiset"
begin

text \<open>
  What the timings keep true however the recording threads, the writer and the thread that
  starts and stops them interleave: no sample is lost but those counted as dropped, and a
  \<^verbatim>\<open>Stop\<close> returns with everything written out.
\<close>

section \<open>Runs\<close>

text \<open>Whether the writer holds the registry's lock.\<close>

definition draining :: "Aggregator \<Rightarrow> bool" where
  "draining s \<longleftrightarrow>
     (case ag_writer s of
        None \<Rightarrow> False
      | Some w \<Rightarrow> (case wr_at w of AtProducer _ _ \<Rightarrow> True | AtQueue _ _ _ _ \<Rightarrow> True | _ \<Rightarrow> False))"

text \<open>What the recording threads do.\<close>

inductive thread_moves :: "Aggregator \<Rightarrow> Aggregator \<Rightarrow> bool" where
  mv_load: "ag_recorder s t = Outside \<Longrightarrow> thread_moves s (Record_load t sample s)"
| mv_register: "ag_recorder s t = Recording sample \<Longrightarrow> \<not> draining s \<Longrightarrow> thread_moves s (LocalProducer t s)"
| mv_push: "ag_recorder s t = Recording sample \<Longrightarrow> ag_producer s t = Some p \<Longrightarrow>
     thread_moves s (Record_push t sample p s)"
| mv_count: "ag_recorder s t = Refused sample \<Longrightarrow> thread_moves s (Record_count t sample s)"
| mv_exit: "ag_recorder s t = Outside \<Longrightarrow> thread_moves s (Thread_exit t s)"

text \<open>The recording threads and the writer in any order, with the writer's steps counted.\<close>

inductive agg_run :: "nat \<Rightarrow> Aggregator \<Rightarrow> Aggregator \<Rightarrow> bool" where
  run_none: "agg_run 0 s s"
| run_thread: "agg_run k s s' \<Longrightarrow> thread_moves s' s'' \<Longrightarrow> agg_run k s s''"
| run_writer: "agg_run k s s' \<Longrightarrow> agg_run (Suc k) s (Writer_Step s')"

text \<open>And one thread that starts and stops the aggregator, any number of times.\<close>

inductive agg_reach :: "Aggregator \<Rightarrow> bool" where
  reach_init: "agg_reach (Aggregator_init fs)"
| reach_run: "agg_reach s \<Longrightarrow> agg_run k s s' \<Longrightarrow> agg_reach s'"
| reach_request: "agg_reach s \<Longrightarrow> agg_reach (Stop_request s)"
| reach_join: "agg_reach s \<Longrightarrow> \<not> ag_running s \<Longrightarrow> writer_over s \<Longrightarrow> agg_reach (Stop_join s)"
| reach_start: "agg_reach s \<Longrightarrow> \<not> ag_running s \<Longrightarrow> ag_writer s = None \<Longrightarrow> Aggregator_Start path opens s = (s', r) \<Longrightarrow>
     agg_reach s'"

section \<open>What runs keep\<close>

definition queue_of :: "Aggregator \<Rightarrow> nat \<Rightarrow> Sample list" where
  "queue_of s t = (case ag_producer s t of None \<Rightarrow> [] | Some p \<Rightarrow> pr_queue p)"

definition of_thread :: "nat \<Rightarrow> (nat \<times> Sample) list \<Rightarrow> Sample list" where
  "of_thread t xs = map snd (filter (\<lambda>x. fst x = t) xs)"

lemma of_thread_simps [simp]:
  "of_thread t [] = []"
  "of_thread t (xs @ ys) = of_thread t xs @ of_thread t ys"
  "of_thread t [(u, sample)] = (if u = t then [sample] else [])"
  "of_thread t (map (\<lambda>sample. (u, sample)) samples) = (if u = t then samples else [])"
  by (auto simp: of_thread_def filter_map o_def)

text \<open>The producers the writer's pass has before it, and all it knows of.\<close>

fun ahead :: "writer_at \<Rightarrow> nat list \<Rightarrow> nat list" where
  "ahead (AtProducer kept rest) registry = rest"
| "ahead (AtQueue kept t retired rest) registry = t # rest"
| "ahead _ registry = []"

fun known :: "writer_at \<Rightarrow> nat list \<Rightarrow> nat list" where
  "known (AtProducer kept rest) registry = kept @ rest"
| "known (AtQueue kept t retired rest) registry = kept @ t # rest"
| "known _ registry = registry"

fun known_to :: "Writer option \<Rightarrow> nat list \<Rightarrow> nat list" where
  "known_to None registry = registry"
| "known_to (Some w) registry = known (wr_at w) registry"

definition registered :: "Aggregator \<Rightarrow> nat set" where
  "registered s = set (known_to (ag_writer s) (ag_registry s))"

text \<open>
  A producer retires when its thread is gone, and one that has not, or has anything in
  its queue, is known to the writer; one the writer read as retired belongs to no thread
  that can still push.
\<close>

definition producers_ok :: "Aggregator \<Rightarrow> bool" where
  "producers_ok s \<longleftrightarrow>
     (\<forall>t p. ag_producer s t = Some p \<longrightarrow>
        (pr_retired p \<longleftrightarrow> ag_recorder s t = Exited) \<and> length (pr_queue p) \<le> kQueueCapacity \<and>
        (\<not> pr_retired p \<or> pr_queue p \<noteq> [] \<longrightarrow> t \<in> registered s)) \<and>
     (\<forall>t \<in> registered s. ag_producer s t \<noteq> None) \<and>
     (\<forall>w kept t rest. ag_writer s = Some w \<longrightarrow> wr_at w = AtQueue kept t True rest \<longrightarrow> ag_recorder s t = Exited)"

definition in_flight :: "recorder \<Rightarrow> Sample list" where
  "in_flight r = (case r of Recording sample \<Rightarrow> [sample] | Refused sample \<Rightarrow> [sample] | _ \<Rightarrow> [])"

lemma in_flight_simps [simp]:
  "in_flight Outside = []" "in_flight Exited = []" "in_flight (Recording x) = [x]" "in_flight (Refused x) = [x]"
  by (simp_all add: in_flight_def)

definition samples_ok :: "Aggregator \<Rightarrow> bool" where
  "samples_ok s \<longleftrightarrow>
     (\<forall>t. of_thread t (ag_taken s) = of_thread t (ag_drained s) @ queue_of s t) \<and>
     (\<forall>t. mset (of_thread t (ag_recorded s)) =
        mset (of_thread t (ag_taken s)) + mset (of_thread t (ag_refused s)) + mset (in_flight (ag_recorder s t))) \<and>
     ag_dropped s = of_nat (length (drop (ag_refused_from s) (ag_refused s))) \<and>
     ag_refused_from s \<le> length (ag_refused s) \<and> ag_drained_from s \<le> length (ag_drained s)"

definition sample_lines :: "(nat \<times> Sample) list \<Rightarrow> string" where
  "sample_lines xs = concat (map (sample_line \<circ> snd) xs)"

text \<open>The file holds the lines drained since it was opened, but those in the buffer, and then its closing line.\<close>

definition file_ok :: "Aggregator \<Rightarrow> bool" where
  "file_ok s \<longleftrightarrow>
     (ag_running s \<longrightarrow> (\<exists>w. ag_writer s = Some w \<and> \<not> wr_stop_requested w)) \<and>
     (\<forall>w. ag_writer s = Some w \<longrightarrow> (wr_stopping w \<longrightarrow> wr_stop_requested w) \<and> (wr_at w = WriterOver \<longrightarrow> wr_stopping w) \<and>
        (\<exists>text. ag_files s (wr_path w) = Some text \<and>
          (let lines = sample_lines (drop (ag_drained_from s) (ag_drained s))
           in if wr_at w = WriterOver then \<exists>n. text = lines @ dropped_line n
              else text @ wr_buffer w = lines \<and> (wr_at w = AtLoop \<longrightarrow> wr_buffer w = []))))"

definition agg_ok :: "Aggregator \<Rightarrow> bool" where
  "agg_ok s \<longleftrightarrow> producers_ok s \<and> samples_ok s \<and> file_ok s"

lemma agg_ok_init: "agg_ok (Aggregator_init fs)"
  by (simp add: agg_ok_def producers_ok_def samples_ok_def file_ok_def Aggregator_init_def registered_def queue_of_def)

lemma agg_ok_load:
  assumes "agg_ok s" "ag_recorder s t = Outside" shows "agg_ok (Record_load t sample s)"
proof -
  have "producers_ok (Record_load t sample s)"
    using assms by (auto simp: agg_ok_def producers_ok_def Record_load_def registered_def)
  moreover have "samples_ok (Record_load t sample s)"
    using assms by (auto simp: agg_ok_def samples_ok_def Record_load_def queue_of_def)
  moreover have "file_ok (Record_load t sample s)"
    using assms by (auto simp: agg_ok_def file_ok_def Record_load_def)
  ultimately show ?thesis by (simp add: agg_ok_def)
qed

lemma agg_ok_register:
  assumes "agg_ok s" "ag_recorder s t = Recording sample" "\<not> draining s" shows "agg_ok (LocalProducer t s)"
proof (cases "ag_producer s t")
  case None
  have "producers_ok (LocalProducer t s)"
    using assms None
    by (auto simp: agg_ok_def producers_ok_def LocalProducer_def registered_def draining_def
        split: option.splits writer_at.splits)
  moreover have "samples_ok (LocalProducer t s)"
    using assms None by (auto simp: agg_ok_def samples_ok_def LocalProducer_def queue_of_def)
  moreover have "file_ok (LocalProducer t s)"
    using assms None by (simp add: agg_ok_def file_ok_def LocalProducer_def)
  ultimately show ?thesis by (simp add: agg_ok_def)
qed (use assms(1) in \<open>simp add: LocalProducer_def\<close>)

lemma agg_ok_push:
  assumes "agg_ok s" "ag_recorder s t = Recording sample" "ag_producer s t = Some p"
  shows "agg_ok (Record_push t sample p s)"
proof -
  have "producers_ok (Record_push t sample p s)"
    using assms by (auto simp: agg_ok_def producers_ok_def Record_push_def registered_def)
  moreover have "samples_ok (Record_push t sample p s)"
    using assms by (auto simp: agg_ok_def samples_ok_def Record_push_def queue_of_def)
  moreover have "file_ok (Record_push t sample p s)"
    using assms by (simp add: agg_ok_def file_ok_def Record_push_def)
  ultimately show ?thesis by (simp add: agg_ok_def)
qed

lemma agg_ok_count:
  assumes "agg_ok s" "ag_recorder s t = Refused sample" shows "agg_ok (Record_count t sample s)"
proof -
  have "producers_ok (Record_count t sample s)"
    using assms by (auto simp: agg_ok_def producers_ok_def Record_count_def registered_def)
  moreover have "samples_ok (Record_count t sample s)"
    using assms by (auto simp: agg_ok_def samples_ok_def Record_count_def queue_of_def)
  moreover have "file_ok (Record_count t sample s)"
    using assms by (simp add: agg_ok_def file_ok_def Record_count_def)
  ultimately show ?thesis by (simp add: agg_ok_def)
qed

lemma agg_ok_exit:
  assumes "agg_ok s" "ag_recorder s t = Outside" shows "agg_ok (Thread_exit t s)"
proof -
  have "producers_ok (Thread_exit t s)"
    using assms by (auto simp: agg_ok_def producers_ok_def Thread_exit_def registered_def)
  moreover have "samples_ok (Thread_exit t s)"
    using assms by (auto simp: agg_ok_def samples_ok_def Thread_exit_def queue_of_def split: option.splits)
  moreover have "file_ok (Thread_exit t s)"
    using assms by (simp add: agg_ok_def file_ok_def Thread_exit_def)
  ultimately show ?thesis by (simp add: agg_ok_def)
qed

lemma agg_ok_writer:
  assumes ok: "agg_ok s" and w: "ag_writer s = Some w" shows "agg_ok (Writer_move w s)"
proof (cases "wr_at w")
  case AtLoop
  have "producers_ok (Writer_move w s)" "samples_ok (Writer_move w s)"
    using ok w AtLoop
    by (auto simp: agg_ok_def producers_ok_def samples_ok_def Writer_move_def registered_def append_file_def queue_of_def)
  moreover have "file_ok (Writer_move w s)"
    using ok w AtLoop by (auto simp: agg_ok_def file_ok_def Writer_move_def append_file_def Let_def)
  ultimately show ?thesis by (simp add: agg_ok_def)
next
  case (AtProducer kept rest)
  have "producers_ok s" using ok by (simp add: agg_ok_def)
  then have "producers_ok (Writer_move w s)"
    using w AtProducer by (cases rest) (fastforce simp: producers_ok_def Writer_move_def registered_def)+
  moreover have "samples_ok (Writer_move w s)"
    using ok AtProducer by (cases rest) (simp_all add: agg_ok_def samples_ok_def Writer_move_def queue_of_def)
  moreover have "file_ok (Writer_move w s)"
    using ok w AtProducer by (auto simp: agg_ok_def file_ok_def Writer_move_def Let_def split: list.splits)
  ultimately show ?thesis by (simp add: agg_ok_def)
next
  case (AtQueue kept t retired rest)
  then obtain p where p: "ag_producer s t = Some p"
    using ok w by (auto simp: agg_ok_def producers_ok_def registered_def)
  have "producers_ok (Writer_move w s)"
    using ok w AtQueue p by (auto simp: agg_ok_def producers_ok_def Writer_move_def registered_def Let_def)
  moreover have "samples_ok (Writer_move w s)"
    using ok w AtQueue p by (auto simp: agg_ok_def samples_ok_def Writer_move_def queue_of_def Let_def)
  moreover have "file_ok (Writer_move w s)"
    using ok w AtQueue p
    by (auto simp: agg_ok_def file_ok_def samples_ok_def Writer_move_def Let_def sample_lines_def o_def)
  ultimately show ?thesis by (simp add: agg_ok_def)
next
  case PastDrain
  have "producers_ok (Writer_move w s)" "samples_ok (Writer_move w s)"
    using ok w PastDrain
    by (auto simp: agg_ok_def producers_ok_def samples_ok_def Writer_move_def registered_def append_file_def queue_of_def)
  moreover have "file_ok (Writer_move w s)"
    using ok w PastDrain by (auto simp: agg_ok_def file_ok_def Writer_move_def append_file_def Let_def)
  ultimately show ?thesis by (simp add: agg_ok_def)
qed (use ok in \<open>simp add: Writer_move_def\<close>)

lemma agg_ok_Writer_Step: "agg_ok s \<Longrightarrow> agg_ok (Writer_Step s)"
  by (auto simp: Writer_Step_def agg_ok_writer split: option.splits)

lemma agg_ok_thread: "thread_moves s s' \<Longrightarrow> agg_ok s \<Longrightarrow> agg_ok s'"
  by (induction rule: thread_moves.induct)
    (auto simp: agg_ok_load agg_ok_register agg_ok_push agg_ok_count agg_ok_exit)

lemma agg_ok_run: "agg_run k s s' \<Longrightarrow> agg_ok s \<Longrightarrow> agg_ok s'"
  by (induction rule: agg_run.induct) (auto intro: agg_ok_thread agg_ok_Writer_Step)

lemma agg_ok_request: "agg_ok s \<Longrightarrow> agg_ok (Stop_request s)"
  by (cases "ag_writer s")
    (auto simp: agg_ok_def producers_ok_def samples_ok_def file_ok_def Stop_request_def registered_def queue_of_def Let_def)

lemma agg_ok_join: "agg_ok s \<Longrightarrow> \<not> ag_running s \<Longrightarrow> writer_over s \<Longrightarrow> agg_ok (Stop_join s)"
  by (cases "ag_writer s")
    (auto simp: agg_ok_def producers_ok_def samples_ok_def file_ok_def Stop_join_def writer_over_def registered_def
      queue_of_def)

lemma agg_ok_start:
  "agg_ok s \<Longrightarrow> ag_writer s = None \<Longrightarrow> Aggregator_Start path opens s = (s', r) \<Longrightarrow> agg_ok s'"
  by (auto simp: agg_ok_def producers_ok_def samples_ok_def file_ok_def Aggregator_Start_def registered_def
      queue_of_def sample_lines_def split: if_splits)

lemma agg_ok_reach: "agg_reach s \<Longrightarrow> agg_ok s"
  by (induction rule: agg_reach.induct)
    (auto intro: agg_ok_init agg_ok_run agg_ok_request agg_ok_join agg_ok_start)

section \<open>Stopping\<close>

text \<open>No thread is inside \<^verbatim>\<open>Record\<close>; then, once stopped, none comes in.\<close>

definition quiet :: "Aggregator \<Rightarrow> bool" where
  "quiet s \<longleftrightarrow> (\<forall>t. in_flight (ag_recorder s t) = [])"

text \<open>The steps the writer has left: the rest of its pass, and one more pass unless this is the last.\<close>

fun pass_left :: "writer_at \<Rightarrow> nat \<Rightarrow> nat" where
  "pass_left AtLoop n = 0"
| "pass_left (AtProducer kept rest) n = 2 * length rest + 2"
| "pass_left (AtQueue kept t retired rest) n = 2 * length rest + 3"
| "pass_left PastDrain n = 1"
| "pass_left WriterOver n = 0"

definition writer_left :: "Aggregator \<Rightarrow> nat" where
  "writer_left s =
     (case ag_writer s of
        None \<Rightarrow> 0
      | Some w \<Rightarrow> if wr_at w = WriterOver then 0
          else pass_left (wr_at w) 0 + (if wr_stopping w then 1 else 2 * length (known (wr_at w) (ag_registry s)) + 4))"

definition stop_ok :: "Aggregator \<Rightarrow> bool" where
  "stop_ok s \<longleftrightarrow> agg_ok s \<and> quiet s \<and> \<not> ag_running s \<and>
     (\<exists>w. ag_writer s = Some w \<and> wr_stop_requested w \<and>
        (wr_stopping w \<longrightarrow> (\<forall>t. queue_of s t \<noteq> [] \<longrightarrow> t \<in> set (ahead (wr_at w) (ag_registry s)))) \<and>
        (wr_at w = WriterOver \<longrightarrow> ag_files s (wr_path w) =
           Some (sample_lines (drop (ag_drained_from s) (ag_drained s)) @ dropped_line (ag_dropped s))))"

lemma quiet_no: "quiet s \<Longrightarrow> ag_recorder s t \<noteq> Recording x" "quiet s \<Longrightarrow> ag_recorder s t \<noteq> Refused x"
  by (auto simp: quiet_def in_flight_def split: recorder.splits dest: spec [of _ t])

lemma quiet_stays:
  "thread_moves s s' \<Longrightarrow> quiet s \<Longrightarrow> \<not> ag_running s \<Longrightarrow>
     s' = s \<or> (\<exists>t. s' = Thread_exit t s \<and> ag_recorder s t = Outside)"
  by (induction rule: thread_moves.induct) (auto simp: quiet_no Record_load_def)

lemma stop_ok_exit:
  assumes ok: "stop_ok s" and "ag_recorder s t = Outside"
  shows "stop_ok (Thread_exit t s) \<and> writer_left (Thread_exit t s) = writer_left s"
proof -
  have "agg_ok (Thread_exit t s)" using assms by (simp add: stop_ok_def agg_ok_exit)
  moreover have "queue_of (Thread_exit t s) = queue_of s"
    by (auto simp: fun_eq_iff queue_of_def Thread_exit_def split: option.splits)
  ultimately show ?thesis using ok by (auto simp: stop_ok_def quiet_def writer_left_def Thread_exit_def)
qed


lemma stop_ok_writer:
  assumes ok: "stop_ok s"
  shows "stop_ok (Writer_Step s) \<and> writer_left (Writer_Step s) \<le> writer_left s - 1"
proof -
  obtain w where w: "ag_writer s = Some w" "wr_stop_requested w"
      "wr_stopping w \<Longrightarrow> \<forall>t. queue_of s t \<noteq> [] \<longrightarrow> t \<in> set (ahead (wr_at w) (ag_registry s))"
    and closed: "wr_at w = WriterOver \<Longrightarrow> ag_files s (wr_path w) =
      Some (sample_lines (drop (ag_drained_from s) (ag_drained s)) @ dropped_line (ag_dropped s))"
    using ok by (auto simp: stop_ok_def)
  have aok: "agg_ok s" "agg_ok (Writer_move w s)" and "quiet s" "\<not> ag_running s"
    using ok w by (auto simp: stop_ok_def agg_ok_writer)
  have step: "Writer_Step s = Writer_move w s" by (simp add: Writer_Step_def w)
  have known: "queue_of s t \<noteq> [] \<Longrightarrow> t \<in> set (known (wr_at w) (ag_registry s))" for t
    using aok(1) w by (auto simp: agg_ok_def producers_ok_def registered_def queue_of_def split: option.splits)
  show ?thesis
  proof (cases "wr_at w")
    case AtLoop
    moreover obtain body where "ag_files s (wr_path w) = Some body"
      "body = sample_lines (drop (ag_drained_from s) (ag_drained s))" using aok w AtLoop by (auto simp: agg_ok_def file_ok_def)
    ultimately show ?thesis
      using ok w aok known step
      by (auto simp: stop_ok_def Writer_move_def append_file_def quiet_def queue_of_def writer_left_def)
  next
    case (AtProducer kept rest)
    then show ?thesis
      using ok w aok known step
      by (cases rest) (auto simp: stop_ok_def Writer_move_def quiet_def queue_of_def writer_left_def)
  next
    case (AtQueue kept t retired rest)
    then obtain p where p: "ag_producer s t = Some p"
      using aok w by (auto simp: agg_ok_def producers_ok_def registered_def)
    show ?thesis
      using ok w aok known step p AtQueue
      by (auto simp: stop_ok_def Writer_move_def quiet_def queue_of_def writer_left_def Let_def)
  next
    case PastDrain
    then show ?thesis
      using ok w aok known step
      by (auto simp: stop_ok_def Writer_move_def append_file_def quiet_def queue_of_def writer_left_def)
  next
    case WriterOver
    then show ?thesis
      using ok w aok known step by (auto simp: stop_ok_def Writer_move_def writer_left_def)
  qed
qed

lemma stop_ok_thread:
  assumes "thread_moves s s'" and ok: "stop_ok s"
  shows "stop_ok s' \<and> writer_left s' = writer_left s \<and> ag_taken s' = ag_taken s \<and> ag_recorded s' = ag_recorded s \<and>
    ag_refused s' = ag_refused s \<and> ag_drained s' = ag_drained s \<and> ag_dropped s' = ag_dropped s \<and>
    ag_drained_from s' = ag_drained_from s \<and> ag_refused_from s' = ag_refused_from s"
proof -
  have "s' = s \<or> (\<exists>t. s' = Thread_exit t s \<and> ag_recorder s t = Outside)"
    using assms by (intro quiet_stays) (auto simp: stop_ok_def)
  then show ?thesis using stop_ok_exit [OF ok] ok by (auto simp: Thread_exit_def)
qed

lemma Writer_Step_keeps:
  "ag_taken (Writer_Step s) = ag_taken s" "ag_recorded (Writer_Step s) = ag_recorded s"
  "ag_refused (Writer_Step s) = ag_refused s" "ag_dropped (Writer_Step s) = ag_dropped s"
  "ag_drained_from (Writer_Step s) = ag_drained_from s" "ag_refused_from (Writer_Step s) = ag_refused_from s"
  by (simp_all add: Writer_Step_def Writer_move_def append_file_def Let_def
      split: option.split writer_at.split list.split)

lemma stop_ok_run:
  "agg_run k s s' \<Longrightarrow> stop_ok s \<Longrightarrow>
     stop_ok s' \<and> writer_left s' \<le> writer_left s - k \<and> ag_taken s' = ag_taken s \<and> ag_recorded s' = ag_recorded s \<and>
     ag_refused s' = ag_refused s \<and> ag_dropped s' = ag_dropped s \<and>
     ag_drained_from s' = ag_drained_from s \<and> ag_refused_from s' = ag_refused_from s"
proof (induction rule: agg_run.induct)
  case (run_thread k s s' s'')
  then show ?case using stop_ok_thread [of s' s''] by simp
next
  case (run_writer k s s')
  then show ?case using stop_ok_writer [of s'] by (auto simp: Writer_Step_keeps)
qed simp

lemma stop_ok_request:
  assumes "agg_reach s" "ag_running s" "quiet s"
  shows "stop_ok (Stop_request s)"
proof -
  have ok: "agg_ok s" by (rule agg_ok_reach [OF assms(1)])
  then obtain w where "ag_writer s = Some w" "\<not> wr_stop_requested w" "\<not> wr_stopping w" "wr_at w \<noteq> WriterOver"
    using assms(2) by (auto simp: agg_ok_def file_ok_def)
  then show ?thesis using agg_ok_request [OF ok] assms(3) by (simp add: stop_ok_def Stop_request_def quiet_def)
qed

lemma writer_left_le:
  "writer_left s \<le> 4 * length (known_to (ag_writer s) (ag_registry s)) + 6"
proof (cases "ag_writer s")
  case (Some w)
  then show ?thesis by (cases "wr_at w") (auto simp: writer_left_def)
qed (simp add: writer_left_def)

section \<open>A run to apply them to\<close>

definition demo_sample :: Sample where
  "demo_sample = \<lparr>sm_interval = kReceiveToParseComplete, sm_nanos = -7\<rparr>"

definition demo_started :: Aggregator where
  "demo_started = fst (Aggregator_Start ''t'' True (Aggregator_init (\<lambda>_. None)))"

definition demo_timed :: Aggregator where
  "demo_timed = Record_push 0 demo_sample \<lparr>pr_queue = [], pr_retired = False\<rparr>
     (LocalProducer 0 (Record_load 0 demo_sample demo_started))"

definition demo_over :: Aggregator where
  "demo_over = (Writer_Step ^^ 7) (Stop_request demo_timed)"

lemma demo_timed_simps:
  "ag_running demo_timed" "quiet demo_timed" "ag_registry demo_timed = [0]"
  "ag_taken demo_timed = [(0, demo_sample)]" "ag_refused demo_timed = []" "queue_of demo_timed 0 = [demo_sample]"
  "ag_recorded demo_timed = [(0, demo_sample)]"
  "known_to (ag_writer demo_timed) (ag_registry demo_timed) = [0]"
  by (simp_all add: demo_timed_def demo_started_def Aggregator_Start_def Aggregator_init_def Record_load_def
      LocalProducer_def Record_push_def kQueueCapacity_def quiet_def queue_of_def)

lemma digit_char_7: "digit_char 7 = CHR ''7''"
  unfolding digit_char_def by code_simp

lemma demo_timed_reach: "agg_reach demo_timed"
proof -
  have "agg_reach demo_started"
    by (rule reach_start [where path = "''t''" and opens = True and r = "Inr ()", OF reach_init [of "\<lambda>_. None"]])
      (simp_all add: demo_started_def Aggregator_init_def Aggregator_Start_def)
  moreover have "agg_run 0 demo_started demo_timed"
    unfolding demo_timed_def
    by (rule run_thread [OF run_thread [OF run_thread [OF run_none mv_load] mv_register] mv_push])
      (simp_all add: demo_started_def Aggregator_Start_def Aggregator_init_def Record_load_def LocalProducer_def
        draining_def)
  ultimately show ?thesis by (rule reach_run)
qed

lemma agg_run_steps: "agg_run k s ((Writer_Step ^^ k) s)"
  by (induction k) (auto intro: run_none run_writer)

text \<open>The state of the run past its start, by what changes.\<close>

definition demo_state ::
    "bool \<Rightarrow> bool \<Rightarrow> Sample list \<Rightarrow> string \<Rightarrow> writer_at \<Rightarrow> string \<Rightarrow> (nat \<times> Sample) list \<Rightarrow> Aggregator" where
  "demo_state requested stopping queued buffer now_at body drained =
     \<lparr>ag_running = \<not> requested, ag_dropped = 0, ag_registry = [0],
      ag_producer = [0 \<mapsto> \<lparr>pr_queue = queued, pr_retired = False\<rparr>],
      ag_writer = Some \<lparr>wr_stop_requested = requested, wr_stopping = stopping, wr_buffer = buffer, wr_path = ''t'', wr_at = now_at\<rparr>,
      ag_recorder = (\<lambda>_. Outside), ag_files = [''t'' \<mapsto> body], ag_recorded = [(0, demo_sample)],
      ag_taken = [(0, demo_sample)], ag_refused = [], ag_drained = drained, ag_refused_from = 0, ag_drained_from = 0\<rparr>"

lemma demo_state_steps:
  "Writer_Step (demo_state True False q b AtLoop f d) = demo_state True True q b (AtProducer [] [0]) f d"
  "Writer_Step (demo_state True True q b (AtProducer [] [0]) f d) = demo_state True True q b (AtQueue [] 0 False []) f d"
  "Writer_Step (demo_state True True q b (AtQueue [] 0 False []) f d) =
     demo_state True True [] (b @ concat (map sample_line q)) (AtProducer [0] []) f (d @ map (\<lambda>x. (0, x)) q)"
  "Writer_Step (demo_state True True q b (AtProducer [0] []) f d) = demo_state True True q b PastDrain f d"
  "b \<noteq> [] \<Longrightarrow> Writer_Step (demo_state True True q b PastDrain f d) = demo_state True True q [] AtLoop (f @ b) d"
  "Writer_Step (demo_state True True q b AtLoop f d) = demo_state True True q b WriterOver (f @ dropped_line 0) d"
  "Writer_Step (demo_state True True q b WriterOver f d) = demo_state True True q b WriterOver f d"
  by (simp_all add: demo_state_def Writer_Step_def Writer_move_def append_file_def fun_eq_iff)

lemma demo_timed_state: "demo_timed = demo_state False False [demo_sample] [] AtLoop [] []"
  by (simp add: demo_timed_def demo_started_def demo_state_def Aggregator_Start_def Aggregator_init_def Record_load_def
      LocalProducer_def Record_push_def kQueueCapacity_def fun_eq_iff)

lemma demo_over_state:
  "demo_over = demo_state True True [] [] WriterOver (sample_line demo_sample @ dropped_line 0) [(0, demo_sample)]"
proof -
  have "Stop_request demo_timed = demo_state True False [demo_sample] [] AtLoop [] []"
    by (simp add: demo_timed_state demo_state_def Stop_request_def)
  moreover have "sample_line demo_sample \<noteq> []" by (simp add: sample_line_def)
  ultimately show ?thesis by (simp add: demo_over_def numeral_eq_Suc demo_state_steps)
qed

lemma demo_over_simps:
  "ag_writer demo_over = Some \<lparr>wr_stop_requested = True, wr_stopping = True, wr_buffer = [], wr_path = ''t'', wr_at = WriterOver\<rparr>"
  "ag_drained demo_over = [(0, demo_sample)]" "ag_drained_from demo_timed = 0" "ag_refused_from demo_timed = 0"
  by (simp_all add: demo_over_state demo_timed_state demo_state_def)

section \<open>Properties\<close>

text \<open>
  C17. Over every run, whatever threads come, record, overrun their queues and go while the
  writer passes over them, and however often the aggregator is started and stopped: of
  each thread's samples that its queue took, those the writers drained and then those still
  queued are all, in the order they were recorded; the samples recorded are those taken,
  those counted as dropped, and at most one the thread still has in hand; no queue is over
  its capacity; and the open file and the writer's buffer hold exactly the lines of what
  was drained since \<^verbatim>\<open>Start\<close>.
\<close>

theorem timings_lose_nothing:
  assumes "agg_reach s"
  shows "of_thread t (ag_taken s) = of_thread t (ag_drained s) @ queue_of s t \<and>
    length (queue_of s t) \<le> kQueueCapacity \<and>
    mset (of_thread t (ag_recorded s)) =
      mset (of_thread t (ag_taken s)) + mset (of_thread t (ag_refused s)) + mset (in_flight (ag_recorder s t)) \<and>
    (case ag_writer s of
       None \<Rightarrow> True
     | Some w \<Rightarrow> wr_at w = WriterOver \<or>
         (\<exists>body. ag_files s (wr_path w) = Some body \<and>
            body @ wr_buffer w = sample_lines (drop (ag_drained_from s) (ag_drained s))))"
proof -
  have ok: "producers_ok s" "samples_ok s" "file_ok s" using agg_ok_reach [OF assms] by (simp_all add: agg_ok_def)
  have "length (queue_of s t) \<le> kQueueCapacity"
    using ok(1) by (auto simp: producers_ok_def queue_of_def split: option.split)
  then show ?thesis using ok(2,3) by (auto simp: samples_ok_def file_ok_def Let_def split: option.split if_splits)
qed

theorem timings_lose_nothing_witness:
  "of_thread 0 (ag_taken demo_timed) = [] @ queue_of demo_timed 0 \<and> queue_of demo_timed 0 = [demo_sample]"
  using timings_lose_nothing [OF demo_timed_reach, of 0] demo_timed_simps
  by (auto simp: demo_timed_def demo_started_def Aggregator_Start_def Aggregator_init_def Record_load_def
      LocalProducer_def Record_push_def)

text \<open>
  C40. A \<^verbatim>\<open>Stop\<close> that no \<^verbatim>\<open>Record\<close> is in the middle of writes everything out: when the writer
  is over, each thread's drained samples are all its queue ever took, so nothing is left for
  a later file; what it recorded and was not drained was counted; and the file is the lines of what was
  drained since \<^verbatim>\<open>Start\<close> and then the count of the samples dropped since.
\<close>

theorem stop_writes_out_what_was_recorded:
  assumes "agg_reach s" and "ag_running s" and "quiet s" and "agg_run k (Stop_request s) s'"
    and "ag_writer s' = Some w" and "wr_at w = WriterOver"
  shows "of_thread t (ag_drained s') = of_thread t (ag_taken s) \<and>
    mset (of_thread t (ag_recorded s)) = mset (of_thread t (ag_drained s')) + mset (of_thread t (ag_refused s)) \<and>
    ag_files s' (wr_path w) = Some (sample_lines (drop (ag_drained_from s) (ag_drained s')) @
      dropped_line (of_nat (length (ag_refused s) - ag_refused_from s)))"
proof -
  have run: "stop_ok s'" "ag_taken s' = ag_taken s" "ag_dropped s' = ag_dropped s"
      "ag_drained_from s' = ag_drained_from s"
    using stop_ok_run [OF assms(4) stop_ok_request [OF assms(1-3)]] by (simp_all add: Stop_request_def)
  have ok: "samples_ok s" "file_ok s'" "wr_stopping w" "samples_ok s'"
    using agg_ok_reach [OF assms(1)] run(1) assms(5,6) by (auto simp: agg_ok_def stop_ok_def file_ok_def)
  then have "queue_of s' t = []" using run(1) assms(5,6) by (auto simp: stop_ok_def)
  then have drained: "of_thread t (ag_drained s') = of_thread t (ag_taken s)"
    using ok(4) run(2) by (simp add: samples_ok_def)
  moreover have "in_flight (ag_recorder s t) = []" using assms(3) by (simp add: quiet_def)
  moreover have "ag_dropped s = of_nat (length (ag_refused s) - ag_refused_from s)"
    using ok(1) by (simp add: samples_ok_def)
  ultimately show ?thesis using ok(1) run assms(5,6) by (auto simp: stop_ok_def samples_ok_def)
qed

theorem stop_writes_out_what_was_recorded_witness:
  "of_thread 0 (ag_drained demo_over) = [demo_sample] \<and>
   ag_files demo_over ''t'' = Some (''receive_to_parse_complete -7'' @ [CHR 0x0A] @ ''# dropped 0'' @ [CHR 0x0A])"
  using stop_writes_out_what_was_recorded [OF demo_timed_reach demo_timed_simps(1,2),
      OF agg_run_steps [of 7 "Stop_request demo_timed"], folded demo_over_def, OF demo_over_simps(1), of 0]
  by (simp add: demo_timed_simps demo_over_simps sample_lines_def sample_line_def dropped_line_def demo_sample_def
      int_to_dec_def nat_to_dec.simps digit_char_7)

text \<open>
  C18. And it returns: after a request to stop with no \<^verbatim>\<open>Record\<close> going on, the writer is over within
  four steps of its own for each producer it knows and six more, whatever other threads do.
\<close>

theorem stop_returns:
  assumes "agg_reach s" and "ag_running s" and "quiet s" and "agg_run k (Stop_request s) s'"
    and "k \<ge> 4 * length (known_to (ag_writer s) (ag_registry s)) + 6"
  shows "writer_over s'"
proof -
  have "known_to (ag_writer (Stop_request s)) (ag_registry (Stop_request s)) = known_to (ag_writer s) (ag_registry s)"
    by (cases "ag_writer s") (simp_all add: Stop_request_def)
  then have "writer_left (Stop_request s) \<le> k" using writer_left_le [of "Stop_request s"] assms(5) by simp
  then have "stop_ok s'" "writer_left s' = 0"
    using stop_ok_run [OF assms(4) stop_ok_request [OF assms(1-3)]] by auto
  then show ?thesis by (auto simp: stop_ok_def writer_left_def writer_over_def split: if_splits)
qed

theorem stop_returns_witness: "writer_over ((Writer_Step ^^ 10) (Stop_request demo_timed))"
  by (rule stop_returns [OF demo_timed_reach demo_timed_simps(1,2) agg_run_steps]) (subst demo_timed_simps, simp)

end
