(* ===== verification/NetWebsocketFeed.thy ===== *)
theory NetWebsocketFeed
  imports Spsc VenueL2Decoder
begin

text \<open>
  net/websocket_feed.h and net/websocket_feed.cc: a connection's texts on their way out, and
  the network thread that reads frames, logs them and hands them to the parser through a
  Spsc queue. What Beast does is an argument of the steps: which completion handler runs
  next and with what. A step of the network thread is one iteration of the loop in \<^verbatim>\<open>Next\<close> or
  one statement of \<^verbatim>\<open>Run\<close>. Beside the state are remembered the texts given to the
  connection and those whose write completed, and the frames read.
\<close>

section \<open>The code: a connection\<close>

record Connection =
  cn_posted :: "string list"
  cn_outbox :: "string list"
  cn_writing :: bool
  cn_write_error :: "exn option"
  cn_given :: "string list"
  cn_written :: "string list"

definition Connection_new :: Connection where
  "Connection_new = \<lparr>cn_posted = [], cn_outbox = [], cn_writing = False, cn_write_error = None,
     cn_given = [], cn_written = []\<rparr>"

definition Connection_Send :: "string \<Rightarrow> Connection \<Rightarrow> Connection" where
  "Connection_Send str c = c\<lparr>cn_posted := cn_posted c @ [str], cn_given := cn_given c @ [str]\<rparr>"

definition Connection_WriteFront :: "Connection \<Rightarrow> Connection" where
  "Connection_WriteFront c = c\<lparr>cn_writing := True\<rparr>"

text \<open>The handler \<^verbatim>\<open>Send\<close> posted, and the one of a write that is over.\<close>

definition Connection_Posted :: "Connection \<Rightarrow> Connection" where
  "Connection_Posted c =
     (case cn_posted c of
        [] \<Rightarrow> c
      | str # rest \<Rightarrow>
          let c = c\<lparr>cn_posted := rest, cn_outbox := cn_outbox c @ [str]\<rparr>
          in if length (cn_outbox c) = 1 then Connection_WriteFront c else c)"

definition Connection_Written :: "exn option \<Rightarrow> Connection \<Rightarrow> Connection" where
  "Connection_Written ec c =
     (case ec of
        Some e \<Rightarrow> c\<lparr>cn_write_error := Some e, cn_outbox := [], cn_writing := False\<rparr>
      | None \<Rightarrow>
          let c = c\<lparr>cn_written := cn_written c @ [hd (cn_outbox c)], cn_outbox := tl (cn_outbox c), cn_writing := False\<rparr>
          in if cn_outbox c \<noteq> [] then Connection_WriteFront c else c)"

text \<open>What \<^verbatim>\<open>run_one_for\<close> ran: nothing in time, a handler of this connection's, the read's.\<close>

datatype handler = NoHandler | RunPosted | WriteDone "exn option" | ReadDone "exn + string"

definition Connection_handler :: "handler \<Rightarrow> Connection \<Rightarrow> Connection" where
  "Connection_handler h c =
     (case h of
        RunPosted \<Rightarrow> Connection_Posted c
      | WriteDone ec \<Rightarrow> if cn_writing c then Connection_Written ec c else c
      | _ \<Rightarrow> c)"

text \<open>\<^verbatim>\<open>Close\<close> runs what is left, up to its timeout and then with the socket closed.\<close>

definition Connection_Close :: "handler list \<Rightarrow> Connection \<Rightarrow> Connection" where
  "Connection_Close hs c = fold Connection_handler hs c"

section \<open>The code: the feed\<close>

text \<open>
  Where the network thread is: not running, before \<^verbatim>\<open>Next\<close>, in its loop with the read's
  result if it has completed, past \<^verbatim>\<open>Next\<close>, past the stamp, past the log, in \<^verbatim>\<open>PushBlocking\<close>.
\<close>

datatype network_at =
    NotRunning
  | BeforeNext
  | InNext "(exn + string) option"
  | GotFrame string
  | Stamped RawFrame
  | Logged RawFrame
  | InPush

text \<open>\<^verbatim>\<open>status_.failed\<close> is the flag of the queue to give up.\<close>

record WebsocketFeed =
  wf_stem :: string
  wf_connection :: "Connection option"
  wf_raw_log :: "string option"
  wf_files :: "string \<Rightarrow> string option"
  wf_stop :: bool
  wf_at :: network_at
  wf_frames :: "RawFrame Spsc"
  wf_read :: "RawFrame list"
  wf_logged :: "RawFrame list"

definition WebsocketFeed_new :: "string \<Rightarrow> (string \<Rightarrow> string option) \<Rightarrow> WebsocketFeed" where
  "WebsocketFeed_new stem fs =
     \<lparr>wf_stem = stem, wf_connection = None, wf_raw_log = None, wf_files = fs, wf_stop = False, wf_at = NotRunning,
      wf_frames = Spsc_init, wf_read = [], wf_logged = []\<rparr>"

definition log_line :: "RawFrame \<Rightarrow> string" where
  "log_line frame = json_text frame @ [CHR 0x0A]"

text \<open>\<^verbatim>\<open>OpenRawLog\<close>; \<open>opens\<close> is whether the file can be opened.\<close>

definition OpenRawLog :: "i64 \<Rightarrow> bool \<Rightarrow> WebsocketFeed \<Rightarrow> WebsocketFeed \<times> unit result" where
  "OpenRawLog now opens f =
     (let path = wf_stem f @ ''-'' @ int_to_dec now @ ''.txt''
      in if opens then (f\<lparr>wf_raw_log := Some path, wf_files := (wf_files f)(path := Some []), wf_logged := []\<rparr>, Inr ())
         else (f, Inl (runtime_error (''Cannot open '' @ path))))"

text \<open>\<^verbatim>\<open>Disconnect\<close> up to its wait for the network thread, and past it.\<close>

definition Disconnect_request :: "WebsocketFeed \<Rightarrow> WebsocketFeed" where
  "Disconnect_request f = f\<lparr>wf_stop := True\<rparr>"

definition Disconnect_join :: "WebsocketFeed \<Rightarrow> WebsocketFeed" where
  "Disconnect_join f = f\<lparr>wf_connection := None, wf_raw_log := None\<rparr>"

text \<open>\<open>connected\<close> is what the handshakes come to.\<close>

definition Feed_Connect :: "i64 \<Rightarrow> bool \<Rightarrow> unit result \<Rightarrow> WebsocketFeed \<Rightarrow> WebsocketFeed \<times> unit result" where
  "Feed_Connect now opens connected f =
     (case OpenRawLog now opens f of
        (f, Inl e) \<Rightarrow> (Disconnect_join (Disconnect_request f), Inl e)
      | (f, Inr _) \<Rightarrow>
          (case connected of
             Inl e \<Rightarrow> (Disconnect_join (Disconnect_request f), Inl e)
           | Inr _ \<Rightarrow> (f\<lparr>wf_connection := Some Connection_new, wf_stop := False, wf_at := BeforeNext\<rparr>, Inr ())))"

definition WebsocketFeed_Send :: "string \<Rightarrow> WebsocketFeed \<Rightarrow> WebsocketFeed" where
  "WebsocketFeed_Send str f = f\<lparr>wf_connection := map_option (Connection_Send str) (wf_connection f)\<rparr>"

text \<open>A step of the loop in \<^verbatim>\<open>Next\<close>; throwing ends the thread and fails the pipeline.\<close>

definition network_fails :: "WebsocketFeed \<Rightarrow> WebsocketFeed" where
  "network_fails f = f\<lparr>wf_at := NotRunning, wf_frames := (wf_frames f)\<lparr>sp_give_up := True\<rparr>\<rparr>"

definition Next_step :: "handler \<Rightarrow> handler list \<Rightarrow> Connection \<Rightarrow> WebsocketFeed \<Rightarrow> WebsocketFeed" where
  "Next_step h closing c f =
     (if wf_stop f then f\<lparr>wf_connection := Some (Connection_Close closing c), wf_at := NotRunning\<rparr>
      else
        let c = Connection_handler h c; f = f\<lparr>wf_connection := Some c\<rparr>
        in if cn_write_error c \<noteq> None then network_fails f
           else case h of ReadDone r \<Rightarrow> f\<lparr>wf_at := InNext (Some r)\<rparr> | _ \<Rightarrow> f)"

definition Run_step :: "handler \<Rightarrow> handler list \<Rightarrow> i64 \<Rightarrow> WebsocketFeed \<Rightarrow> WebsocketFeed" where
  "Run_step h closing now f =
     (case wf_at f of
        NotRunning \<Rightarrow> f
      | BeforeNext \<Rightarrow> f\<lparr>wf_at := InNext None\<rparr>
      | InNext None \<Rightarrow> (case wf_connection f of None \<Rightarrow> f | Some c \<Rightarrow> Next_step h closing c f)
      | InNext (Some (Inl e)) \<Rightarrow> network_fails f
      | InNext (Some (Inr str)) \<Rightarrow> f\<lparr>wf_at := GotFrame str\<rparr>
      | GotFrame str \<Rightarrow>
          let frame = \<lparr>json_text = str, frame_capture_time_ns = now\<rparr>
          in f\<lparr>wf_at := Stamped frame, wf_read := wf_read f @ [frame]\<rparr>
      | Stamped frame \<Rightarrow>
          f\<lparr>wf_files := (case wf_raw_log f of
                          None \<Rightarrow> wf_files f
                        | Some path \<Rightarrow> (wf_files f)(path := map_option (\<lambda>old. old @ log_line frame) (wf_files f path))),
            wf_at := Logged frame, wf_logged := wf_logged f @ [frame]\<rparr>
      | Logged frame \<Rightarrow> f\<lparr>wf_frames := Push_begin frame (wf_frames f), wf_at := InPush\<rparr>
      | InPush \<Rightarrow>
          if sp_producer (wf_frames f) = Idle then f\<lparr>wf_at := BeforeNext\<rparr>
          else f\<lparr>wf_frames := PushBlocking kMaxQueuedFrames (wf_frames f)\<rparr>)"

end
