(* ===== verification/NetWebsocketFeedRuns.thy ===== *)
theory NetWebsocketFeedRuns
  imports NetWebsocketFeed
begin

text \<open>
  What a feed keeps true over any number of connections, whatever the socket does and however
  the network thread, the parser's thread and their owner interleave: texts go out in order,
  frames get to the log and to the parser in order, and a disconnect returns with all of them
  handed over.
\<close>

section \<open>Runs\<close>

text \<open>The parser's thread takes a step; one that throws fails the pipeline.\<close>

definition Parser_step :: "(RawFrame \<Rightarrow> bool) \<Rightarrow> WebsocketFeed \<Rightarrow> WebsocketFeed" where
  "Parser_step throws f =
     (let frames = Drain throws (wf_frames f)
      in f\<lparr>wf_frames := if sp_consumer frames = OnFail then frames\<lparr>sp_give_up := True\<rparr> else frames\<rparr>)"

text \<open>
  A feed and its owner: it connects a feed that is disconnected, may disconnect it at any
  time, and stops the parser, and then starts it over on an empty queue, only while the
  feed is disconnected.
\<close>

inductive feed_reach :: "(RawFrame \<Rightarrow> bool) \<Rightarrow> WebsocketFeed \<Rightarrow> bool" for throws :: "RawFrame \<Rightarrow> bool" where
  fd_new: "feed_reach throws (WebsocketFeed_new stem fs)"
| fd_connect: "feed_reach throws f \<Longrightarrow> wf_connection f = None \<Longrightarrow> \<not> sp_stop (wf_frames f) \<Longrightarrow>
     Feed_Connect now opens connected f = (f', r) \<Longrightarrow> feed_reach throws f'"
| fd_request: "feed_reach throws f \<Longrightarrow> feed_reach throws (Disconnect_request f)"
| fd_join: "feed_reach throws f \<Longrightarrow> wf_stop f \<Longrightarrow> wf_at f = NotRunning \<Longrightarrow> feed_reach throws (Disconnect_join f)"
| fd_send: "feed_reach throws f \<Longrightarrow> feed_reach throws (WebsocketFeed_Send str f)"
| fd_network: "feed_reach throws f \<Longrightarrow> feed_reach throws (Run_step h closing now f)"
| fd_parser: "feed_reach throws f \<Longrightarrow> feed_reach throws (Parser_step throws f)"
| fd_stop_parser: "feed_reach throws f \<Longrightarrow> wf_connection f = None \<Longrightarrow>
     feed_reach throws (f\<lparr>wf_frames := (wf_frames f)\<lparr>sp_stop := True\<rparr>\<rparr>)"
| fd_start_over: "feed_reach throws f \<Longrightarrow> wf_connection f = None \<Longrightarrow>
     feed_reach throws (f\<lparr>wf_frames := Spsc_init, wf_read := []\<rparr>)"

section \<open>What runs keep\<close>

text \<open>A connection writes its texts one at a time, in the order they were given.\<close>

definition connection_ok :: "Connection \<Rightarrow> bool" where
  "connection_ok c \<longleftrightarrow> (cn_writing c \<longleftrightarrow> cn_outbox c \<noteq> []) \<and>
     (cn_write_error c = None \<longrightarrow> cn_given c = cn_written c @ cn_outbox c @ cn_posted c)"

lemma connection_ok_new: "connection_ok Connection_new"
  by (simp add: connection_ok_def Connection_new_def)

lemma connection_ok_Send: "connection_ok c \<Longrightarrow> connection_ok (Connection_Send str c)"
  by (simp add: connection_ok_def Connection_Send_def)

lemma Send_write_error [simp]: "cn_write_error (Connection_Send str c) = cn_write_error c"
  by (simp add: Connection_Send_def)

lemma connection_ok_handler: "connection_ok c \<Longrightarrow> connection_ok (Connection_handler h c)"
  by (cases "cn_outbox c")
    (auto simp: connection_ok_def Connection_handler_def Connection_Posted_def Connection_Written_def
      Connection_WriteFront_def Let_def split: handler.splits list.splits option.splits)

lemma connection_ok_Close: "connection_ok c \<Longrightarrow> connection_ok (Connection_Close hs c)"
  unfolding Connection_Close_def by (induction hs arbitrary: c) (simp_all add: connection_ok_handler)

text \<open>The frame the network thread has read and not yet offered to the queue.\<close>

definition at_hand :: "network_at \<Rightarrow> RawFrame list" where
  "at_hand a = (case a of Stamped frame \<Rightarrow> [frame] | Logged frame \<Rightarrow> [frame] | _ \<Rightarrow> [])"

definition unlogged :: "network_at \<Rightarrow> RawFrame list" where
  "unlogged a = (case a of Stamped frame \<Rightarrow> [frame] | _ \<Rightarrow> [])"

lemma at_hand_simps [simp]:
  "at_hand NotRunning = []" "at_hand BeforeNext = []" "at_hand (InNext r) = []" "at_hand (GotFrame str) = []"
  "at_hand (Stamped frame) = [frame]" "at_hand (Logged frame) = [frame]" "at_hand InPush = []"
  "unlogged NotRunning = []" "unlogged BeforeNext = []" "unlogged (InNext r) = []" "unlogged (GotFrame str) = []"
  "unlogged (Stamped frame) = [frame]" "unlogged (Logged frame) = []" "unlogged InPush = []"
  by (simp_all add: at_hand_def unlogged_def)

text \<open>While connected, the log holds the frames logged, which are the last read but the one in hand.\<close>

definition log_ok :: "WebsocketFeed \<Rightarrow> bool" where
  "log_ok f \<longleftrightarrow>
     (if wf_connection f = None then wf_at f = NotRunning \<and> wf_raw_log f = None
      else (\<exists>path. wf_raw_log f = Some path \<and> wf_files f path = Some (concat (map log_line (wf_logged f)))) \<and>
        (\<exists>before. before @ wf_logged f @ unlogged (wf_at f) = wf_read f))"

definition handover_ok :: "(RawFrame \<Rightarrow> bool) \<Rightarrow> WebsocketFeed \<Rightarrow> bool" where
  "handover_ok throws f \<longleftrightarrow>
     spsc_ok kMaxQueuedFrames throws (wf_frames f) \<and> stop_seen_ok (wf_frames f) \<and>
     sp_offered (wf_frames f) @ at_hand (wf_at f) = wf_read f \<and>
     (wf_at f \<noteq> InPush \<longrightarrow> sp_producer (wf_frames f) = Idle) \<and>
     (sp_consumer (wf_frames f) = OnFail \<longrightarrow> sp_give_up (wf_frames f)) \<and>
     (sp_stop (wf_frames f) \<longrightarrow> wf_connection f = None) \<and>
     (sp_consumer (wf_frames f) = Drained \<longrightarrow> sp_queue (wf_frames f) = [])"

definition feed_inv :: "(RawFrame \<Rightarrow> bool) \<Rightarrow> WebsocketFeed \<Rightarrow> bool" where
  "feed_inv throws f \<longleftrightarrow>
     (\<forall>c. wf_connection f = Some c \<longrightarrow> connection_ok c \<and> (cn_write_error c \<noteq> None \<longrightarrow> wf_at f = NotRunning)) \<and>
     log_ok f \<and> handover_ok throws f"

lemma feed_inv_new: "feed_inv throws (WebsocketFeed_new stem fs)"
  using spsc_ok_init
  by (simp add: feed_inv_def log_ok_def handover_ok_def WebsocketFeed_new_def Spsc_init_def stop_seen_ok_def)

lemma feed_inv_connect:
  assumes ok: "feed_inv throws f" and run: "Feed_Connect now opens connected f = (f', r)"
    and c: "wf_connection f = None" and stop: "\<not> sp_stop (wf_frames f)"
  shows "feed_inv throws f'"
proof -
  have idle: "wf_at f = NotRunning" "wf_raw_log f = None" using ok c by (auto simp: feed_inv_def log_ok_def)
  have q: "handover_ok throws f" using ok by (simp add: feed_inv_def)
  show ?thesis
  proof (cases "opens \<and> connected = Inr ()")
    case True
    then obtain path where
      "f' = f\<lparr>wf_raw_log := Some path, wf_files := (wf_files f)(path := Some []), wf_logged := [],
         wf_connection := Some Connection_new, wf_stop := False, wf_at := BeforeNext\<rparr>"
      using run by (auto simp: Feed_Connect_def OpenRawLog_def Let_def)
    moreover have "cn_write_error Connection_new = None" by (simp add: Connection_new_def)
    ultimately show ?thesis
      using c stop idle q connection_ok_new by (simp add: feed_inv_def log_ok_def handover_ok_def stop_seen_ok_def)
  next
    case False
    then have "wf_connection f' = None" "wf_raw_log f' = None" "wf_at f' = wf_at f" "wf_frames f' = wf_frames f"
      "wf_read f' = wf_read f"
      using run by (auto simp: Feed_Connect_def OpenRawLog_def Let_def Disconnect_join_def Disconnect_request_def
        split: sum.splits if_splits)
    then show ?thesis using stop idle q by (simp add: feed_inv_def log_ok_def handover_ok_def)
  qed
qed

lemma feed_inv_request: "feed_inv throws f \<Longrightarrow> feed_inv throws (Disconnect_request f)"
  by (simp add: feed_inv_def log_ok_def handover_ok_def Disconnect_request_def)

lemma feed_inv_join: "feed_inv throws f \<Longrightarrow> wf_at f = NotRunning \<Longrightarrow> feed_inv throws (Disconnect_join f)"
  by (simp add: feed_inv_def log_ok_def handover_ok_def Disconnect_join_def)

lemma feed_inv_send: "feed_inv throws f \<Longrightarrow> feed_inv throws (WebsocketFeed_Send str f)"
  by (cases "wf_connection f")
    (auto simp: feed_inv_def log_ok_def handover_ok_def WebsocketFeed_Send_def connection_ok_Send)

lemma feed_inv_fails: "feed_inv throws f \<Longrightarrow> at_hand (wf_at f) = [] \<Longrightarrow> unlogged (wf_at f) = [] \<Longrightarrow> wf_at f \<noteq> InPush \<Longrightarrow>
    feed_inv throws (network_fails f)"
  by (auto simp: feed_inv_def log_ok_def handover_ok_def network_fails_def stop_seen_ok_def)

lemma feed_inv_connected:
  assumes "feed_inv throws f" and "wf_at f \<noteq> NotRunning"
  obtains c where "wf_connection f = Some c" "connection_ok c" "cn_write_error c = None"
  using assms by (auto simp: feed_inv_def log_ok_def split: if_splits)

lemma PushBlocking_keeps [simp]:
  "sp_offered (PushBlocking capacity q) = sp_offered q" "sp_stop (PushBlocking capacity q) = sp_stop q"
  "sp_consumer (PushBlocking capacity q) = sp_consumer q" "sp_give_up (PushBlocking capacity q) = sp_give_up q"
  by (simp_all add: PushBlocking_def split: producer_at.split)

lemma Push_begin_keeps [simp]:
  "sp_offered (Push_begin v q) = sp_offered q @ [v]" "sp_stop (Push_begin v q) = sp_stop q"
  "sp_consumer (Push_begin v q) = sp_consumer q" "sp_give_up (Push_begin v q) = sp_give_up q"
  "sp_queue (Push_begin v q) = sp_queue q"
  by (simp_all add: Push_begin_def)

lemma feed_inv_Run:
  assumes ok: "feed_inv throws f" shows "feed_inv throws (Run_step h closing now f)"
proof (cases "wf_at f = NotRunning")
  case True
  then show ?thesis using ok by (simp add: Run_step_def)
next
  case False
  obtain c where c: "wf_connection f = Some c" "connection_ok c" "cn_write_error c = None"
    by (rule feed_inv_connected [OF ok False])
  obtain path before where log: "wf_raw_log f = Some path" "wf_files f path = Some (concat (map log_line (wf_logged f)))"
    "before @ wf_logged f @ unlogged (wf_at f) = wf_read f"
    using ok c by (auto simp: feed_inv_def log_ok_def)
  have q: "spsc_ok kMaxQueuedFrames throws (wf_frames f)" "stop_seen_ok (wf_frames f)"
    "sp_offered (wf_frames f) @ at_hand (wf_at f) = wf_read f"
    "wf_at f \<noteq> InPush \<Longrightarrow> sp_producer (wf_frames f) = Idle"
    "sp_consumer (wf_frames f) = OnFail \<Longrightarrow> sp_give_up (wf_frames f)" "\<not> sp_stop (wf_frames f)"
    "sp_consumer (wf_frames f) \<noteq> Drained"
    using ok c by (auto simp: feed_inv_def handover_ok_def stop_seen_ok_def)
  note defs = Run_step_def feed_inv_def log_ok_def handover_ok_def
  show ?thesis
  proof (cases "wf_at f")
    case (InNext r)
    show ?thesis
    proof (cases r)
      case None
      then show ?thesis
        using c log q InNext
        by (auto simp: defs Next_step_def Let_def network_fails_def stop_seen_ok_def connection_ok_handler
            connection_ok_Close split: handler.split)
    next
      case (Some x)
      then show ?thesis
        using c log q InNext by (cases x) (auto simp: defs network_fails_def stop_seen_ok_def)
    qed
  next
    case (Stamped frame)
    then show ?thesis using c log q by (auto simp: defs intro!: exI [of _ before])
  next
    case (Logged frame)
    then show ?thesis using c log q by (auto simp: defs spsc_ok_begin stop_seen_ok_def)
  next
    case InPush
    then show ?thesis using c log q by (auto simp: defs spsc_ok_push stop_seen_ok_def)
  qed (use c log q False in \<open>auto simp: defs Let_def\<close>)
qed

lemma Drain_keeps [simp]:
  "sp_offered (Drain throws q) = sp_offered q" "sp_producer (Drain throws q) = sp_producer q"
  "sp_give_up (Drain throws q) = sp_give_up q" "sp_stop (Drain throws q) = sp_stop q"
  by (simp_all add: Drain_def split: consumer_at.split list.split)

lemma Drain_stop_seen: "stop_seen_ok q \<Longrightarrow> stop_seen_ok (Drain throws q)"
  by (auto simp: stop_seen_ok_def Drain_def split: consumer_at.splits list.splits)

lemma Drain_drained:
  "(sp_consumer q = Drained \<longrightarrow> sp_queue q = []) \<Longrightarrow>
     sp_consumer (Drain throws q) = Drained \<longrightarrow> sp_queue (Drain throws q) = []"
  by (auto simp: Drain_def split: consumer_at.splits list.splits if_splits)

lemma feed_inv_parser:
  assumes ok: "feed_inv throws f" shows "feed_inv throws (Parser_step throws f)"
proof -
  have q: "handover_ok throws f" using ok by (simp add: feed_inv_def)
  then have "spsc_ok kMaxQueuedFrames throws (Drain throws (wf_frames f))" "stop_seen_ok (Drain throws (wf_frames f))"
    "sp_consumer (Drain throws (wf_frames f)) = Drained \<longrightarrow> sp_queue (Drain throws (wf_frames f)) = []"
    by (simp_all add: handover_ok_def spsc_ok_drain Drain_stop_seen Drain_drained)
  then have "handover_ok throws (Parser_step throws f)"
    using q by (simp add: handover_ok_def Parser_step_def Let_def stop_seen_ok_def)
  then show ?thesis using ok by (simp add: feed_inv_def log_ok_def Parser_step_def Let_def)
qed

lemma feed_inv_reach: "feed_reach throws f \<Longrightarrow> feed_inv throws f"
proof (induction rule: feed_reach.induct)
  case (fd_stop_parser f)
  then show ?case by (auto simp: feed_inv_def log_ok_def handover_ok_def stop_seen_ok_def)
next
  case (fd_start_over f)
  then show ?case
    using spsc_ok_init by (auto simp: feed_inv_def log_ok_def handover_ok_def Spsc_init_def stop_seen_ok_def)
qed (auto intro: feed_inv_new feed_inv_connect feed_inv_request feed_inv_join feed_inv_send feed_inv_Run feed_inv_parser)

section \<open>Disconnecting\<close>

text \<open>
  A round of the two threads: the parser's takes three steps and the network thread one. In a
  round the parser takes a frame from a full queue, or it has failed.
\<close>

definition feed_round ::
    "(RawFrame \<Rightarrow> bool) \<Rightarrow> handler \<times> handler list \<times> i64 \<Rightarrow> WebsocketFeed \<Rightarrow> WebsocketFeed" where
  "feed_round throws e f =
     (case e of (h, closing, now) \<Rightarrow>
        Run_step h closing now (Parser_step throws (Parser_step throws (Parser_step throws f))))"

definition has_room :: "RawFrame Spsc \<Rightarrow> bool" where
  "has_room q \<longleftrightarrow> length (sp_queue q) < kMaxQueuedFrames \<or> sp_give_up q"

text \<open>How many rounds the network thread has left once it is to stop.\<close>

definition stopping_left :: "WebsocketFeed \<Rightarrow> nat" where
  "stopping_left f =
     (case wf_at f of
        NotRunning \<Rightarrow> 0
      | InNext None \<Rightarrow> 1
      | InNext (Some (Inl e)) \<Rightarrow> 1
      | BeforeNext \<Rightarrow> 2
      | InPush \<Rightarrow>
          (case sp_producer (wf_frames f) of
             Idle \<Rightarrow> 3 | Pushing v \<Rightarrow> 5 | Checking v \<Rightarrow> if sp_give_up (wf_frames f) then 4 else 6)
      | Logged frame \<Rightarrow> 7
      | Stamped frame \<Rightarrow> 8
      | GotFrame str \<Rightarrow> 9
      | InNext (Some (Inr str)) \<Rightarrow> 10)"

lemma Parser_step_simps [simp]:
  "wf_at (Parser_step throws f) = wf_at f" "wf_stop (Parser_step throws f) = wf_stop f"
  "wf_connection (Parser_step throws f) = wf_connection f"
  "sp_producer (wf_frames (Parser_step throws f)) = sp_producer (wf_frames f)"
  "sp_stop (wf_frames (Parser_step throws f)) = sp_stop (wf_frames f)"
  "sp_give_up (wf_frames f) \<Longrightarrow> sp_give_up (wf_frames (Parser_step throws f))"
  by (simp_all add: Parser_step_def Let_def)

lemma room_stays: "has_room (wf_frames f) \<Longrightarrow> has_room (wf_frames (Parser_step throws f))"
  by (auto simp: has_room_def Parser_step_def Drain_def Let_def split: consumer_at.split list.split)

lemma consuming_makes_room:
  "sp_consumer (wf_frames f) = Consuming \<Longrightarrow> length (sp_queue (wf_frames f)) \<le> kMaxQueuedFrames \<Longrightarrow>
     has_room (wf_frames (Parser_step throws f))"
  by (cases "sp_queue (wf_frames f)") (auto simp: has_room_def Parser_step_def Drain_def Let_def kMaxQueuedFrames_def)

lemma parser_makes_room:
  assumes "\<not> sp_stop (wf_frames f)" "sp_consumer (wf_frames f) \<in> {AtHead, Consuming, OnFail}"
    and "sp_consumer (wf_frames f) = OnFail \<Longrightarrow> sp_give_up (wf_frames f)"
    and "length (sp_queue (wf_frames f)) \<le> kMaxQueuedFrames"
  shows "has_room (wf_frames (Parser_step throws (Parser_step throws (Parser_step throws f))))"
proof -
  consider "sp_consumer (wf_frames f) = AtHead" | "sp_consumer (wf_frames f) = Consuming" | "sp_give_up (wf_frames f)"
    using assms(2,3) by auto
  then show ?thesis
  proof cases
    case 1
    then have "sp_consumer (wf_frames (Parser_step throws f)) = Consuming"
      "sp_queue (wf_frames (Parser_step throws f)) = sp_queue (wf_frames f)"
      using assms(1) by (simp_all add: Parser_step_def Drain_def)
    then show ?thesis using assms(4) by (intro room_stays consuming_makes_room) simp_all
  next
    case 2
    then show ?thesis using assms(4) by (intro room_stays consuming_makes_room)
  next
    case 3
    then show ?thesis by (intro room_stays) (simp add: has_room_def)
  qed
qed

lemma round_inv: "feed_inv throws f \<Longrightarrow> feed_inv throws (feed_round throws e f)"
  by (cases e) (simp add: feed_round_def feed_inv_Run feed_inv_parser)

lemma Run_step_stop [simp]: "wf_stop (Run_step h closing now f) = wf_stop f"
  by (simp add: Run_step_def Next_step_def network_fails_def Let_def
      split: network_at.split option.split sum.split handler.split)

lemma round_left:
  assumes ok: "feed_inv throws f" and stop: "wf_stop f" and running: "wf_at f \<noteq> NotRunning"
  shows "stopping_left (feed_round throws e f) < stopping_left f"
proof -
  obtain h closing now where e: "e = (h, closing, now)" by (cases e)
  let ?g = "Parser_step throws (Parser_step throws (Parser_step throws f))"
  obtain c where c: "wf_connection f = Some c" by (rule feed_inv_connected [OF ok running])
  have q: "\<not> sp_stop (wf_frames f)" "sp_consumer (wf_frames f) \<in> {AtHead, Consuming, OnFail}"
    "sp_consumer (wf_frames f) = OnFail \<Longrightarrow> sp_give_up (wf_frames f)" "length (sp_queue (wf_frames f)) \<le> kMaxQueuedFrames"
    using ok c by (cases "sp_consumer (wf_frames f)"; auto simp: feed_inv_def handover_ok_def stop_seen_ok_def spsc_ok_def)+
  have g: "wf_at ?g = wf_at f" "wf_stop ?g" "wf_connection ?g = Some c"
    "sp_producer (wf_frames ?g) = sp_producer (wf_frames f)" "sp_give_up (wf_frames f) \<Longrightarrow> sp_give_up (wf_frames ?g)"
    using stop c by simp_all
  have room: "has_room (wf_frames ?g)" by (rule parser_makes_room [OF q])
  show ?thesis
  proof (cases "wf_at f")
    case InPush
    then show ?thesis
      using g room unfolding e feed_round_def prod.case
      by (cases "sp_producer (wf_frames f)")
        (auto simp: Run_step_def stopping_left_def PushBlocking_def has_room_def)
  next
    case (InNext r)
    then show ?thesis
      using g unfolding e feed_round_def prod.case
      by (auto simp: Run_step_def Next_step_def network_fails_def stopping_left_def split: option.split sum.split)
  qed (use g running in \<open>auto simp: e feed_round_def Run_step_def stopping_left_def Let_def Push_begin_def\<close>)
qed

lemma rounds_stop:
  "feed_inv throws f \<Longrightarrow> wf_stop f \<Longrightarrow> stopping_left f \<le> length es \<Longrightarrow>
     wf_at (fold (feed_round throws) es f) = NotRunning"
proof (induction es arbitrary: f)
  case Nil
  then show ?case
    by (auto simp: stopping_left_def split: network_at.splits option.splits sum.splits producer_at.splits if_splits)
next
  case (Cons e es)
  have "wf_stop (feed_round throws e f)" using Cons.prems(2) by (cases e) (simp add: feed_round_def)
  moreover have "stopping_left (feed_round throws e f) \<le> length es"
  proof (cases "wf_at f = NotRunning")
    case True
    then show ?thesis by (cases e) (simp add: feed_round_def Run_step_def stopping_left_def)
  qed (use round_left [OF Cons.prems(1,2), of e] Cons.prems(3) in simp)
  ultimately show ?case using Cons.IH Cons.prems(1) by (simp add: round_inv)
qed

section \<open>A connection to apply them to\<close>

text \<open>It is sent a text, reads a frame and hands it over, and is then disconnected.\<close>

definition demo_connected :: WebsocketFeed where
  "demo_connected = fst (Feed_Connect 5 True (Inr ()) (WebsocketFeed_new ''l'' (\<lambda>_. None)))"

definition demo_events :: "(handler \<times> handler list \<times> i64) list" where
  "demo_events = [(NoHandler, [], 0), (RunPosted, [], 0), (WriteDone None, [], 0), (ReadDone (Inr ''f''), [], 0),
     (NoHandler, [], 0), (NoHandler, [], 9), (NoHandler, [], 0), (NoHandler, [], 0), (NoHandler, [], 0)]"

definition demo_run :: WebsocketFeed where
  "demo_run = fold (\<lambda>(h, closing, now). Run_step h closing now) demo_events (WebsocketFeed_Send ''s'' demo_connected)"

lemma demo_connected_reach: "feed_reach throws demo_connected"
  unfolding demo_connected_def
  by (rule fd_connect [OF fd_new [of throws "''l''" "\<lambda>_. None"], of 5 True "Inr ()" _ "Inr ()"])
    (simp_all add: WebsocketFeed_new_def Spsc_init_def Feed_Connect_def OpenRawLog_def Let_def)

lemma fold_Run_reach:
  "feed_reach throws f \<Longrightarrow> feed_reach throws (fold (\<lambda>(h, closing, now). Run_step h closing now) es f)"
  by (induction es arbitrary: f) (auto intro: fd_network)

lemma demo_run_reach: "feed_reach throws demo_run"
  unfolding demo_run_def by (intro fold_Run_reach fd_send demo_connected_reach)

lemma demo_run_simps:
  "wf_at demo_run = InPush" "wf_connection demo_run = Some \<lparr>cn_posted = [], cn_outbox = [], cn_writing = False,
     cn_write_error = None, cn_given = [''s''], cn_written = [''s'']\<rparr>"
  "wf_read demo_run = [\<lparr>json_text = ''f'', frame_capture_time_ns = 9\<rparr>]"
  "sp_queue (wf_frames demo_run) = [\<lparr>json_text = ''f'', frame_capture_time_ns = 9\<rparr>]"
  "sp_give_up (wf_frames demo_run) = False"
  by (simp_all add: demo_run_def demo_events_def demo_connected_def Feed_Connect_def OpenRawLog_def WebsocketFeed_new_def
      WebsocketFeed_Send_def Connection_Send_def Connection_new_def Run_step_def Next_step_def Connection_handler_def
      Connection_Posted_def Connection_Written_def Connection_WriteFront_def Push_begin_def PushBlocking_def Spsc_init_def
      kMaxQueuedFrames_def log_line_def Let_def)

section \<open>Properties\<close>

text \<open>
  Over any number of connections, whatever the socket does: as long as no write of a
  connection failed, the texts it was given are, in order, those written, those waiting and
  those on their way to the network thread, so none is lost, doubled or overtaken; exactly one write is
  in flight while texts wait; and a failed write has ended the network thread.
\<close>

theorem texts_go_out_in_order:
  assumes "feed_reach throws f" and "wf_connection f = Some c"
  shows "(cn_write_error c = None \<longrightarrow> cn_given c = cn_written c @ cn_outbox c @ cn_posted c) \<and>
    (cn_writing c \<longleftrightarrow> cn_outbox c \<noteq> []) \<and> (cn_write_error c \<noteq> None \<longrightarrow> wf_at f = NotRunning)"
  using feed_inv_reach [OF assms(1)] assms(2) by (auto simp: feed_inv_def connection_ok_def)

theorem texts_go_out_in_order_witness:
  "\<exists>c. wf_connection demo_run = Some c \<and> cn_given c = [''s''] \<and> cn_given c = cn_written c @ [] @ []"
  using texts_go_out_in_order [OF demo_run_reach [of "\<lambda>_. False"] demo_run_simps(2)] demo_run_simps(2) by simp

text \<open>
  C15. The frames the parser consumed are, in order, some of those read; and unless the
  pipeline failed they and then those queued, being pushed and in the network thread's hand
  are all of them. So once the network thread has ended every frame read is consumed or
  queued, and when the parser's thread has drained the queue, consumed. While connected the
  raw log holds exactly the texts of the last frames read, one a line, but the one just
  stamped; and at most 256 frames are queued.
\<close>

theorem frames_reach_the_parser:
  assumes "feed_reach throws f"
  shows "subseq (sp_consumed (wf_frames f)) (wf_read f) \<and> length (sp_queue (wf_frames f)) \<le> kMaxQueuedFrames \<and>
    (\<not> sp_give_up (wf_frames f) \<longrightarrow> wf_read f =
       sp_consumed (wf_frames f) @ sp_queue (wf_frames f) @ in_hand (sp_producer (wf_frames f)) @ at_hand (wf_at f) \<and>
       (wf_at f = NotRunning \<longrightarrow> wf_read f = sp_consumed (wf_frames f) @ sp_queue (wf_frames f) \<and>
          (sp_consumer (wf_frames f) = Drained \<longrightarrow> wf_read f = sp_consumed (wf_frames f)))) \<and>
    (wf_connection f \<noteq> None \<longrightarrow>
       (\<exists>path logged before. wf_raw_log f = Some path \<and> wf_files f path = Some (concat (map log_line logged)) \<and>
          wf_read f = before @ logged @ unlogged (wf_at f)))"
proof -
  have inv: "handover_ok throws f" "log_ok f" using feed_inv_reach [OF assms] by (simp_all add: feed_inv_def)
  then have ok: "spsc_ok kMaxQueuedFrames throws (wf_frames f)" and
    offered: "sp_offered (wf_frames f) @ at_hand (wf_at f) = wf_read f" by (simp_all add: handover_ok_def)
  obtain past where past: "sp_offered (wf_frames f) = past @ in_hand (sp_producer (wf_frames f))"
    "past \<in> shuffles (sp_pushed (wf_frames f)) (sp_given_up (wf_frames f))"
    "sp_consumed (wf_frames f) @ sp_queue (wf_frames f) = sp_pushed (wf_frames f)"
    using ok by (auto simp: spsc_ok_def)
  have "subseq (sp_consumed (wf_frames f)) (sp_pushed (wf_frames f))" by (simp add: past(3) [symmetric] prefix_imp_subseq)
  also have "subseq \<dots> past" by (rule shuffles_subseq [OF past(2)])
  also have "subseq \<dots> (wf_read f)" using past(1) by (simp add: offered [symmetric] prefix_imp_subseq)
  finally have consumed: "subseq (sp_consumed (wf_frames f)) (wf_read f)" .
  have all: "wf_read f = sp_consumed (wf_frames f) @ sp_queue (wf_frames f) @ in_hand (sp_producer (wf_frames f)) @
      at_hand (wf_at f)" if "\<not> sp_give_up (wf_frames f)"
  proof -
    have "sp_given_up (wf_frames f) = []" using ok that by (auto simp: spsc_ok_def)
    then have "past = sp_consumed (wf_frames f) @ sp_queue (wf_frames f)" using past(2,3) by simp
    then show ?thesis using offered past(1) by simp
  qed
  moreover have "in_hand (sp_producer (wf_frames f)) = []" if "wf_at f = NotRunning"
    using inv(1) that by (simp add: handover_ok_def)
  moreover have "sp_consumer (wf_frames f) = Drained \<longrightarrow> sp_queue (wf_frames f) = []"
    "length (sp_queue (wf_frames f)) \<le> kMaxQueuedFrames"
    using inv(1) ok by (simp_all add: handover_ok_def spsc_ok_def)
  moreover have "\<exists>path logged before. wf_raw_log f = Some path \<and> wf_files f path = Some (concat (map log_line logged)) \<and>
      wf_read f = before @ logged @ unlogged (wf_at f)" if live: "wf_connection f \<noteq> None"
  proof -
    obtain path before where "wf_raw_log f = Some path" "wf_files f path = Some (concat (map log_line (wf_logged f)))"
      "before @ wf_logged f @ unlogged (wf_at f) = wf_read f"
      using inv(2) live by (auto simp: log_ok_def)
    then show ?thesis by (intro exI [of _ path] exI [of _ "wf_logged f"] exI [of _ before]) simp
  qed
  ultimately show ?thesis using consumed by simp
qed

theorem frames_reach_the_parser_witness:
  "wf_read demo_run = [] @ sp_queue (wf_frames demo_run) \<and> length (wf_read demo_run) = 1"
  using frames_reach_the_parser [OF demo_run_reach [of "\<lambda>_. False"]] demo_run_simps by (auto simp: Cons_eq_append_conv)

text \<open>
  C16. A disconnect returns: once asked to stop, the network thread ends within ten rounds in
  which the parser's thread takes three steps and it takes one, whatever the socket does,
  also when it waits to push into a full queue.
\<close>

theorem disconnect_returns:
  assumes "feed_reach throws f" and "length es \<ge> 10"
  shows "wf_at (fold (feed_round throws) es (Disconnect_request f)) = NotRunning"
proof -
  have "stopping_left (Disconnect_request f) \<le> 10"
    by (auto simp: stopping_left_def split: network_at.split option.split sum.split producer_at.split)
  then show ?thesis
    using assms by (intro rounds_stop feed_inv_request feed_inv_reach) (auto simp: Disconnect_request_def)
qed

theorem disconnect_returns_witness:
  "wf_at (fold (feed_round (\<lambda>_. False)) (replicate 10 (NoHandler, [], 0)) (Disconnect_request demo_run)) = NotRunning"
  by (rule disconnect_returns [OF demo_run_reach]) simp

end
