(* ===== verification/VenueFeed.thy ===== *)
theory VenueFeed
  imports NetWebsocketFeedRuns VenueL2ManagerRuns
begin

text \<open>
  How venue/l2_manager.cc's feed_ and raw_frames_queue_ are what the manager's model takes
  them for: the feed is the list of the texts its connection was given, its network thread
  at most adds a frame to a queue with room or fails the pipeline, and connecting starts
  the list over.
\<close>

definition feed_view :: "WebsocketFeed \<Rightarrow> 'd L2Manager \<Rightarrow> 'd L2Manager" where
  "feed_view f m =
     m\<lparr>feed := map_option cn_given (wf_connection f), raw_frames_queue := sp_queue (wf_frames f),
       failed := sp_give_up (wf_frames f)\<rparr>"

lemma given_handler [simp]: "cn_given (Connection_handler h c) = cn_given c"
  by (simp add: Connection_handler_def Connection_Posted_def Connection_Written_def Connection_WriteFront_def Let_def
      split: handler.split list.split option.split)

lemma given_Close [simp]: "cn_given (Connection_Close hs c) = cn_given c"
  unfolding Connection_Close_def by (induction hs arbitrary: c) simp_all

lemma feed_view_eqI:
  "map_option cn_given (wf_connection f') = map_option cn_given (wf_connection f) \<Longrightarrow> wf_frames f' = wf_frames f \<Longrightarrow>
     feed_view f' m = feed_view f m"
  by (simp add: feed_view_def)

lemma feed_view_fails:
  assumes "wf_connection f \<noteq> None" and "map_option cn_given (wf_connection f') = map_option cn_given (wf_connection f)"
    and "wf_frames f' = (wf_frames f)\<lparr>sp_give_up := True\<rparr>"
  shows "L2_moves a Decode (feed_view f m) (feed_view f' m)"
proof -
  have "feed_view f' m = (feed_view f m)\<lparr>failed := True\<rparr>" using assms by (simp add: feed_view_def)
  moreover have "feed (feed_view f m) \<noteq> None" using assms(1) by (simp add: feed_view_def)
  ultimately show ?thesis by (simp add: move_feed_fails)
qed

lemma feed_view_push:
  assumes "wf_connection f \<noteq> None" and "f' = f\<lparr>wf_frames := PushBlocking kMaxQueuedFrames (wf_frames f)\<rparr>"
  shows "feed_view f' m = feed_view f m \<or> L2_moves a Decode (feed_view f m) (feed_view f' m)"
proof (cases "\<exists>v. sp_producer (wf_frames f) = Pushing v \<and> length (sp_queue (wf_frames f)) < kMaxQueuedFrames")
  case True
  then obtain v where v: "sp_producer (wf_frames f) = Pushing v" "length (sp_queue (wf_frames f)) < kMaxQueuedFrames" by blast
  then have "feed_view f' m = (feed_view f m)\<lparr>raw_frames_queue := raw_frames_queue (feed_view f m) @ [v]\<rparr>"
    using assms(2) by (simp add: feed_view_def PushBlocking_def)
  moreover have "feed (feed_view f m) \<noteq> None" "length (raw_frames_queue (feed_view f m)) < kMaxQueuedFrames"
    using assms(1) v(2) by (simp_all add: feed_view_def)
  ultimately show ?thesis by (simp add: move_frame)
next
  case False
  then show ?thesis using assms(2) by (auto simp: feed_view_def PushBlocking_def split: producer_at.split)
qed

text \<open>
  C25. For the manager a step of the feed's network thread is either nothing, one frame
  more in a queue that has room, or the pipeline failing, each a step of the manager's
  own model; \<^verbatim>\<open>Send\<close> adds to the texts, a connection that is made starts with none, and a
  disconnect, or a connection that cannot be made, leaves none.
\<close>

theorem feed_refines_the_managers:
  assumes "feed_reach throws f"
  shows "(feed_view (Run_step h closing now f) m = feed_view f m \<or>
      L2_moves a Decode (feed_view f m) (feed_view (Run_step h closing now f) m)) \<and>
    feed_view (WebsocketFeed_Send str f) m = Feed_Send str (feed_view f m) \<and>
    feed_view (Disconnect_join f) m = (feed_view f m)\<lparr>feed := None\<rparr> \<and>
    (\<forall>f' r. Feed_Connect now opens outcome f = (f', r) \<longrightarrow>
       feed_view f' m = (feed_view f m)\<lparr>feed := if r = Inr () then Some [] else None\<rparr>)"
proof -
  have inv: "feed_inv throws f" by (rule feed_inv_reach [OF assms])
  have "feed_view (Run_step h closing now f) m = feed_view f m \<or>
      L2_moves a Decode (feed_view f m) (feed_view (Run_step h closing now f) m)"
  proof (cases "wf_at f = NotRunning")
    case False
    then obtain c where c: "wf_connection f = Some c" by (rule feed_inv_connected [OF inv])
    show ?thesis
    proof (cases "wf_at f")
      case (InNext r)
      have "feed_view (Run_step h closing now f) m = feed_view f m \<or>
          wf_frames (Run_step h closing now f) = (wf_frames f)\<lparr>sp_give_up := True\<rparr> \<and>
          map_option cn_given (wf_connection (Run_step h closing now f)) = map_option cn_given (wf_connection f)"
        using c InNext
        by (auto simp: Run_step_def Next_step_def network_fails_def Let_def intro!: feed_view_eqI
            split: option.split sum.split handler.split)
      then show ?thesis using feed_view_fails c by blast
    next
      case InPush
      then consider "Run_step h closing now f = f\<lparr>wf_at := BeforeNext\<rparr>"
        | "Run_step h closing now f = f\<lparr>wf_frames := PushBlocking kMaxQueuedFrames (wf_frames f)\<rparr>"
        by (cases "sp_producer (wf_frames f) = Idle") (auto simp: Run_step_def)
      then show ?thesis
      proof cases
        case 1
        then show ?thesis by (simp add: feed_view_def)
      next
        case 2
        then show ?thesis using c by (intro feed_view_push) simp_all
      qed
    next
      case (Logged frame)
      then show ?thesis by (simp add: Run_step_def feed_view_def)
    qed (use c False in \<open>auto simp: Run_step_def Let_def intro!: feed_view_eqI\<close>)
  qed (simp add: Run_step_def)
  moreover have "feed_view (WebsocketFeed_Send str f) m = Feed_Send str (feed_view f m)"
    by (cases "wf_connection f") (simp_all add: feed_view_def WebsocketFeed_Send_def Feed_Send_def Connection_Send_def)
  moreover have "feed_view (Disconnect_join f) m = (feed_view f m)\<lparr>feed := None\<rparr>"
    by (simp add: feed_view_def Disconnect_join_def)
  moreover have "feed_view f' m = (feed_view f m)\<lparr>feed := if r = Inr () then Some [] else None\<rparr>"
    if "Feed_Connect now opens outcome f = (f', r)" for f' r
    using that
    by (auto simp: Feed_Connect_def OpenRawLog_def Let_def Disconnect_join_def Disconnect_request_def feed_view_def
        Connection_new_def split: sum.splits if_splits)
  ultimately show ?thesis by blast
qed

theorem feed_refines_the_managers_witness:
  "\<forall>m :: unit L2Manager. feed_view (WebsocketFeed_Send ''t'' demo_run) m = Feed_Send ''t'' (feed_view demo_run m)"
  using feed_refines_the_managers [OF demo_run_reach] by blast

end
