(* ===== verification/VenueLiveFeed.thy ===== *)
theory VenueLiveFeed
  imports VenueL2ManagerProperties FrontendStream
begin

text \<open>
  The whole way of a live Kraken book: the manager's parser calls the subscription's
  receiver, frontend/transmitter.cc hands the calls to the stream, and the stream to the
  clients that watch it. What the parser promises a receiver is what the stream asks of its
  caller, so a client has the book whose checksum Kraken sent.
\<close>

section \<open>The calls a receiver gets\<close>

text \<open>Since it was attached, oldest first; and the messages among them since its last gap.\<close>

fun calls :: "receiver \<Rightarrow> delivery list \<Rightarrow> stream_event list" where
  "calls r [] = []"
| "calls r (Receive r' m # h) = (if r' = r then calls r h @ [SReceive m] else calls r h)"
| "calls r (OnGap r' g # h) = (if r' = r then calls r h @ [SInterrupt g] else calls r h)"
| "calls r (Attached r' d # h) = (if r' = r then [] else calls r h)"
| "calls r (Started # h) = calls r h"
| "calls r (OnMismatch s # h) = calls r h"
| "calls r (Recorded i v # h) = calls r h"

fun is_call :: "stream_event \<Rightarrow> bool" where
  "is_call (SReceive m) = True"
| "is_call (SInterrupt g) = True"
| "is_call _ = False"

definition since_gap :: "receiver \<Rightarrow> delivery list \<Rightarrow> Message list" where
  "since_gap r h = current (calls r h)"

lemma since_gap_simps [simp]:
  "since_gap r [] = []"
  "since_gap r (Receive r' m # h) = (if r' = r then since_gap r h @ [m] else since_gap r h)"
  "since_gap r (OnGap r' g # h) = (if r' = r then [] else since_gap r h)"
  "since_gap r (Attached r' d # h) = (if r' = r then [] else since_gap r h)"
  "since_gap r (Started # h) = since_gap r h"
  "since_gap r (OnMismatch s # h) = since_gap r h"
  "since_gap r (Recorded i v # h) = since_gap r h"
  by (simp_all add: since_gap_def current_def)

text \<open>A reconnection starts a stretch over, so a stretch is no longer than what came since the gap.\<close>

lemma no_gap_no_stretch: "since_gap r h = [] \<Longrightarrow> stretch r h = []"
  by (induction h rule: calls.induct) (auto split: if_splits)

lemma calls_gated: "history_ok check h \<Longrightarrow> gated (calls r h)"
proof (induction h)
  case Nil
  then show ?case by (simp add: gated_def)
next
  case (Cons e h)
  then show ?case
    using no_gap_no_stretch [of r h]
    by (cases e) (auto simp: gated_snoc since_gap_def may_receive_def, simp add: gated_def)
qed

text \<open>Watching and unwatching in between change neither.\<close>

lemma filter_calls_current: "current (filter is_call es) = current es"
  by (induction es rule: rev_induct) (simp, simp split: stream_event.split)

lemma filter_calls_gated: "gated (filter is_call es) = gated es"
proof (induction es rule: rev_induct)
  case (snoc e es)
  then show ?case by (cases e) (simp_all add: gated_snoc filter_calls_current)
qed simp

section \<open>What a frame adds to the history\<close>

definition parser_event :: "delivery \<Rightarrow> bool" where
  "parser_event e = (case e of Attached r d \<Rightarrow> False | Started \<Rightarrow> False | _ \<Rightarrow> True)"

definition grows :: "delivery list \<Rightarrow> delivery list \<Rightarrow> bool" where
  "grows h h' \<longleftrightarrow> (\<exists>new. h' = new @ h \<and> list_all parser_event new)"

lemma grows_refl [simp]: "grows h h"
  by (simp add: grows_def)

lemma grows_trans: "grows h h' \<Longrightarrow> grows h' h'' \<Longrightarrow> grows h h''"
  unfolding grows_def by (metis append.assoc list_all_append)

lemma grows_Cons: "grows h h' \<Longrightarrow> parser_event e \<Longrightarrow> grows h (e # h')"
  by (auto simp: grows_def intro: exI [of _ "e # _"])

lemma grows_kept:
  assumes "grows h h'"
  shows "depth_of r h' = depth_of r h" and "stretch r h = since_gap r h \<Longrightarrow> stretch r h' = since_gap r h'"
proof -
  obtain new where "h' = new @ h" "list_all parser_event new" using assms by (auto simp: grows_def)
  then have "depth_of r h' = depth_of r h \<and> (stretch r h = since_gap r h \<longrightarrow> stretch r h' = since_gap r h')"
  proof (induction new arbitrary: h')
    case (Cons e new)
    then show ?case by (cases e) (auto simp: parser_event_def)
  qed simp
  then show "depth_of r h' = depth_of r h" "stretch r h = since_gap r h \<Longrightarrow> stretch r h' = since_gap r h'" by auto
qed

lemma parser_events [simp]:
  "parser_event (Receive r m)" "parser_event (OnGap r g)" "parser_event (OnMismatch s)" "parser_event (Recorded i v)"
  by (simp_all add: parser_event_def)

lemma Emit_grows: "grows (history p) (history (L2Parser_Emit m p))"
  by (auto simp: L2Parser_Emit_def Let_def intro!: grows_Cons split: option.split)

context parser_decoder
begin

lemma Dispatch_grows:
  assumes "L2Parser_Dispatch Decode now later frame (d, p) = ((d', p'), res)"
  shows "grows (history p) (history p')"
proof -
  obtain d1 q r where run: "Decode L2Parser_Find L2Parser_Emit frame d (p\<lparr>parse_start_ns := now\<rparr>) = ((d1, q), r)"
    by (metis surj_pair)
  have "grows (history p) (history q)"
    by (rule decode_keeps [OF run]) (auto intro: grows_trans Emit_grows)
  then show ?thesis
    using assms run by (auto simp: L2Parser_Dispatch_def intro!: grows_Cons split: sum.splits)
qed

end

section \<open>The manager announces every gap\<close>

text \<open>
  A subscription's receiver is attached at the subscribed depth; no reconnection starts its
  stretch over without a gap having told it; and while disconnected it has nothing.
\<close>

definition gap_ok :: "'d L2Manager \<Rightarrow> bool" where
  "gap_ok m \<longleftrightarrow>
     (\<forall>i s. map_of (subscriptions m) i = Some s \<longrightarrow>
        depth_of i (history (parser m)) = bs_depth (sub_book s) \<and>
        stretch i (history (parser m)) = since_gap i (history (parser m)) \<and>
        (\<not> connected m \<longrightarrow> since_gap i (history (parser m)) = []))"

lemma gap_ok_grows:
  assumes "gap_ok m" and "grows (history (parser m)) (history (parser m'))" and "subscriptions m' = subscriptions m"
    and "connected m" "connected m'"
  shows "gap_ok m'"
  using assms grows_kept [OF assms(2)] by (simp add: gap_ok_def)

lemma gap_ok_same:
  "gap_ok m \<Longrightarrow> history (parser m') = history (parser m) \<Longrightarrow> subscriptions m' = subscriptions m \<Longrightarrow>
     connected m' = connected m \<Longrightarrow> gap_ok m'"
  by (simp add: gap_ok_def)

lemma gaps_keep_clear:
  "since_gap i (history p) = [] \<Longrightarrow> since_gap i (history (fold (\<lambda>(i, s). deliver (OnGap i g)) subs p)) = []"
  by (induction subs arbitrary: p) auto

lemma gaps_clear:
  "i \<in> fst ` set subs \<Longrightarrow> since_gap i (history (fold (\<lambda>(i, s). deliver (OnGap i g)) subs p)) = []"
proof (induction subs arbitrary: p)
  case (Cons x subs)
  obtain j s where x: "x = (j, s)" by fastforce
  show ?case
  proof (cases "i \<in> fst ` set subs")
    case False
    then have "j = i" using Cons.prems by (auto simp: x)
    then show ?thesis using gaps_keep_clear [of i "deliver (OnGap i g) p"] by (simp add: x)
  qed (use Cons.IH in \<open>simp add: x\<close>)
qed simp

lemma gaps_grow: "grows (history p) (history (fold (\<lambda>(i, s). deliver (OnGap i g)) subs p))"
proof (induction subs arbitrary: p)
  case (Cons x subs)
  obtain i s where x: "x = (i, s)" by fastforce
  have "grows (history p) (history (deliver (OnGap i g) p))" by (simp add: grows_Cons)
  then show ?case using Cons.IH [of "deliver (OnGap i g) p"] by (auto simp: x intro: grows_trans)
qed simp

lemma Resubscribe_parser [simp]:
  "parser (Resubscribe a symbol m) = parser m" "connected (Resubscribe a symbol m) = connected m"
  by (simp_all add: Resubscribe_def SendLocked_def Feed_Send_def split: option.split)

lemma fold_sends_parser [simp]:
  "parser (fold Feed_Send strs m) = parser m"
  "parser (fold (\<lambda>(i, s). SendLocked a q (sub_book s)) subs m) = parser m"
proof -
  show "parser (fold Feed_Send strs m) = parser m" by (induction strs arbitrary: m) (simp_all add: Feed_Send_def)
  show "parser (fold (\<lambda>(i, s). SendLocked a q (sub_book s)) subs m) = parser m"
    by (induction subs arbitrary: m) (auto simp: SendLocked_def Feed_Send_def)
qed

context venue_manager
begin

lemma Parser_Step_grows: "grows (history (parser m)) (history (parser (Parser_Step Decode clock m)))"
proof (cases "raw_frames_queue m = [] \<or> \<not> parser_running m")
  case True
  then show ?thesis by (auto simp: Parser_Step_def split: list.split)
next
  case False
  then obtain frame rest where q: "raw_frames_queue m = frame # rest" "parser_running m"
    by (cases "raw_frames_queue m") auto
  obtain d p r where disp: "L2Parser_Dispatch Decode (fst clock) (snd clock) frame (decoder m, parser m) = ((d, p), r)"
    by (metis surj_pair)
  show ?thesis
    using Dispatch_grows [OF disp] q disp by (simp add: Parser_Step_def Parser_Consume_def Let_def split: sum.split)
qed

lemma Parser_Stop_grows: "grows (history (parser m)) (history (parser (Parser_Stop Decode clock m)))"
proof -
  have "grows (history (parser m)) (history (parser (drain Decode clock n m)))" for n m
    by (induction n arbitrary: m) (auto intro: grows_trans Parser_Step_grows)
  then show ?thesis by (simp add: Parser_Stop_def)
qed

lemma Parser_Stop_parts [simp]:
  "connected (Parser_Stop Decode clock m) = connected m" "subscriptions (Parser_Stop Decode clock m) = subscriptions m"
  by (simp_all add: Parser_Stop_def)

lemma Parser_Step_stopped: "\<not> parser_running m \<Longrightarrow> Parser_Step Decode clock m = m"
  by (simp add: Parser_Step_def split: list.split)

lemma drain_stopped: "\<not> parser_running m \<Longrightarrow> drain Decode clock n m = m"
  by (induction n) (simp_all add: Parser_Step_stopped)

lemma Disconnect_gap_ok:
  assumes ok: "manager_ok a m" and gap: "gap_ok m"
  shows "gap_ok (DisconnectLocked Decode clock m)"
proof -
  let ?s = "Parser_Stop Decode clock (m\<lparr>feed := None\<rparr>)"
  let ?m = "DisconnectLocked Decode clock m"
  have parts: "subscriptions ?m = subscriptions m" "\<not> connected ?m"
    using DisconnectLocked_ok [of m clock] ok by (auto simp: manager_ok_def)
  have h: "parser ?m = (if connected m then fold (\<lambda>(i, s). deliver (OnGap i kDisconnected)) (subscriptions m) (parser ?s)
      else parser ?s)"
    by (simp add: DisconnectLocked_def Let_def)
  have s: "grows (history (parser m)) (history (parser ?s))" using Parser_Stop_grows [of "m\<lparr>feed := None\<rparr>" clock] by simp
  then have "grows (history (parser m)) (history (parser ?m))"
    unfolding h using s grows_trans [OF s gaps_grow] by auto
  note kept = grows_kept [OF this]
  have none: "since_gap i (history (parser ?m)) = []" if i: "map_of (subscriptions m) i = Some x" for i x
  proof (cases "connected m")
    case True
    have "i \<in> fst ` set (subscriptions m)" using i by (force dest: map_of_SomeD)
    then show ?thesis using True by (simp add: h gaps_clear)
  next
    case False
    then have "\<not> parser_running m" using ok by (auto simp: manager_ok_def feed_ok_def split: option.splits)
    then have "parser ?s = parser m" by (simp add: Parser_Stop_def drain_stopped)
    then show ?thesis using gap i False by (simp add: h gap_ok_def)
  qed
  show ?thesis using gap kept none parts by (auto simp: gap_ok_def)
qed

lemma Connect_gap_ok:
  assumes ok: "manager_ok a m" and gap: "gap_ok m"
    and run: "L2Manager_Connect a Decode fresh clock opened m = (m', r)"
  shows "gap_ok m'"
proof (cases "healthy m")
  case False
  let ?m1 = "DisconnectLocked Decode clock m"
  let ?m2 = "?m1\<lparr>failed := False, parser := L2Parser_Start (parser ?m1), decoder := fresh, parser_running := True\<rparr>"
  have m1: "\<not> connected ?m1" "raw_frames_queue ?m1 = []" "gap_ok ?m1"
    using DisconnectLocked_ok [of m clock] ok Disconnect_gap_ok [OF ok gap]
    by (auto simp: manager_ok_def feed_ok_def)
  then have m2: "gap_ok ?m2" by (auto simp: gap_ok_def L2Parser_Start_def)
  show ?thesis
  proof (cases opened)
    case (Inl e)
    then have "m' = Parser_Stop Decode clock ?m2" using run False by (auto simp: L2Manager_Connect_def Let_def)
    moreover have "history (parser (Parser_Stop Decode clock ?m2)) = history (parser ?m2)"
      using m1(2) by (simp add: Parser_Stop_def)
    ultimately show ?thesis using m2 by (simp add: gap_ok_def)
  next
    case (Inr u)
    then have "parser m' = parser ?m2" "subscriptions m' = subscriptions ?m2"
      using run False by (auto simp: L2Manager_Connect_def Let_def fold_SendLocked(4))
    then show ?thesis using m2 m1(1) by (simp add: gap_ok_def)
  qed
qed (use run gap in \<open>simp add: L2Manager_Connect_def\<close>)

lemma reach_gap_ok: "manager_reach a Decode fresh m \<Longrightarrow> gap_ok m"
proof (induction rule: manager_reach.induct)
  case run_new
  then show ?case by (simp add: gap_ok_def L2Manager_new_def)
next
  case (run_connect m clock opened m' r)
  then show ?case using Connect_gap_ok reach_manager_ok by blast
next
  case (run_disconnect m clock)
  then show ?case using Disconnect_gap_ok reach_manager_ok by blast
next
  case (run_frame m frame)
  then show ?case by (simp add: gap_ok_def)
next
  case (run_parser m reading)
  show ?case
  proof (cases "connected m")
    case True
    then show ?thesis
      by (intro gap_ok_grows [OF run_parser.IH Parser_Step_grows]) (simp_all add: Parser_Step_simps(1,2))
  next
    case False
    then have "\<not> parser_running m"
      using reach_manager_ok [OF run_parser(1)] by (auto simp: manager_ok_def feed_ok_def split: option.splits)
    then show ?thesis using run_parser by (simp add: Parser_Step_stopped)
  qed
next
  case (run_feed_fails m)
  then show ?case by (simp add: gap_ok_def)
next
  case (run_subscribe m world i book started built first_locked m' answer)
  show ?case
  proof (cases "m' = m")
    case False
    have ok: "manager_ok a m" by (rule reach_manager_ok [OF run_subscribe(1)])
    have check: "CheckBook a book = Inr ()"
      using run_subscribe(2) False by (auto simp: L2Manager_Subscribe_def split: sum.splits)
    obtain precision where sub: "SubscribeLocked a i book precision started built m = (m', answer)"
      using run_subscribe(2) False by (auto simp: L2Manager_Subscribe_def split: sum.splits option.splits)
    have built: "ResolveTakenLocked m i book = Inr None" "built = Inr ()"
      using sub False by (auto simp: SubscribeLocked_def split: sum.splits option.splits)
    then have free: "map_of (subscriptions m) i = None" "table (subscriptions m) (bs_symbol book) = None"
      by (auto simp: ResolveTakenLocked_def FindSymbolLocked_table [symmetric] Let_def split: if_splits option.splits)
    obtain p where attach: "L2Parser_Attach (bs_symbol book) precision (bs_depth book) i (parser m) = Inr p"
      and m': "m' = SendLocked a kSubscribe book (m\<lparr>subscriptions :=
         emplace (<) i \<lparr>sub_book = book, sub_start_time_ns = started\<rparr> (subscriptions m), parser := p\<rparr>)"
      using SubscribeLocked_new [OF ok check, of i precision started] sub built(2) free by auto
    have sorted: "ordered (<) (subscriptions m)"
      using reach_manager_ok [OF run_subscribe(1)] by (simp add: manager_ok_def core_ok_def subs_ok_def)
    have "history p = Attached i (bs_depth book) # history (parser m)"
      using attach by (auto simp: L2Parser_Attach_def split: if_splits)
    then show ?thesis
      using run_subscribe.IH m' sorted free(1)
      by (auto simp: gap_ok_def SendLocked_def Feed_Send_def map_ops split: if_splits option.splits)
  qed (use run_subscribe in simp)
next
  case (run_unsubscribe m i m' gone)
  have sorted: "ordered (<) (subscriptions m)"
    using reach_manager_ok [OF run_unsubscribe(1)] by (simp add: manager_ok_def core_ok_def subs_ok_def)
  have "history (L2Parser_Detach sym p) = history p" for sym p by (simp add: L2Parser_Detach_def)
  then show ?case
    using run_unsubscribe sorted
    by (auto simp: gap_ok_def L2Manager_Unsubscribe_def SendLocked_def Feed_Send_def Let_def map_ops
        split: option.splits if_splits)
next
  case (run_pairs m world now m' listed)
  then show ?case by (auto simp: L2Manager_ListPairs_def Let_def gap_ok_def split: if_splits sum.splits)
next
  case (run_take m)
  then show ?case by (auto simp: ResubscribeQueued_take_def gap_ok_def split: option.split list.split)
next
  case (run_resubscribe m now later)
  then show ?case by (auto simp: ResubscribeQueued_do_def gap_ok_def split: option.split)
qed

end

section \<open>The property\<close>

text \<open>Of a checked history, the book a receiver's stretch leaves is the one its last message was checked for.\<close>

lemma last_is_checked:
  assumes "history_ok (Some f) h" and "stretch r h \<noteq> []" and "checksum (last (stretch r h)) \<noteq> 0"
  shows "f (replay (depth_of r h) (stretch r h)) = checksum (last (stretch r h))"
  using assms
proof (induction h)
  case (Cons e h)
  then show ?case by (cases e) (auto simp: may_receive_def split: if_splits)
qed simp

lemma gated_first: "gated es \<Longrightarrow> current es \<noteq> [] \<Longrightarrow> msg_type (hd (current es)) = kSnapshot"
proof (induction es rule: rev_induct)
  case (snoc e es)
  then show ?case by (cases e; cases "current es") (auto simp: gated_snoc current_def)
qed (simp add: current_def)

context venue_manager
begin

text \<open>A client of a subscription's stream has the book of what came since the gap, a checked one.\<close>

lemma clients_have_the_book:
  assumes "manager_reach a Decode fresh m" and "map_of (subscriptions m) i = Some sub"
    and "filter is_call es = calls i (history (parser m))"
    and "stream_run ser es (Stream_new ser i venue (sub_book sub) precision) = (s, sent)" and "watching w es"
  shows "\<exists>evs. sent_to w sent = map (MakePayload ser) evs \<and>
      client evs = (bs_depth (sub_book sub), book_now (bs_depth (sub_book sub)) (current es))"
    and "current es \<noteq> [] \<Longrightarrow> msg_type (hd (current es)) = kSnapshot"
    and "ad_book_checksum a = Some f \<Longrightarrow> current es \<noteq> [] \<Longrightarrow> checksum (last (current es)) \<noteq> 0 \<Longrightarrow>
      f (replay (bs_depth (sub_book sub)) (current es)) = checksum (last (current es))"
proof -
  let ?h = "history (parser m)"
  have check: "history_ok (ad_book_checksum a) ?h" by (rule reach_history_ok [OF assms(1)])
  have gap: "depth_of i ?h = bs_depth (sub_book sub)" "stretch i ?h = since_gap i ?h"
    using reach_gap_ok [OF assms(1)] assms(2) by (auto simp: gap_ok_def)
  have es: "gated es" "current es = stretch i ?h"
    using calls_gated [OF check, of i] gap(2) filter_calls_gated [of es] filter_calls_current [of es] assms(3)
    by (simp_all add: since_gap_def)
  have "stream_ok ser (bs_depth (sub_book sub)) es (s, sent)"
    using run_stream_ok [OF es(1), of ser "sub_book sub" i venue precision] assms(4) by simp
  then show "\<exists>evs. sent_to w sent = map (MakePayload ser) evs \<and>
      client evs = (bs_depth (sub_book sub), book_now (bs_depth (sub_book sub)) (current es))"
    using assms(5) unfolding stream_ok_def snd_conv by blast
  show "current es \<noteq> [] \<Longrightarrow> msg_type (hd (current es)) = kSnapshot" by (rule gated_first [OF es(1)])
  show "ad_book_checksum a = Some f \<Longrightarrow> current es \<noteq> [] \<Longrightarrow> checksum (last (current es)) \<noteq> 0 \<Longrightarrow>
      f (replay (bs_depth (sub_book sub)) (current es)) = checksum (last (current es))"
    using last_is_checked [of f ?h i] check gap(1) es(2) by simp
qed

end

text \<open>
  C1. From Kraken's frames to a client's book. Whatever happens to Kraken's manager and
  to a subscription there is, and whenever clients watch it and stop: what a client that
  watches was sent leaves it with the book of the messages the subscription got since its
  last gap, at the subscribed depth, or with none when there are none; and that book has
  the checksum Kraken sent with the last of them.
\<close>

theorem kraken_clients_have_the_checked_book:
  assumes "manager_reach (Kraken_adapter parse) (Kraken_Decode parse_frame unspec) () m"
    and "map_of (subscriptions m) i = Some sub"
    and "filter is_call es = calls i (history (parser m))"
    and "stream_run ser es (Stream_new ser i venue (sub_book sub) precision) = (s, sent)" and "watching w es"
  shows "\<exists>evs book. sent_to w sent = map (MakePayload ser) evs \<and> client evs = (bs_depth (sub_book sub), book) \<and>
    book = (if current es = [] then None else Some (replay (bs_depth (sub_book sub)) (current es))) \<and>
    (\<forall>b. book = Some b \<longrightarrow> checksum (last (current es)) \<noteq> 0 \<longrightarrow> BookChecksum b = checksum (last (current es)))"
proof -
  note has = kraken_manager.clients_have_the_book [OF assms]
  have "ad_book_checksum (Kraken_adapter parse) = Some BookChecksum" by (simp add: Kraken_adapter_def)
  then show ?thesis using has(1) has(3) by (auto simp: book_now_def)
qed

text \<open>The manager of the other witnesses, with a frame whose checksum is right.\<close>

abbreviation demo_live_decode :: "(unit, L2Parser) decode" where
  "demo_live_decode \<equiv> Kraken_Decode (demo_json 3757247383) (\<lambda>_ _ _. 0)"

definition demo_live :: "unit L2Manager" where
  "demo_live = Parser_Step demo_live_decode (0, 1)
     (demo_subscribed\<lparr>raw_frames_queue := raw_frames_queue demo_subscribed @ [demo_frame]\<rparr>)"

lemma demo_live_reached: "manager_reach demo_adapter demo_live_decode () demo_live"
proof -
  have "demo_connected = fst (L2Manager_Connect demo_adapter demo_live_decode () (\<lambda>_. (0, 0)) (Inr ())
      (L2Manager_new demo_adapter ()))"
    by (simp add: demo_connected_def L2Manager_Connect_def L2Manager_new_def healthy_def DisconnectLocked_def
        Parser_Stop_def Let_def)
  then have "manager_reach demo_adapter demo_live_decode () demo_connected"
    using run_connect [OF run_new prod.collapse [symmetric]] by metis
  then have "manager_reach demo_adapter demo_live_decode () demo_subscribed"
    unfolding demo_subscribed_def by (rule run_subscribe) (rule prod.collapse [symmetric])
  then have "manager_reach demo_adapter demo_live_decode ()
      (demo_subscribed\<lparr>raw_frames_queue := raw_frames_queue demo_subscribed @ [demo_frame]\<rparr>)"
    by (rule run_frame) (simp_all add: demo_subscribed_fields kMaxQueuedFrames_def)
  then show ?thesis unfolding demo_live_def by (rule run_parser)
qed

lemma demo_live_fields:
  "history (parser demo_live) = [Recorded kReceiveToParseComplete 1, Receive 5 demo_message, Attached 5 10, Started]"
  "subscriptions demo_live = [(5, \<lparr>sub_book = demo_spec, sub_start_time_ns = 0\<rparr>)]"
proof -
  have find: "L2Parser_Find (parser demo_subscribed\<lparr>parse_start_ns := 0\<rparr>) ''A/B'' kSnapshot =
      Some \<lparr>price_decimals = 1, qty_decimals = 2\<rparr>"
    by (simp add: L2Parser_Find_def FindRoute_def demo_subscribed_fields)
  have same: "demo_message\<lparr>checksum := 3757247383\<rparr> = demo_message" by (simp add: demo_message_def)
  have msg: "msg_symbol demo_message = ''A/B''" "msg_type demo_message = kSnapshot" "checksum demo_message = 3757247383"
    by (simp_all add: demo_message_def)
  have good: "BookChecksum (Book_Apply demo_message (Book_of_depth 10)) = 3757247383"
    using demo_checksum by (simp add: demo_book_def)
  show "history (parser demo_live) = [Recorded kReceiveToParseComplete 1, Receive 5 demo_message, Attached 5 10, Started]"
    "subscriptions demo_live = [(5, \<lparr>sub_book = demo_spec, sub_start_time_ns = 0\<rparr>)]"
    using demo_decode [of L2Parser_Find "parser demo_subscribed\<lparr>parse_start_ns := 0\<rparr>", OF find] good msg
    by (simp_all add: same demo_live_def Parser_Step_def Parser_Consume_def demo_subscribed_fields L2Parser_Dispatch_def
        L2Parser_Emit_def FindRoute_def Let_def)
qed

theorem kraken_clients_have_the_checked_book_witness:
  "\<exists>evs b. sent_to 3 (snd (stream_run (\<lambda>_. []) [SWatch 3, SReceive demo_message] (Stream_new (\<lambda>_. []) 5 ''kraken''
       demo_spec \<lparr>price_decimals = 1, qty_decimals = 2\<rparr>))) = map (MakePayload (\<lambda>_. [])) evs \<and>
     client evs = (10, Some b) \<and> BookChecksum b = 3757247383"
proof -
  have sub: "map_of (subscriptions demo_live) 5 = Some \<lparr>sub_book = demo_spec, sub_start_time_ns = 0\<rparr>"
    by (simp add: demo_live_fields)
  have es: "filter is_call [SWatch 3, SReceive demo_message] = calls 5 (history (parser demo_live))"
    by (simp add: demo_live_fields)
  have "watching 3 [SWatch 3, SReceive demo_message]" "current [SWatch 3, SReceive demo_message] = [demo_message]"
    by (simp_all add: watching_def current_def)
  then show ?thesis
    using kraken_clients_have_the_checked_book [OF demo_live_reached sub es surjective_pairing, where w = 3 and
        ser = "\<lambda>_. []" and venue = "''kraken''" and precision = "\<lparr>price_decimals = 1, qty_decimals = 2\<rparr>"]
    by (auto simp: demo_message_def)
qed

text \<open>
  C3. From Coinbase's frames to a client's book. Whatever happens to Coinbase's manager
  and to a subscription there is, and whenever clients watch it and stop: what a client
  that watches was sent leaves it with the book of the messages the subscription got since
  its last gap, whose first is a snapshot, or with none when there are none.
\<close>

theorem coinbase_clients_have_the_book:
  assumes "manager_reach (Coinbase_adapter parse) (Coinbase_Decode parse_frame unspec) CoinbaseDecoder_new m"
    and "map_of (subscriptions m) i = Some sub"
    and "filter is_call es = calls i (history (parser m))"
    and "stream_run ser es (Stream_new ser i venue (sub_book sub) precision) = (s, sent)" and "watching w es"
  shows "\<exists>evs book. sent_to w sent = map (MakePayload ser) evs \<and> client evs = (bs_depth (sub_book sub), book) \<and>
    (case current es of
       [] \<Rightarrow> book = None
     | first # rest \<Rightarrow> msg_type first = kSnapshot \<and> book = Some (replay (bs_depth (sub_book sub)) (first # rest)))"
  using coinbase_manager.clients_have_the_book(1,2) [OF assms]
  by (cases "current es") (auto simp: book_now_def)

theorem coinbase_clients_have_the_book_witness:
  "\<exists>evs. sent_to 3 (snd (stream_run (\<lambda>_. []) [SWatch 3, SReceive cb_snapshot] (Stream_new (\<lambda>_. []) 5 ''coinbase''
       \<lparr>bs_symbol = ''A-B'', bs_depth = kFullDepth\<rparr> \<lparr>price_decimals = 2, qty_decimals = 1\<rparr>))) = map (MakePayload (\<lambda>_. [])) evs \<and>
     client evs = (kFullDepth, Some (replay kFullDepth [cb_snapshot]))"
proof -
  have sub: "map_of (subscriptions cb_after) 5 =
      Some \<lparr>sub_book = \<lparr>bs_symbol = ''A-B'', bs_depth = kFullDepth\<rparr>, sub_start_time_ns = 0\<rparr>"
    by (simp add: cb_after_def coinbase_manager.Parser_Step_simps(2) cb_before_fields(8))
  have es: "filter is_call [SWatch 3, SReceive cb_snapshot] = calls 5 (history (parser cb_after))"
    by (simp add: cb_after_history)
  have "watching 3 [SWatch 3, SReceive cb_snapshot]" "current [SWatch 3, SReceive cb_snapshot] = [cb_snapshot]"
    by (simp_all add: watching_def current_def)
  then show ?thesis
    using coinbase_clients_have_the_book [OF cb_after_reached sub es surjective_pairing, where w = 3 and
        ser = "\<lambda>_. []" and venue = "''coinbase''" and precision = "\<lparr>price_decimals = 2, qty_decimals = 1\<rparr>"]
    by auto
qed

end
