(* ===== verification/VenueTyping.thy ===== *)
theory VenueTyping
  imports VenueLiveFeed L2FileWriterRuns
begin

text \<open>
  What the program's values are typed as in C++ and the model writes as integers and lists
  stays so: over everything that happens to a venue's manager, every message it hands to a
  receiver and every book it keeps holds i64s only, and no message is longer than the frame
  it came from, so nothing computed from its length wraps around.
\<close>

section \<open>Typed values\<close>

definition message_typed :: "Message \<Rightarrow> bool" where
  "message_typed m \<longleftrightarrow> Message_ok m \<and> fits m"

definition side_typed :: "side \<Rightarrow> bool" where
  "side_typed side \<longleftrightarrow> list_all (\<lambda>(p, q). in_i64 p \<and> in_i64 q) side"

definition book_typed :: "Book \<Rightarrow> bool" where
  "book_typed b \<longleftrightarrow> side_typed (bk_bids b) \<and> side_typed (bk_asks b)"

fun delivery_typed :: "delivery \<Rightarrow> bool" where
  "delivery_typed (Receive r m) = message_typed m"
| "delivery_typed _ = True"

definition parser_typed :: "L2Parser \<Rightarrow> bool" where
  "parser_typed p \<longleftrightarrow> list_all delivery_typed (history p) \<and> list_all (\<lambda>(s, rt). book_typed (rt_book rt)) (routes p)"

definition manager_typed :: "'d L2Manager \<Rightarrow> bool" where
  "manager_typed m \<longleftrightarrow> list_all frame_typed (raw_frames_queue m) \<and> parser_typed (parser m)"

section \<open>The book and the parser\<close>

lemma list_all_map_ops:
  "list_all P m \<Longrightarrow> list_all P (erase lt k m)"
  "list_all P m \<Longrightarrow> P (k, v) \<Longrightarrow> list_all P (insert_or_assign lt k v m)"
  by (induction m) auto

lemma apply_levels_typed:
  "side_typed side \<Longrightarrow> list_all Level_ok ls \<Longrightarrow> side_typed (apply_level_loop lt ls side)"
  by (induction ls arbitrary: side) (simp_all add: side_typed_def list_all_map_ops Level_ok_def)

lemma ApplyLevels_typed:
  "side_typed side \<Longrightarrow> list_all Level_ok ls \<Longrightarrow> side_typed (ApplyLevels lt ls depth side)"
  using apply_levels_typed [of side ls lt]
  by (auto simp: ApplyLevels_def Let_def side_typed_def list_all_iff dest: in_set_takeD)

lemma Book_typed [simp]:
  "book_typed (Book_of_depth depth)" "book_typed (Book_Clear b)"
  "message_typed m \<Longrightarrow> book_typed b \<Longrightarrow> book_typed (Book_Apply m b)"
  by (auto simp: book_typed_def Book_of_depth_def Book_Clear_def Book_Apply_def Let_def message_typed_def Message_ok_def
      intro!: ApplyLevels_typed) (simp_all add: side_typed_def)

lemma deliver_typed [simp]: "parser_typed (deliver e p) \<longleftrightarrow> delivery_typed e \<and> parser_typed p"
  by (auto simp: parser_typed_def)

lemma set_route_typed: "parser_typed p \<Longrightarrow> book_typed (rt_book rt) \<Longrightarrow> parser_typed (set_route s rt p)"
  by (simp add: parser_typed_def list_all_map_ops)

lemma route_typed: "parser_typed p \<Longrightarrow> map_of (routes p) s = Some rt \<Longrightarrow> book_typed (rt_book rt)"
  using map_of_SomeD [of "routes p" s rt] by (auto simp: parser_typed_def list_all_iff)

lemma L2Parser_typed [simp]:
  "parser_typed (L2Parser_new check)"
  "parser_typed p \<Longrightarrow> parser_typed (L2Parser_Start p)"
  "parser_typed p \<Longrightarrow> parser_typed (L2Parser_Detach symbol p)"
  "parser_typed (p\<lparr>parse_start_ns := t\<rparr>) = parser_typed p"
proof -
  show "parser_typed p \<Longrightarrow> parser_typed (L2Parser_Start p)"
    by (auto simp: parser_typed_def L2Parser_Start_def list_all_iff)
qed (simp_all add: parser_typed_def L2Parser_new_def L2Parser_Detach_def list_all_map_ops)

lemma L2Parser_Attach_typed:
  "L2Parser_Attach symbol precision depth r p = Inr p' \<Longrightarrow> parser_typed p \<Longrightarrow> parser_typed p'"
  by (auto simp: L2Parser_Attach_def set_route_typed split: if_splits)

lemma L2Parser_Emit_typed:
  assumes "parser_typed p" and "message_typed m"
  shows "parser_typed (L2Parser_Emit m p)"
proof (cases "FindRoute p (msg_symbol m) (msg_type m)")
  case (Some rt)
  then have "book_typed (rt_book rt)" using assms(1) by (auto simp: FindRoute_Some intro: route_typed)
  then show ?thesis using assms Some by (simp add: L2Parser_Emit_def Let_def set_route_typed split: option.split)
qed (use assms in \<open>simp add: L2Parser_Emit_def\<close>)

section \<open>The manager\<close>

lemma gaps_typed: "parser_typed (fold (\<lambda>(i, s). deliver (OnGap i g)) subs p) = parser_typed p"
proof (induction subs arbitrary: p)
  case (Cons x subs)
  then show ?case by (cases x) simp
qed simp

lemma SendLocked_frames [simp]: "raw_frames_queue (SendLocked a q b m) = raw_frames_queue m"
  by (simp add: SendLocked_def Feed_Send_def)

lemma fold_sends_frames [simp]:
  "raw_frames_queue (fold Feed_Send strs m) = raw_frames_queue m"
  "raw_frames_queue (fold (\<lambda>(i, s). SendLocked a q (sub_book s)) subs m) = raw_frames_queue m"
proof -
  show "raw_frames_queue (fold Feed_Send strs m) = raw_frames_queue m"
    by (induction strs arbitrary: m) (simp_all add: Feed_Send_def)
  show "raw_frames_queue (fold (\<lambda>(i, s). SendLocked a q (sub_book s)) subs m) = raw_frames_queue m"
    by (induction subs arbitrary: m) (simp_all add: case_prod_beta)
qed

locale typed_manager = venue_manager a Decode + typed_decoder Decode parse
  for a :: "'w Adapter" and Decode :: "('d, L2Parser) decode" and parse :: "string \<Rightarrow> json option"
begin

lemma Dispatch_typed:
  assumes within: "json_within parse" and "parser_typed p" and "frame_typed frame"
    and "L2Parser_Dispatch Decode now later frame (d, p) = ((d', p'), res)"
  shows "parser_typed p'"
proof -
  obtain d1 q r where run: "Decode L2Parser_Find L2Parser_Emit frame d (p\<lparr>parse_start_ns := now\<rparr>) = ((d1, q), r)"
    by (metis surj_pair)
  have "parser_typed q"
    by (rule decode_keeps_typed [OF within assms(3) run])
      (use assms(2) in \<open>auto intro: L2Parser_Emit_typed simp: message_typed_def\<close>)
  then show ?thesis using assms(4) run by (auto simp: L2Parser_Dispatch_def split: sum.splits)
qed

lemma Parser_Step_typed:
  assumes "json_within parse" and "manager_typed m"
  shows "manager_typed (Parser_Step Decode clock m)"
proof (cases "raw_frames_queue m = [] \<or> \<not> parser_running m")
  case False
  then obtain frame rest where q: "raw_frames_queue m = frame # rest" "parser_running m"
    by (cases "raw_frames_queue m") auto
  obtain d p r where disp: "L2Parser_Dispatch Decode (fst clock) (snd clock) frame (decoder m, parser m) = ((d, p), r)"
    by (metis surj_pair)
  have "parser_typed p" using Dispatch_typed [OF assms(1) _ _ disp] assms(2) q by (simp add: manager_typed_def)
  then show ?thesis
    using assms(2) q disp by (simp add: Parser_Step_def Parser_Consume_def manager_typed_def Let_def split: sum.split)
qed (use assms in \<open>auto simp: Parser_Step_def split: list.split\<close>)

lemma Parser_Stop_typed:
  assumes "json_within parse" and "manager_typed m"
  shows "manager_typed (Parser_Stop Decode clock m)"
proof -
  have "manager_typed m \<Longrightarrow> manager_typed (drain Decode clock n m)" for n m
    by (induction n arbitrary: m) (simp_all add: Parser_Step_typed [OF assms(1)])
  from this [OF assms(2)] show ?thesis by (simp add: Parser_Stop_def manager_typed_def)
qed

lemma Disconnect_typed: "json_within parse \<Longrightarrow> manager_typed m \<Longrightarrow> manager_typed (DisconnectLocked Decode clock m)"
  using Parser_Stop_typed [of "m\<lparr>feed := None\<rparr>" clock]
  by (simp add: DisconnectLocked_def Let_def manager_typed_def gaps_typed)

lemma Connect_typed:
  assumes "json_within parse" and "manager_typed m" and "L2Manager_Connect a Decode fresh clock opened m = (m', r)"
  shows "manager_typed m'"
proof (cases "healthy m")
  case False
  let ?m1 = "DisconnectLocked Decode clock m"
  let ?m2 = "?m1\<lparr>failed := False, parser := L2Parser_Start (parser ?m1), decoder := fresh, parser_running := True\<rparr>"
  have "manager_typed ?m2" using Disconnect_typed [OF assms(1,2), of clock] by (simp add: manager_typed_def)
  then show ?thesis
    using False assms(1,3) Parser_Stop_typed [of ?m2 clock]
    by (auto simp: L2Manager_Connect_def Let_def manager_typed_def split: sum.split_asm)
qed (use assms in \<open>simp add: L2Manager_Connect_def\<close>)

lemma reach_typed:
  assumes "manager_reach a Decode fresh m" and "json_within parse"
  shows "manager_typed m"
  using assms
proof (induction rule: manager_reach.induct)
  case run_new
  then show ?case by (simp add: manager_typed_def L2Manager_new_def)
next
  case (run_subscribe m world i book started built first_locked m' answer)
  then show ?case
    by (auto simp: L2Manager_Subscribe_def SubscribeLocked_def manager_typed_def SendLocked_def Feed_Send_def Let_def
        dest: L2Parser_Attach_typed split: sum.split_asm option.split_asm)
next
  case (run_unsubscribe m i m' gone)
  then show ?case
    by (auto simp: L2Manager_Unsubscribe_def manager_typed_def SendLocked_def Feed_Send_def Let_def split: option.split_asm)
next
  case (run_pairs m world now m' listed)
  then show ?case
    by (auto simp: L2Manager_ListPairs_def Let_def manager_typed_def split: if_split_asm sum.split_asm)
next
  case (run_take m)
  then show ?case by (auto simp: ResubscribeQueued_take_def manager_typed_def split: option.split list.split)
next
  case (run_resubscribe m now later)
  then show ?case
    by (auto simp: ResubscribeQueued_do_def Resubscribe_def manager_typed_def SendLocked_def Feed_Send_def split: option.split)
next
  case (run_connect m clock opened m' r)
  then show ?case using Connect_typed by blast
qed (simp_all add: Disconnect_typed Parser_Step_typed, simp_all add: manager_typed_def)

end

interpretation kraken_types: typed_manager "Kraken_adapter parse" "Kraken_Decode parse_frame unspec" parse_frame
  by unfold_locales

interpretation coinbase_types: typed_manager "Coinbase_adapter parse" "Coinbase_Decode parse_frame unspec" parse_frame
  by unfold_locales

section \<open>The property\<close>

lemma typed_received:
  assumes "manager_typed m" and "Receive i msg \<in> set (history (parser m))"
  shows "message_typed msg"
  using assms by (force simp: manager_typed_def parser_typed_def list_all_iff)

lemma typed_serialize:
  assumes "message_typed m" and "length out = unat (GetByteSize m)"
  shows "Serialize little m out = Inr (GetByteSize m, message_bytes little m)"
proof -
  have "fits m" using assms(1) by (simp add: message_typed_def)
  moreover have "length out < 2 ^ 64" using assms(2) unsigned_less [of "GetByteSize m"] by simp
  ultimately show ?thesis
    using Serialize_eq [of m out little] unat_GetByteSize [of m little] assms(2) by simp
qed

text \<open>
  C4. Types are kept: whatever happens to the managers of Kraken and Coinbase, in any order,
  their parsers' books hold i64s only, and so does every message handed to a receiver; and
  the size the message computes for itself does not wrap around, so it always fits, exactly,
  into a buffer of that size. All that is asked of the JSON parser is that no value it
  returns takes more characters than the text it read.
\<close>

theorem venues_keep_types:
  assumes "json_within parse_frame"
    and "manager_reach (Kraken_adapter parse) (Kraken_Decode parse_frame unspec) () k"
    and "manager_reach (Coinbase_adapter parse) (Coinbase_Decode parse_frame unspec) CoinbaseDecoder_new c"
    and "Receive i m \<in> set (history (parser k) @ history (parser c))" and "length out = unat (GetByteSize m)"
  shows "manager_typed k \<and> manager_typed c \<and> Message_ok m \<and>
    Serialize little m out = Inr (GetByteSize m, message_bytes little m) \<and>
    unat (GetByteSize m) = length (message_bytes little m)"
proof -
  have typed: "manager_typed k" "manager_typed c"
    using kraken_types.reach_typed [OF assms(2,1)] coinbase_types.reach_typed [OF assms(3,1)] by auto
  then have "message_typed m" using assms(4) typed_received by (metis Un_iff set_append)
  then show ?thesis
    using typed typed_serialize [OF _ assms(5)] unat_GetByteSize [of m little] by (simp add: message_typed_def)
qed

lemma nat_to_dec_short: "n < 10 ^ Suc k \<Longrightarrow> length (nat_to_dec n) \<le> Suc k"
proof (induction k arbitrary: n)
  case 0
  then show ?case by (subst nat_to_dec.simps) simp
next
  case (Suc k)
  have "length (nat_to_dec (n div 10)) \<le> Suc k"
    by (rule Suc.IH) (use Suc.prems in \<open>simp add: less_mult_imp_div_less\<close>)
  then show ?case by (subst nat_to_dec.simps) simp
qed

lemma demo_json_within: "json_within (demo_json crc)"
proof -
  have "unat crc < 2 ^ 32" using unsigned_less [of crc] by simp
  then have "length (nat_to_dec (unat crc)) \<le> Suc 9" by (intro nat_to_dec_short) simp
  then have "json_width (book_frame ''snapshot'' ''A/B'' [((''1'', ''2''), (''3'', ''00''))] [] crc ''x'') \<le> 200"
    by (simp add: book_frame_def book_data_def level_json_def text_of_def)
  then show ?thesis by (auto simp: json_within_def demo_json_def split: if_splits)
qed

theorem venues_keep_types_witness:
  "manager_typed demo_live \<and> Receive 5 demo_message \<in> set (history (parser demo_live)) \<and>
     Serialize True demo_message (replicate 56 0) = Inr (56, message_bytes True demo_message)"
proof -
  have "Receive 5 demo_message \<in> set (history (parser demo_live) @
      history (parser (L2Manager_new (Coinbase_adapter demo_answer) CoinbaseDecoder_new)))"
    by (simp add: demo_live_fields)
  moreover have "GetByteSize demo_message = 56" by (simp add: GetByteSize_def demo_message_def)
  ultimately show ?thesis
    using venues_keep_types [OF demo_json_within demo_live_reached run_new [of "Coinbase_adapter demo_answer"], of 5 demo_message
        "replicate 56 0" True] by (auto simp: demo_live_fields)
qed

end
