(* ===== verification/VenueRecordings.thy ===== *)
theory VenueRecordings
  imports VenueTyping
begin

text \<open>
  The whole way of a recorded Kraken book: the manager's parser calls the subscription's
  l2::FileWriter, whose thread writes what comes through the queue. Every closed recording
  is an unbroken stretch from a snapshot on, and any prefix of it replays to the book whose
  checksum Kraken sent with the prefix's last message.
\<close>

section \<open>Messages in place\<close>

text \<open>
  What a receiver may be given after \<open>ms\<close>, and a sequence of its calls in which every
  message may be given after those since the gap before it.
\<close>

definition in_place :: "(Book \<Rightarrow> u32) option \<Rightarrow> u32 \<Rightarrow> Message list \<Rightarrow> Message \<Rightarrow> bool" where
  "in_place check depth ms m \<longleftrightarrow> (ms = [] \<longrightarrow> msg_type m = kSnapshot) \<and>
     (\<forall>f. check = Some f \<longrightarrow> checksum m \<noteq> 0 \<longrightarrow> f (replay depth (ms @ [m])) = checksum m)"

definition stretch_in_place :: "(Book \<Rightarrow> u32) option \<Rightarrow> u32 \<Rightarrow> Message list \<Rightarrow> bool" where
  "stretch_in_place check depth ms \<longleftrightarrow> (\<forall>n < length ms. in_place check depth (take n ms) (ms ! n))"

lemma stretch_in_place_simps [simp]:
  "stretch_in_place check depth []"
  "stretch_in_place check depth (ms @ [m]) \<longleftrightarrow> stretch_in_place check depth ms \<and> in_place check depth ms m"
  by (auto simp: stretch_in_place_def nth_append less_Suc_eq)

fun calls_in_place :: "(Book \<Rightarrow> u32) option \<Rightarrow> u32 \<Rightarrow> Message list \<Rightarrow> stream_event list \<Rightarrow> bool" where
  "calls_in_place check depth ms [] = True"
| "calls_in_place check depth ms (SReceive m # es) \<longleftrightarrow>
     in_place check depth ms m \<and> calls_in_place check depth (ms @ [m]) es"
| "calls_in_place check depth ms (SInterrupt g # es) = calls_in_place check depth [] es"
| "calls_in_place check depth ms (_ # es) = calls_in_place check depth ms es"

lemma calls_in_place_append:
  "calls_in_place check depth ms (es @ es') \<longleftrightarrow>
     calls_in_place check depth ms es \<and>
     calls_in_place check depth (fold (\<lambda>e ms. case e of SReceive m \<Rightarrow> ms @ [m] | SInterrupt g \<Rightarrow> [] | _ \<Rightarrow> ms) es ms) es'"
  by (induction check depth ms es rule: calls_in_place.induct) auto

lemma calls_in_place_snoc [simp]:
  "calls_in_place check depth [] (es @ [SReceive m]) \<longleftrightarrow>
     calls_in_place check depth [] es \<and> in_place check depth (current es) m"
  "calls_in_place check depth [] (es @ [SInterrupt g]) \<longleftrightarrow> calls_in_place check depth [] es"
  by (simp_all add: calls_in_place_append current_def)

text \<open>The entries a writer queues for its calls.\<close>

fun entry :: "stream_event \<Rightarrow> Message option" where
  "entry (SReceive m) = Some m"
| "entry _ = None"

lemma unbroken_in_place:
  assumes "calls_in_place check depth (case cur of None \<Rightarrow> [] | Some ms \<Rightarrow> ms) es"
    and "stretch_in_place check depth (case cur of None \<Rightarrow> [] | Some ms \<Rightarrow> ms)" and "list_all is_call es"
    and "ms \<in> set (unbroken cur (map entry es))"
  shows "stretch_in_place check depth ms"
  using assms
proof (induction es arbitrary: cur)
  case Nil
  then show ?case by (cases cur) auto
next
  case (Cons e es)
  show ?case
  proof (cases e)
    case (SReceive m)
    then show ?thesis using Cons.prems by (intro Cons.IH [of "Some ((case cur of None \<Rightarrow> [] | Some ms \<Rightarrow> ms) @ [m])"]) auto
  next
    case (SInterrupt g)
    then show ?thesis
      using Cons.prems Cons.IH [of None] Cons.IH [of "Some []"]
      by (cases cur) (auto split: if_splits)
  qed (use Cons.prems in auto)
qed

section \<open>No stretch starts over unannounced\<close>

text \<open>
  Whatever a receiver was given, it was told of the last break of its stream; and so will
  the receivers routed now.
\<close>

fun announced :: "delivery list \<Rightarrow> bool" where
  "announced [] = True"
| "announced (e # h) \<longleftrightarrow> announced h \<and> (case e of Receive r m \<Rightarrow> stretch r h = since_gap r h | _ \<Rightarrow> True)"

definition told :: "L2Parser \<Rightarrow> bool" where
  "told p \<longleftrightarrow> announced (history p) \<and> (\<forall>r \<in> receivers p. stretch r (history p) = since_gap r (history p))"

lemma calls_are_calls: "list_all is_call (calls r h)"
  by (induction r h rule: calls.induct) auto

lemma announced_in_place:
  assumes "history_ok check h" and "announced h"
  shows "calls_in_place check (depth_of r h) [] (calls r h)"
  using assms
proof (induction h)
  case (Cons e h)
  then show ?case
    by (cases e) (auto simp: in_place_def may_receive_def since_gap_def)
qed simp

lemma told_deliver:
  "told p \<Longrightarrow> parser_event e \<Longrightarrow> (\<And>r m. e = Receive r m \<Longrightarrow> r \<in> receivers p) \<Longrightarrow> told (deliver e p)"
  by (cases e) (auto simp: told_def receivers_def parser_event_def)

lemma told_same: "told p \<Longrightarrow> history p' = history p \<Longrightarrow> receivers p' \<subseteq> receivers p \<Longrightarrow> told p'"
  by (auto simp: told_def)

lemma receivers_same: "routed p' = routed p \<Longrightarrow> receivers p' = receivers p"
  by (auto simp: receivers_routed)

lemma told_new [simp]: "told (L2Parser_new check)"
  by (simp add: told_def L2Parser_new_def receivers_def)

lemma Emit_told:
  assumes "told p"
  shows "told (L2Parser_Emit m p)"
proof (cases "FindRoute p (msg_symbol m) (msg_type m)")
  case (Some rt)
  then have rt: "map_of (routes p) (msg_symbol m) = Some rt" by (simp add: FindRoute_Some)
  have route: "told (set_route (msg_symbol m) rt' q) \<and> rt_receiver rt \<in> receivers (set_route (msg_symbol m) rt' q)"
    if "told q" "routes q = routes p" "rt_receiver rt' = rt_receiver rt" for q rt'
  proof -
    have "receivers p = {r. \<exists>s. map_option rt_receiver (map_of (routes p) s) = Some r}" for p
      by (auto simp: receivers_def)
    moreover have "map_option rt_receiver (map_of (routes (set_route (msg_symbol m) rt' q)) s) =
        map_option rt_receiver (map_of (routes q) s)" for s
      using rt that(2,3) by (simp add: map_ops)
    ultimately have "receivers (set_route (msg_symbol m) rt' q) = receivers q" by (simp only:)
    moreover have "rt_receiver rt \<in> receivers q" using rt that(2) by (auto simp: receivers_def)
    ultimately show ?thesis using told_same [OF that(1)] by simp
  qed
  define q where "q = (if msg_type m = kUpdate \<and> venue_time_ns m \<noteq> 0
    then deliver (Recorded kExchangeToParseStart (parse_start_ns p - venue_time_ns m)) p else p)"
  have "told (deliver (Recorded i v) p)" for i v by (rule told_deliver [OF assms]) simp_all
  then have q: "told q" "routes q = routes p" "checksum_check q = checksum_check p"
    using assms by (simp_all add: q_def)
  have received: "told (deliver (Receive (rt_receiver rt) m) (set_route (msg_symbol m) rt' q))"
    if "rt_receiver rt' = rt_receiver rt" for rt'
    using route [OF q(1,2) that] by (auto intro: told_deliver)
  have broken: "told (deliver (OnMismatch s) (deliver (OnGap r g) (set_route (msg_symbol m) rt' q)))"
    if "rt_receiver rt' = rt_receiver rt" for s r g rt'
    using route [OF q(1,2) that] by (intro told_deliver) auto
  show ?thesis
    using Some q(3) received broken by (auto simp: L2Parser_Emit_def Let_def q_def [symmetric] split: option.split)
qed (use assms in \<open>simp add: L2Parser_Emit_def\<close>)

context parser_decoder
begin

lemma Dispatch_told:
  assumes "told p" and "L2Parser_Dispatch Decode now later frame (d, p) = ((d', p'), res)"
  shows "told p'"
proof -
  obtain d1 q r where run: "Decode L2Parser_Find L2Parser_Emit frame d (p\<lparr>parse_start_ns := now\<rparr>) = ((d1, q), r)"
    by (metis surj_pair)
  have start: "told (p\<lparr>parse_start_ns := now\<rparr>)"
    by (rule told_same [OF assms(1)]) (simp_all add: receivers_def)
  have "told q" by (rule decode_keeps [where P = told, OF run start]) (rule Emit_told)
  then show ?thesis using assms(2) run by (auto simp: L2Parser_Dispatch_def intro!: told_deliver split: sum.splits)
qed

end

lemma gaps_told: "told p \<Longrightarrow> told (fold (\<lambda>(i, s). deliver (OnGap i g)) subs p)"
proof (induction subs arbitrary: p)
  case (Cons x subs)
  obtain i s where x: "x = (i, s)" by fastforce
  have "told (deliver (OnGap i g) p)" by (rule told_deliver) (use Cons in auto)
  then show ?case using Cons.IH by (simp add: x)
qed simp

lemma Start_told:
  assumes "told p" and "\<And>r. r \<in> receivers p \<Longrightarrow> since_gap r (history p) = []"
  shows "told (L2Parser_Start p)"
proof -
  have "receivers (L2Parser_Start p) = receivers p" by (rule receivers_same) simp
  then show ?thesis using assms by (simp add: told_def L2Parser_Start_def)
qed

lemma Attach_told:
  assumes "told p" and "L2Parser_Attach symbol precision depth r p = Inr p'"
  shows "told p'"
proof -
  have "receivers p' \<subseteq> insert r (receivers p)"
    using routed_Attach [OF assms(2)] by (auto simp: receivers_routed split: if_splits)
  moreover have "history p' = Attached r depth # history p"
    using assms(2) by (auto simp: L2Parser_Attach_def split: if_splits)
  ultimately show ?thesis using assms(1) by (auto simp: told_def)
qed

context venue_manager
begin

lemma Parser_Step_told:
  assumes "told (parser m)"
  shows "told (parser (Parser_Step Decode clock m))"
proof (cases "raw_frames_queue m = [] \<or> \<not> parser_running m")
  case False
  then obtain frame rest where q: "raw_frames_queue m = frame # rest" "parser_running m"
    by (cases "raw_frames_queue m") auto
  obtain d p r where disp: "L2Parser_Dispatch Decode (fst clock) (snd clock) frame (decoder m, parser m) = ((d, p), r)"
    by (metis surj_pair)
  show ?thesis
    using Dispatch_told [OF assms disp] q disp
    by (simp add: Parser_Step_def Parser_Consume_def Let_def split: sum.split)
qed (use assms in \<open>auto simp: Parser_Step_def split: list.split\<close>)

lemma Parser_Stop_told: "told (parser m) \<Longrightarrow> told (parser (Parser_Stop Decode clock m))"
proof -
  have "told (parser m) \<Longrightarrow> told (parser (drain Decode clock n m))" for n m
    by (induction n arbitrary: m) (simp_all add: Parser_Step_told)
  then show "told (parser m) \<Longrightarrow> told (parser (Parser_Stop Decode clock m))" by (simp add: Parser_Stop_def)
qed

lemma Disconnect_told: "told (parser m) \<Longrightarrow> told (parser (DisconnectLocked Decode clock m))"
  using Parser_Stop_told [of "m\<lparr>feed := None\<rparr>" clock] by (simp add: DisconnectLocked_def Let_def gaps_told)

lemma Connect_told:
  assumes ok: "manager_ok a m" and gap: "gap_ok m" and told: "told (parser m)"
    and run: "L2Manager_Connect a Decode fresh clock opened m = (m', r)"
  shows "told (parser m')"
proof (cases "healthy m")
  case False
  let ?m1 = "DisconnectLocked Decode clock m"
  let ?m2 = "?m1\<lparr>failed := False, parser := L2Parser_Start (parser ?m1), decoder := fresh, parser_running := True\<rparr>"
  have m1: "manager_ok a ?m1" "\<not> connected ?m1" "gap_ok ?m1"
    using DisconnectLocked_ok [of m clock] ok Disconnect_gap_ok [OF ok gap] by (auto simp: manager_ok_def)
  have "since_gap r (history (parser ?m1)) = []" if r: "r \<in> receivers (parser ?m1)" for r
  proof -
    obtain symbol d where "table (subscriptions ?m1) symbol = Some (r, d)"
      using r m1(1) by (auto simp: receivers_routed manager_ok_def core_ok_def)
    then obtain s where "map_of (subscriptions ?m1) r = Some s"
      using m1(1) by (auto simp: table_iff [where a = a] manager_ok_def core_ok_def)
    then show ?thesis using m1(2,3) by (auto simp: gap_ok_def)
  qed
  then have "told (parser ?m2)" using Start_told [OF Disconnect_told [OF told, of clock]] by simp
  then show ?thesis
    using False run Parser_Stop_told [of ?m2 clock]
    by (auto simp: L2Manager_Connect_def Let_def split: sum.split_asm)
qed (use told run in \<open>simp add: L2Manager_Connect_def\<close>)

lemma reach_told: "manager_reach a Decode fresh m \<Longrightarrow> told (parser m)"
proof (induction rule: manager_reach.induct)
  case run_new
  then show ?case by (simp add: L2Manager_new_def)
next
  case (run_connect m clock opened m' r)
  then show ?case using Connect_told reach_manager_ok reach_gap_ok by blast
next
  case (run_subscribe m world i book started built first_locked m' answer)
  then show ?case
    by (auto simp: L2Manager_Subscribe_def SubscribeLocked_def SendLocked_def Feed_Send_def Let_def
        dest: Attach_told split: sum.split_asm option.split_asm if_split_asm)
next
  case (run_unsubscribe m i m' gone)
  have "ordered (<) (routes (parser m))"
    using reach_manager_ok [OF run_unsubscribe(1)] by (simp add: manager_ok_def core_ok_def parser_weak_iff)
  then have "receivers (L2Parser_Detach symbol (parser m)) \<subseteq> receivers (parser m)" for symbol
    by (auto simp: receivers_routed routed_Detach split: if_splits) blast
  then have "told (L2Parser_Detach symbol (parser m))" for symbol
    by (rule told_same [OF run_unsubscribe.IH, rotated]) (simp add: L2Parser_Detach_def)
  then show ?case
    using run_unsubscribe
    by (auto simp: L2Manager_Unsubscribe_def SendLocked_def Feed_Send_def Let_def split: option.split_asm if_split_asm)
next
  case (run_pairs m world now m' listed)
  then show ?case by (auto simp: L2Manager_ListPairs_def Let_def split: if_split_asm sum.split_asm)
next
  case (run_take m)
  then show ?case by (auto simp: ResubscribeQueued_take_def split: option.split list.split)
next
  case (run_resubscribe m now later)
  then show ?case by (auto simp: ResubscribeQueued_do_def split: option.split)
qed (simp_all add: Disconnect_told Parser_Step_told)

lemma reach_in_place:
  assumes "manager_reach a Decode fresh m"
  shows "calls_in_place (ad_book_checksum a) (depth_of i (history (parser m))) [] (calls i (history (parser m)))"
  using announced_in_place [OF reach_history_ok [OF assms]] reach_told [OF assms] by (simp add: told_def)

end

section \<open>The property\<close>

lemma received_calls: "SReceive m \<in> set (calls r h) \<Longrightarrow> Receive r m \<in> set h"
  by (induction r h rule: calls.induct) (auto split: if_splits)

lemma entry_Some [simp]: "entry e = Some m \<longleftrightarrow> e = SReceive m" "Some m = entry e \<longleftrightarrow> e = SReceive m"
  by (cases e; auto)+

lemma Some_entry: "Some m \<in> set (map entry es) \<Longrightarrow> SReceive m \<in> set es"
  by auto

locale recorded_manager = typed_manager a Decode parse
  for a :: "'w Adapter" and Decode :: "('d, L2Parser) decode" and parse :: "string \<Rightarrow> json option"
begin

lemma recordings_in_place:
  assumes "json_within parse" and "manager_reach a Decode fresh m"
    and "sp_offered (rc_queue s) = map entry (calls i (history (parser m)))"
  shows "list_all fits (List.map_filter id (sp_offered (rc_queue s)))"
    and "ms \<in> set (unbroken (Some []) (sp_offered (rc_queue s))) \<Longrightarrow>
      stretch_in_place (ad_book_checksum a) (depth_of i (history (parser m))) ms"
proof -
  have "fits msg" if "Some msg \<in> set (sp_offered (rc_queue s))" for msg
  proof -
    have "Receive i msg \<in> set (history (parser m))"
      using that unfolding assms(3) by (intro received_calls Some_entry)
    then show ?thesis using typed_received [OF reach_typed [OF assms(2,1)]] by (simp add: message_typed_def)
  qed
  then show "list_all fits (List.map_filter id (sp_offered (rc_queue s)))"
    by (auto simp: list_all_iff map_filter_def)
  show "ms \<in> set (unbroken (Some []) (sp_offered (rc_queue s))) \<Longrightarrow>
      stretch_in_place (ad_book_checksum a) (depth_of i (history (parser m))) ms"
    using unbroken_in_place [where cur = "Some []"] reach_in_place [OF assms(2)] calls_are_calls
    unfolding assms(3) by fastforce
qed

end

interpretation kraken_recorded: recorded_manager "Kraken_adapter parse" "Kraken_Decode parse_frame unspec" parse_frame
  by unfold_locales

interpretation coinbase_recorded: recorded_manager "Coinbase_adapter parse" "Coinbase_Decode parse_frame unspec" parse_frame
  by unfold_locales

text \<open>
  C2. From Kraken's frames to the files. Whatever happens to Kraken's manager and however
  the writer's two threads interleave, when files can be written: once the writer of a
  subscription is destroyed, its closed recordings hold, one unbroken stretch each, in
  order, every message the subscription was given; each starts with a snapshot, and the book
  any prefix of it replays to, at the subscribed depth, has the checksum Kraken sent with
  the prefix's last message.
\<close>

theorem kraken_recordings_are_checked:
  assumes "json_within parse_frame"
    and "manager_reach (Kraken_adapter parse) (Kraken_Decode parse_frame unspec) () m"
    and "sp_offered (rc_queue s) = map entry (calls i (history (parser m)))"
    and "depth_of i (history (parser m)) = bs_depth book"
    and "FileWriter_create io0 venue book precision fs0 = (w, fs, r)" and "recorder_run w fs es s"
    and "sp_stop (rc_queue s)" and "3 * length (sp_queue (rc_queue s)) + 3 \<le> length ios"
    and "FileWriter_destroy io_end (rc_writer (fold FileWriter_thread_step ios s))
      (rc_files (fold FileWriter_thread_step ios s)) = (w2, fs2)"
    and "list_all io_ok (io0 # io_end # map fst es @ ios)" and "length (sp_offered (rc_queue s)) < 2 ^ 64"
  shows "\<exists>rs. closed_as (symbol_stem w) (MakeFileHeader venue book precision 0)
      (unix_nanos_now ` set (io0 # map fst es @ ios)) fs0 fs2 rs \<and>
    concat (map (\<lambda>(p, start, ms). ms) rs) = List.map_filter entry (calls i (history (parser m))) \<and>
    (\<forall>(p, start, ms) \<in> set rs. \<forall>n < length ms. (n = 0 \<longrightarrow> msg_type (ms ! n) = kSnapshot) \<and>
      (checksum (ms ! n) \<noteq> 0 \<longrightarrow>
         BookChecksum (replay (bs_depth book) (take (Suc n) ms)) = checksum (ms ! n)))"
proof -
  note here = kraken_recorded.recordings_in_place [OF assms(1-3), unfolded assms(4)]
  obtain rs where rs: "map (\<lambda>(p, start, ms). ms) rs = unbroken (Some []) (sp_offered (rc_queue s))"
    and closed: "closed_as (symbol_stem w) (MakeFileHeader venue book precision 0)
      (unix_nanos_now ` set (io0 # map fst es @ ios)) fs0 fs2 rs"
    using recorder_closes [OF assms(5-10) here(1) assms(11)] by blast
  have "concat (map (\<lambda>(p, start, ms). ms) rs) = List.map_filter entry (calls i (history (parser m)))"
    unfolding rs unbroken_concat assms(3) by (simp add: map_filter_def comp_def filter_map)
  moreover have "stretch_in_place (Some BookChecksum) (bs_depth book) ms" if "(p, start, ms) \<in> set rs" for p start ms
  proof -
    have "ms \<in> set (map (\<lambda>(p, start, ms). ms) rs)" using that by force
    then show ?thesis using here(2) unfolding rs by (simp add: Kraken_adapter_def)
  qed
  ultimately show ?thesis
    using closed
    by (intro exI [of _ rs])
      (fastforce simp: stretch_in_place_def in_place_def take_Suc_conv_app_nth)
qed

text \<open>The writer of the demo subscription: its one message is pushed, and the thread runs after the stop.\<close>

definition demo_live_recorder :: "FileWriter \<Rightarrow> files \<Rightarrow> Recorder" where
  "demo_live_recorder w fs =
     (let s = FileWriter_Receive demo_message \<lparr>rc_writer = w, rc_files = fs, rc_queue = Spsc_init\<rparr>;
          s = s\<lparr>rc_queue := PushBlocking kMaxQueuedMessages (rc_queue s)\<rparr>
      in s\<lparr>rc_queue := (rc_queue s)\<lparr>sp_stop := True\<rparr>\<rparr>)"

lemma demo_live_recorder:
  "recorder_run w fs [] (demo_live_recorder w fs)" "sp_stop (rc_queue (demo_live_recorder w fs))"
  "sp_queue (rc_queue (demo_live_recorder w fs)) = [Some demo_message]"
  "sp_offered (rc_queue (demo_live_recorder w fs)) = [Some demo_message]"
  unfolding demo_live_recorder_def Let_def
  by (intro rec_stop rec_push rec_receive rec_start;
      simp add: FileWriter_Receive_def Push_begin_def PushBlocking_def Spsc_init_def kMaxQueuedMessages_def)
    (simp_all add: FileWriter_Receive_def Push_begin_def PushBlocking_def Spsc_init_def kMaxQueuedMessages_def)

lemma concat_single: "concat xss = [x] \<Longrightarrow> ys \<in> set xss \<Longrightarrow> ys \<noteq> [] \<Longrightarrow> ys = [x]"
  by (induction xss) (auto simp: append_eq_Cons_conv Cons_eq_append_conv)

theorem kraken_recordings_are_checked_witness:
  "let (w, fs, r) = FileWriter_create demo_io ''kraken'' demo_spec \<lparr>price_decimals = 1, qty_decimals = 2\<rparr> [];
       s = fold FileWriter_thread_step (replicate 6 demo_io) (demo_live_recorder w fs);
       (w, fs) = FileWriter_destroy demo_io (rc_writer s) (rc_files s)
   in (\<exists>p. map_of fs p = Some (recording (MakeFileHeader ''kraken'' demo_spec
          \<lparr>price_decimals = 1, qty_decimals = 2\<rparr> 0) 5 [demo_message])) \<and>
      BookChecksum (replay 10 [demo_message]) = checksum demo_message"
proof -
  let ?p = "\<lparr>price_decimals = 1, qty_decimals = 2\<rparr>"
  obtain w fs r where c: "FileWriter_create demo_io ''kraken'' demo_spec ?p [] = (w, fs, r)" by (metis prod_cases3)
  let ?d = "demo_live_recorder w fs"
  let ?s = "fold FileWriter_thread_step (replicate 6 demo_io) ?d"
  obtain w2 fs2 where d: "FileWriter_destroy demo_io (rc_writer ?s) (rc_files ?s) = (w2, fs2)" by fastforce
  have io: "list_all io_ok (demo_io # demo_io # map fst ([] :: (io \<times> Message option) list) @ replicate 6 demo_io)"
    by (simp add: list_all_iff io_ok_def demo_io_def)
  have calls: "calls 5 (history (parser demo_live)) = [SReceive demo_message]"
    "depth_of 5 (history (parser demo_live)) = bs_depth demo_spec"
    by (simp_all add: demo_live_fields)
  obtain rs where closed: "closed_as (symbol_stem w) (MakeFileHeader ''kraken'' demo_spec ?p 0)
      (unix_nanos_now ` set (demo_io # map fst ([] :: (io \<times> Message option) list) @ replicate 6 demo_io)) [] fs2 rs"
    and rs: "concat (map (\<lambda>(p, start, ms). ms) rs) = [demo_message]"
    and checked: "\<forall>(p, start, ms) \<in> set rs. \<forall>n < length ms. checksum (ms ! n) \<noteq> 0 \<longrightarrow>
      BookChecksum (replay 10 (take (Suc n) ms)) = checksum (ms ! n)"
    using kraken_recordings_are_checked [OF demo_json_within demo_live_reached _ calls(2) c demo_live_recorder(1,2) _ d io]
    by (fastforce simp: calls demo_live_recorder map_filter_simps)
  have "demo_message \<in> set (concat (map (\<lambda>(p, start, ms). ms) rs))" by (simp add: rs)
  then obtain p start ms where ms: "(p, start, ms) \<in> set rs" "demo_message \<in> set ms" by auto
  have "ms \<in> set (map (\<lambda>(p, start, ms). ms) rs)" using ms(1) by force
  then have one: "ms = [demo_message]" using concat_single [OF rs] ms(2) by force
  then have "start = 5" "map_of fs2 p = Some (recording (MakeFileHeader ''kraken'' demo_spec ?p 0) start ms)"
    using closed ms(1) by (auto simp: closed_as_def demo_io_def)
  moreover have "BookChecksum (replay 10 [demo_message]) = checksum demo_message"
    using checked ms(1) one by (fastforce simp: demo_message_def)
  ultimately show ?thesis unfolding c Let_def prod.case d using one by (intro conjI exI [of _ p]) simp_all
qed

end
