(* ===== verification/NetHttps.thy ===== *)
theory NetHttps
  imports KrakenAdapter KrakenToken CoinbaseProducts NetWebsocketFeed
begin

text \<open>
  net/tls_context.cc, net/https_client.cc and the constructor of a websocket's connection in
  net/websocket_feed.cc: how a TLS connection is opened and what is sent over it, and the
  requests the venues' REST lookups make. What the operating system, OpenSSL and Beast do is
  the argument \<open>network\<close>; what the code had them do is kept as a trace. \<open>'e\<close> is the
  endpoint a name resolves to.
\<close>

section \<open>net/tls_context.cc\<close>

datatype verify_mode = verify_none | verify_peer

record TlsContext =
  tls_store :: "string list"
  tls_verify :: verify_mode

text \<open>
  The machine: on Windows the certificates of its root store, if it can be opened, each in
  DER; elsewhere those at OpenSSL's default paths.
\<close>

datatype platform = Windows "string list option" | Posix "string list"

fun store_loop :: "(string \<Rightarrow> string option) \<Rightarrow> string list \<Rightarrow> TlsContext \<Rightarrow> TlsContext" where
  "store_loop d2i_X509 [] ctx = ctx"
| "store_loop d2i_X509 (cert # certs) ctx =
     store_loop d2i_X509 certs
       (case d2i_X509 cert of None \<Rightarrow> ctx | Some x509 \<Rightarrow> ctx\<lparr>tls_store := tls_store ctx @ [x509]\<rparr>)"

definition LoadWindowsRootStore :: "(string \<Rightarrow> string option) \<Rightarrow> string list option \<Rightarrow> TlsContext \<Rightarrow> TlsContext" where
  "LoadWindowsRootStore d2i_X509 win_store ctx =
     (case win_store of None \<Rightarrow> ctx | Some certs \<Rightarrow> store_loop d2i_X509 certs ctx)"

definition TlsContext_new :: "(string \<Rightarrow> string option) \<Rightarrow> platform \<Rightarrow> TlsContext" where
  "TlsContext_new d2i_X509 platform =
     (let ctx = \<lparr>tls_store = [], tls_verify = verify_none\<rparr>;
          ctx = (case platform of
                   Windows win_store \<Rightarrow> LoadWindowsRootStore d2i_X509 win_store ctx
                 | Posix certs \<Rightarrow> ctx\<lparr>tls_store := certs\<rparr>)
      in ctx\<lparr>tls_verify := verify_peer\<rparr>)"

text \<open>The certificates a machine trusts.\<close>

fun trusted :: "(string \<Rightarrow> string option) \<Rightarrow> platform \<Rightarrow> string list" where
  "trusted d2i_X509 (Windows None) = []"
| "trusted d2i_X509 (Windows (Some certs)) = List.map_filter d2i_X509 certs"
| "trusted d2i_X509 (Posix certs) = certs"

lemma store_loop_eq:
  "store_loop d2i certs ctx = ctx\<lparr>tls_store := tls_store ctx @ List.map_filter d2i certs\<rparr>"
  by (induction d2i certs ctx rule: store_loop.induct) (simp_all add: map_filter_simps split: option.split)

lemma TlsContext_new_eq: "TlsContext_new d2i platform = \<lparr>tls_store = trusted d2i platform, tls_verify = verify_peer\<rparr>"
  by (cases "(d2i, platform)" rule: trusted.cases)
    (simp_all add: TlsContext_new_def LoadWindowsRootStore_def store_loop_eq)

section \<open>net/https_client.cc\<close>

record HttpRequest =
  rq_method :: string
  rq_target :: string
  rq_fields :: "(string \<times> string) list"
  rq_body :: string

record 'e network =
  set_tlsext_host_name :: "string \<Rightarrow> bool"
  resolve :: "string \<Rightarrow> string \<Rightarrow> 'e result"
  tcp_connect :: "'e \<Rightarrow> unit result"
  tls_handshake :: "TlsContext \<Rightarrow> string \<Rightarrow> 'e \<Rightarrow> unit result"
  ws_handshake :: "'e \<Rightarrow> string \<Rightarrow> string \<Rightarrow> unit result"
  http_write :: "'e \<Rightarrow> HttpRequest \<Rightarrow> unit result"
  http_read :: "'e \<Rightarrow> response result"

text \<open>\<open>Sent\<close> and \<open>Upgraded\<close> are attempts, of which anything may have arrived.\<close>

datatype 'e net_event =
    NameSet string
  | Connected 'e
  | Encrypted 'e
  | Sent 'e HttpRequest
  | Upgraded 'e string string
  | ShutDown 'e

type_synonym ('e, 'a) traced = "'e net_event list \<times> 'a result"

definition andThen :: "('e, 'a) traced \<Rightarrow> ('a \<Rightarrow> ('e, 'b) traced) \<Rightarrow> ('e, 'b) traced" where
  "andThen p f =
     (case p of
        (evs, Inl e) \<Rightarrow> (evs, Inl e)
      | (evs, Inr a) \<Rightarrow> (case f a of (evs', r) \<Rightarrow> (evs @ evs', r)))"

definition succeeds :: "'e net_event \<Rightarrow> unit result \<Rightarrow> ('e, unit) traced" where
  "succeeds ev r = (case r of Inl e \<Rightarrow> ([], Inl e) | Inr u \<Rightarrow> ([ev], Inr u))"

text \<open>What \<^verbatim>\<open>MakeRequest\<close> and the connection's constructor both begin with.\<close>

definition OpenTls :: "'e network \<Rightarrow> TlsContext \<Rightarrow> string \<Rightarrow> string \<Rightarrow> ('e, 'e) traced" where
  "OpenTls nw ctx host port =
     andThen (if set_tlsext_host_name nw (c_str host) then ([NameSet (c_str host)], Inr ())
              else ([], Inl (runtime_error ''Failed to set TLS SNI hostname''))) (\<lambda>_.
     andThen ([], resolve nw host port) (\<lambda>e.
     andThen (succeeds (Connected e) (tcp_connect nw e)) (\<lambda>_.
     andThen (succeeds (Encrypted e) (tls_handshake nw ctx (c_str host) e)) (\<lambda>_. ([], Inr e)))))"

definition MakeRequest ::
    "'e network \<Rightarrow> (string \<Rightarrow> string option) \<Rightarrow> platform \<Rightarrow> HttpRequest \<Rightarrow> string \<Rightarrow> string \<Rightarrow>
       ('e, response) traced" where
  "MakeRequest nw d2i_X509 platform request host port =
     (let tls = TlsContext_new d2i_X509 platform
      in andThen (OpenTls nw tls host port) (\<lambda>e.
         andThen ([Sent e request], http_write nw e request) (\<lambda>_.
         andThen ([], http_read nw e) (\<lambda>res.
           ([ShutDown e], Inr res)))))"

section \<open>The connection's constructor in net/websocket_feed.cc\<close>

definition Connection_handshakes :: "'e network \<Rightarrow> TlsContext \<Rightarrow> Endpoints \<Rightarrow> ('e, unit) traced" where
  "Connection_handshakes nw tls endpoint =
     andThen (OpenTls nw tls (ep_host endpoint) (ep_port endpoint)) (\<lambda>e.
       ([Upgraded e (ep_host endpoint) (ep_target endpoint)], ws_handshake nw e (ep_host endpoint) (ep_target endpoint)))"

section \<open>The requests of the venues' lookups\<close>

definition kHttpsPort :: string where "kHttpsPort = ''443''"
definition kRestEndpoint :: string where "kRestEndpoint = ''api.kraken.com''"

definition get_request :: "string \<Rightarrow> string \<Rightarrow> HttpRequest" where
  "get_request host target =
     \<lparr>rq_method = ''GET'', rq_target = target, rq_fields = [(''Host'', host), (''User-Agent'', ''app/0.1'')], rq_body = []\<rparr>"

text \<open>What FetchPairPrecision and FetchTradablePairs do with their target, the body read as a C string.\<close>

definition Kraken_Get :: "'e network \<Rightarrow> (string \<Rightarrow> string option) \<Rightarrow> platform \<Rightarrow> string \<Rightarrow> string result" where
  "Kraken_Get nw d2i_X509 platform target =
     bindR (snd (MakeRequest nw d2i_X509 platform (get_request kRestEndpoint target) kRestEndpoint kHttpsPort)) (\<lambda>r. Inr (body r))"

definition Coinbase_Get :: "'e network \<Rightarrow> (string \<Rightarrow> string option) \<Rightarrow> platform \<Rightarrow> rest_host" where
  "Coinbase_Get nw d2i_X509 platform target =
     snd (MakeRequest nw d2i_X509 platform (get_request kRestHost target) kRestHost kHttpsPort)"

definition Token_Post :: "'e network \<Rightarrow> (string \<Rightarrow> string option) \<Rightarrow> platform \<Rightarrow> token_request \<Rightarrow> string result" where
  "Token_Post nw d2i_X509 platform r =
     bindR (snd (MakeRequest nw d2i_X509 platform
         \<lparr>rq_method = ''POST'', rq_target = tr_target r,
          rq_fields = [(''Host'', kRestEndpoint), (''User-Agent'', ''app/0.1''), (''Content-Type'', ''application/json''),
            (''API-Key'', tr_api_key r), (''API-Sign'', tr_api_sign r), (''Content-Length'', nat_to_dec (length (c_str (tr_body r))))],
          rq_body = c_str (tr_body r)\<rparr> kRestEndpoint kHttpsPort)) (\<lambda>r. Inr (body r))"

section \<open>What is sent, and to whom\<close>

text \<open>
  OpenSSL, documented: a client's handshake that verifies its peer succeeds only with one
  whose certificate chain ends at a certificate of the context's store. \<open>root e\<close> is the
  certificate the chain that endpoint presents ends at.
\<close>

definition verifies :: "'e network \<Rightarrow> ('e \<Rightarrow> string) \<Rightarrow> bool" where
  "verifies nw root \<longleftrightarrow> (\<forall>ctx name e. tls_verify ctx = verify_peer \<longrightarrow>
     tls_handshake nw ctx name e = Inr () \<longrightarrow> root e \<in> set (tls_store ctx))"

lemma verifiesD:
  "verifies nw root \<Longrightarrow> tls_handshake nw (TlsContext_new d2i platform) name e = Inr () \<Longrightarrow>
     root e \<in> set (trusted d2i platform)"
  by (metis TlsContext.select_convs TlsContext_new_eq verifies_def)

lemma andThen_Inr:
  "andThen p f = (evs, Inr b) \<longleftrightarrow> (\<exists>evs1 a evs2. p = (evs1, Inr a) \<and> f a = (evs2, Inr b) \<and> evs = evs1 @ evs2)"
  by (auto simp: andThen_def split: prod.split sum.split)

lemma succeeds_eq: "succeeds ev r = (evs, r') \<longleftrightarrow> r' = r \<and> evs = (case r of Inl _ \<Rightarrow> [] | Inr _ \<Rightarrow> [ev])"
  by (auto simp: succeeds_def split: sum.split)

fun is_data :: "'e net_event \<Rightarrow> bool" where
  "is_data (Sent e q) = True"
| "is_data (Upgraded e h t) = True"
| "is_data _ = False"

lemma OpenTls_sends_nothing: "OpenTls nw ctx host port = (evs, r) \<Longrightarrow> list_all (\<lambda>ev. \<not> is_data ev) evs"
  by (auto simp: OpenTls_def andThen_def succeeds_def split: prod.splits sum.splits if_splits)

lemma OpenTls_opened:
  assumes "OpenTls nw ctx host port = (evs, Inr e)"
  shows "resolve nw host port = Inr e" and "tls_handshake nw ctx (c_str host) e = Inr ()"
    and "evs = [NameSet (c_str host), Connected e, Encrypted e]"
  using assms by (auto simp: OpenTls_def andThen_def succeeds_def split: if_split_asm sum.split_asm)

text \<open>Whatever follows sends only once the connection is open to a peer the machine trusts.\<close>

lemma data_after_OpenTls:
  assumes "verifies nw root" and "andThen (OpenTls nw (TlsContext_new d2i platform) host port) f = (evs, r)"
    and "ev \<in> set evs" and "is_data ev"
  shows "\<exists>e. resolve nw host port = Inr e \<and> root e \<in> set (trusted d2i platform) \<and> ev \<in> set (fst (f e))"
proof -
  obtain evs1 r1 where open_tls: "OpenTls nw (TlsContext_new d2i platform) host port = (evs1, r1)" by fastforce
  have none: "ev \<notin> set evs1" using OpenTls_sends_nothing [OF open_tls] assms(4) by (auto simp: list_all_iff)
  then obtain e where e: "r1 = Inr e" "ev \<in> set (fst (f e))"
    using assms(2,3) open_tls by (auto simp: andThen_def split: sum.splits prod.splits)
  have "root e \<in> set (trusted d2i platform)"
    by (rule verifiesD [OF assms(1) OpenTls_opened(2) [OF open_tls [unfolded e(1)]]])
  then show ?thesis using OpenTls_opened(1) [OF open_tls [unfolded e(1)]] e(2) by blast
qed

lemma request_events:
  "set (fst (andThen ([Sent e request], w) (\<lambda>_. andThen ([], answer) (\<lambda>res. ([ShutDown e], Inr res))))) \<subseteq>
     {Sent e request, ShutDown e}"
  by (cases w; cases answer) (auto simp: andThen_def)

lemma MakeRequest_answered:
  assumes "MakeRequest nw d2i platform request host port = (evs, Inr response)"
  shows "\<exists>e. evs = [NameSet (c_str host), Connected e, Encrypted e, Sent e request, ShutDown e] \<and>
    resolve nw host port = Inr e \<and> tls_handshake nw (TlsContext_new d2i platform) (c_str host) e = Inr () \<and> http_read nw e = Inr response"
proof -
  obtain e evs1 where "OpenTls nw (TlsContext_new d2i platform) host port = (evs1, Inr e)" "http_read nw e = Inr response"
    "evs = evs1 @ [Sent e request, ShutDown e]"
    using assms by (auto simp: MakeRequest_def andThen_Inr Let_def)
  then show ?thesis using OpenTls_opened [of nw "TlsContext_new d2i platform" host port evs1 e] by auto
qed

lemma MakeRequest_once: "MakeRequest nw d2i platform request host port = (evs, r) \<Longrightarrow> length (filter is_data evs) \<le> 1"
proof -
  assume run: "MakeRequest nw d2i platform request host port = (evs, r)"
  obtain evs1 r1 where open_tls: "OpenTls nw (TlsContext_new d2i platform) host port = (evs1, r1)" by fastforce
  have "filter is_data evs1 = []"
    using OpenTls_sends_nothing [OF open_tls] by (simp add: list_all_iff filter_empty_conv)
  then show ?thesis
    using run open_tls by (auto simp: MakeRequest_def andThen_def Let_def split: sum.splits)
qed

lemma Connection_once:
  assumes "Connection_handshakes nw ctx endpoint = (evs, r)"
  shows "length (filter is_data evs) \<le> 1"
proof -
  obtain evs1 r1 where open_tls: "OpenTls nw ctx (ep_host endpoint) (ep_port endpoint) = (evs1, r1)" by fastforce
  have "filter is_data evs1 = []"
    using OpenTls_sends_nothing [OF open_tls] by (simp add: list_all_iff filter_empty_conv)
  then show ?thesis
    using assms open_tls by (auto simp: Connection_handshakes_def andThen_def Let_def split: sum.splits)
qed

text \<open>
  C21. Whatever resolving, connecting, the handshakes, writing and reading come to: a request
  or a websocket handshake is sent, at most once, to the endpoint its host resolved to and
  only after a TLS handshake with a peer whose certificate chain ends in the machine's own
  trust store; and an answer is the one read after exactly that, which a failing shutdown
  does not lose. (The name in the certificate is not checked, see the findings.)
\<close>

theorem data_goes_to_trusted_peers:
  assumes "verifies nw root"
    and "MakeRequest nw d2i platform request host port = (evs, r)"
    and "Connection_handshakes nw (TlsContext_new d2i platform) endpoint = (evs', r')"
  shows "(\<forall>e q. Sent e q \<in> set evs \<longrightarrow>
      q = request \<and> resolve nw host port = Inr e \<and> root e \<in> set (trusted d2i platform)) \<and>
    (\<forall>e h t. Upgraded e h t \<in> set evs' \<longrightarrow> h = ep_host endpoint \<and> t = ep_target endpoint \<and>
      resolve nw (ep_host endpoint) (ep_port endpoint) = Inr e \<and> root e \<in> set (trusted d2i platform)) \<and>
    length (filter is_data evs) \<le> 1 \<and> length (filter is_data evs') \<le> 1 \<and>
    (\<forall>response. r = Inr response \<longrightarrow>
      (\<exists>e. evs = [NameSet (c_str host), Connected e, Encrypted e, Sent e request, ShutDown e] \<and>
        http_read nw e = Inr response))"
proof -
  have sent: "q = request \<and> resolve nw host port = Inr e \<and> root e \<in> set (trusted d2i platform)"
    if "Sent e q \<in> set evs" for e q
    using data_after_OpenTls [OF assms(1) assms(2) [unfolded MakeRequest_def Let_def] that] request_events by fastforce
  have upgraded: "h = ep_host endpoint \<and> t = ep_target endpoint \<and>
      resolve nw (ep_host endpoint) (ep_port endpoint) = Inr e \<and> root e \<in> set (trusted d2i platform)"
    if "Upgraded e h t \<in> set evs'" for e h t
    using data_after_OpenTls [OF assms(1) assms(3) [unfolded Connection_handshakes_def] that] by auto
  show ?thesis
    using sent upgraded MakeRequest_once [OF assms(2)] Connection_once [OF assms(3)] MakeRequest_answered [of nw d2i platform request host port evs] assms(2) by blast
qed

definition demo_network :: "nat network" where
  "demo_network = \<lparr>set_tlsext_host_name = \<lambda>_. True, resolve = \<lambda>_ _. Inr 7, tcp_connect = \<lambda>_. Inr (),
     tls_handshake = \<lambda>ctx _ _. if ''root'' \<in> set (tls_store ctx) then Inr () else Inl (runtime_error ''unknown ca''),
     ws_handshake = \<lambda>_ _ _. Inr (), http_write = \<lambda>_ _. Inr (), http_read = \<lambda>_. Inr \<lparr>status = 200, body = ''x''\<rparr>\<rparr>"

theorem data_goes_to_trusted_peers_witness:
  "\<exists>e. fst (MakeRequest demo_network Some (Windows (Some [''root''])) (get_request kRestHost ''/t'') kRestHost kHttpsPort) =
     [NameSet kRestHost, Connected e, Encrypted e, Sent e (get_request kRestHost ''/t''), ShutDown e] \<and>
     http_read demo_network e = Inr \<lparr>status = 200, body = ''x''\<rparr>"
proof -
  let ?tls = "TlsContext_new Some (Windows (Some [''root'']))" and ?q = "get_request kRestHost ''/t''"
  have "verifies demo_network (\<lambda>_. ''root'')" by (simp add: verifies_def demo_network_def)
  moreover obtain evs where run: "MakeRequest demo_network Some (Windows (Some [''root''])) ?q kRestHost kHttpsPort =
      (evs, Inr \<lparr>status = 200, body = ''x''\<rparr>)"
    by (simp add: MakeRequest_def Let_def OpenTls_def andThen_def succeeds_def demo_network_def TlsContext_new_eq map_filter_simps)
  moreover have "c_str kRestHost = kRestHost" by (simp add: c_str_def kRestHost_def)
  ultimately show ?thesis
    using data_goes_to_trusted_peers [of demo_network "\<lambda>_. ''root''" Some "Windows (Some [''root''])" ?q kRestHost kHttpsPort,
        OF _ _ surjective_pairing [of "Connection_handshakes demo_network ?tls Coinbase_endpoints"]]
    by auto
qed

section \<open>The lookups\<close>

text \<open>What a lookup believes was read from a peer the machine trusts, asked for one target.\<close>

lemma Kraken_Get_Inr:
  assumes "verifies nw root" and "Kraken_Get nw d2i platform target = Inr str"
  shows "\<exists>e r. resolve nw kRestEndpoint kHttpsPort = Inr e \<and> root e \<in> set (trusted d2i platform) \<and>
    http_read nw e = Inr r \<and> body r = str"
proof -
  obtain evs r where "MakeRequest nw d2i platform (get_request kRestEndpoint target) kRestEndpoint kHttpsPort =
      (evs, Inr r)" "body r = str"
    using assms(2) by (auto simp: Kraken_Get_def bindR_Inr_iff prod_eq_iff)
  then show ?thesis using MakeRequest_answered verifiesD [OF assms(1)] by blast
qed

lemma Coinbase_Get_Inr:
  assumes "verifies nw root" and "Coinbase_Get nw d2i platform target = Inr r"
  shows "\<exists>e. resolve nw kRestHost kHttpsPort = Inr e \<and> root e \<in> set (trusted d2i platform) \<and> http_read nw e = Inr r"
proof -
  obtain evs where "MakeRequest nw d2i platform (get_request kRestHost target) kRestHost kHttpsPort =
      (evs, Inr r)"
    using assms(2) by (auto simp: Coinbase_Get_def prod_eq_iff)
  then show ?thesis using MakeRequest_answered verifiesD [OF assms(1)] by blast
qed

end
