(* ===== verification/MainProgram.thy ===== *)
theory MainProgram
  imports Prelude
begin

text \<open>
  main.cc: what the process builds and in which order it goes away. Whether a part can be
  built is an argument; what the parts do while they live is in their own theories. The
  signal handler sets the flag that \<open>main\<close> looks at every 100 ms.
\<close>

section \<open>The code\<close>

datatype part = TheManagers | TheOutbox | TheRouter | TheServer

datatype main_event =
    TimingsStarted
  | Built part
  | Listening
  | Slept
  | Destroyed part
  | TimingsStopped
  | Fatal string

text \<open>A local variable: built, alive in what follows in its scope, destroyed however that ends.\<close>

definition scoped :: "part \<Rightarrow> unit result \<Rightarrow> main_event list \<times> unit result \<Rightarrow> main_event list \<times> unit result" where
  "scoped p built rest =
     (case built of
        Inl e \<Rightarrow> ([], Inl e)
      | Inr _ \<Rightarrow> (Built p # fst rest @ [Destroyed p], snd rest))"

text \<open>\<open>looks\<close> is how often the flag was seen unset before Ctrl+C.\<close>

definition serve :: "unit result \<Rightarrow> nat \<Rightarrow> main_event list \<times> unit result" where
  "serve printed looks =
     (case printed of
        Inl e \<Rightarrow> ([], Inl e)
      | Inr _ \<Rightarrow> (Listening # replicate looks Slept, Inr ()))"

definition main :: "unit result \<Rightarrow> (part \<Rightarrow> unit result) \<Rightarrow> unit result \<Rightarrow> nat \<Rightarrow> main_event list \<times> int" where
  "main started build printed looks =
     (case started of
        Inl e \<Rightarrow> ([Fatal (what e)], 1)
      | Inr _ \<Rightarrow>
          (case scoped TheManagers (build TheManagers)
                  (scoped TheOutbox (build TheOutbox)
                    (scoped TheRouter (build TheRouter)
                      (scoped TheServer (build TheServer) (serve printed looks)))) of
             (evs, Inl e) \<Rightarrow> (TimingsStarted # evs @ [Fatal (what e)], 1)
           | (evs, Inr _) \<Rightarrow> (TimingsStarted # evs @ [TimingsStopped], 0)))"

section \<open>What is built goes away in reverse\<close>

fun of_a_part :: "main_event \<Rightarrow> bool" where
  "of_a_part (Built p) = True"
| "of_a_part (Destroyed p) = True"
| "of_a_part _ = False"

lemma all_parts: "(\<forall>p. P p) \<longleftrightarrow> P TheManagers \<and> P TheOutbox \<and> P TheRouter \<and> P TheServer"
  by (metis part.exhaust)

definition all_built :: "unit result \<Rightarrow> (part \<Rightarrow> unit result) \<Rightarrow> part list" where
  "all_built started build =
     (if started = Inr () then takeWhile (\<lambda>p. build p = Inr ()) [TheManagers, TheOutbox, TheRouter, TheServer] else [])"

text \<open>
  However far the start came, what was built is destroyed, last built first: the server
  before the router it calls, the router with its managers before the outbox its
  subscriptions register with. Only a clean end stops the timings, after all of it.
\<close>

lemma main_tears_down:
  assumes "main started build printed looks = (evs, code)"
  shows "filter of_a_part evs = map Built (all_built started build) @ map Destroyed (rev (all_built started build))"
    and "code = 0 \<longleftrightarrow> started = Inr () \<and> (\<forall>p. build p = Inr ()) \<and> printed = Inr ()"
    and "code = 0 \<Longrightarrow> last evs = TimingsStopped"
    and "code \<noteq> 0 \<Longrightarrow> code = 1 \<and> TimingsStopped \<notin> set evs \<and> (\<exists>e. last evs = Fatal e)"
proof -
  have "filter of_a_part evs = map Built (all_built started build) @ map Destroyed (rev (all_built started build)) \<and>
      (code = 0 \<longleftrightarrow> started = Inr () \<and> (\<forall>p. build p = Inr ()) \<and> printed = Inr ()) \<and>
      (code = 0 \<longrightarrow> last evs = TimingsStopped) \<and>
      (code \<noteq> 0 \<longrightarrow> code = 1 \<and> TimingsStopped \<notin> set evs \<and> (\<exists>e. last evs = Fatal e))"
    using assms unfolding all_parts
    by (cases started; cases "build TheManagers"; cases "build TheOutbox"; cases "build TheRouter";
        cases "build TheServer"; cases printed)
      (auto simp: main_def scoped_def serve_def all_built_def)
  then show "filter of_a_part evs = map Built (all_built started build) @ map Destroyed (rev (all_built started build))"
    "code = 0 \<longleftrightarrow> started = Inr () \<and> (\<forall>p. build p = Inr ()) \<and> printed = Inr ()"
    "code = 0 \<Longrightarrow> last evs = TimingsStopped"
    "code \<noteq> 0 \<Longrightarrow> code = 1 \<and> TimingsStopped \<notin> set evs \<and> (\<exists>e. last evs = Fatal e)" by auto
qed

end
