(* ===== verification/Spec2Isabelle.thy ===== *)
theory Spec2Isabelle
  imports UnixTime Json L2Book L2FileWriterRuns Crc32 Base64 KrakenChecksum KrakenL2Decoder
    KrakenMessageSize KrakenRest KrakenAdapter KrakenToken CoinbaseL2Decoder CoinbaseProducts
    VenueL2Parser VenueL2ManagerProperties VenueRouterRuns VenueRouterCommands FrontendServerRuns
    FrontendWatching FrontendServerLife TimingAggregatorRuns VenueFeed VenueLiveFeed VenueTyping
    VenueRecordings NetHttps CoreEnvironment MainProgram
begin

text \<open>
  A model of data_feed, the program that keeps order books of crypto venues: it connects to
  Kraken and Coinbase, decodes their level 2 channels, records pairs to files and streams
  them to websocket clients. All paths below are under src/data_feed.

  \<^bold>\<open>How the parts work together.\<close> main.cc builds one \<^verbatim>\<open>venue::L2Manager\<close> per venue and a
  \<^verbatim>\<open>venue::Router\<close> over them, and serves a \<^verbatim>\<open>frontend::Server\<close>. A client's command goes from its
  session to the Router, which hands out the subscription's id and passes it to the venue's
  manager; the manager asks the venue's REST interface for the pair's precision, attaches a
  receiver to its parser and sends the request on its websocket. The feed's network thread
  pushes the frames it reads into a queue; the parser's thread takes them out, has the
  venue's decoder turn them into messages, holds a pair back until its snapshot, compares
  checksums, and calls the pair's receiver: a writer with a thread and a file of its own, or
  a transmitter that passes on to a stream and so to the sessions that watch it. A connection
  that fails is noticed by the Router's supervisor, which reconnects with a backoff; a
  checksum that does not match makes the manager's resubscriber ask for the pair again; and
  either tells the receivers that there is a gap.

  \<^bold>\<open>How the code is modelled.\<close> Classes are records with their members as fields, methods are
  functions from the state to the state and the result, exceptions are the left side of
  \<open>'a result\<close> and \<^verbatim>\<open>std::expected\<close> is \<open>'a expected\<close>. Unsigned integers are words of their
  width; a signed one is an integer with its range beside it where it can overflow, which is
  undefined behaviour in C++ and \<open>None\<close> here. Ordered maps are association lists kept in
  order. A method that runs under one lock is one step; a thread is a step function cut where
  another thread can see what it did; a run is an inductive predicate over the steps of all
  threads in any order, with everything the outside decides (clocks, answers, which socket
  operation completes and how) as an argument of the step.

  \<^bold>\<open>Shared theories.\<close>
  Prelude has the integers, exceptions and undefined behaviour, decimal text and the searches
  of \<^verbatim>\<open>std::string_view\<close>, with the collections \<open>eval_digits\<close> and \<open>map_ops\<close>; OrderedMap has the
  maps, whose lemmas are those of the locale \<open>key_order\<close>, interpreted on each comparator the
  code uses. Spsc has core/spsc.h: \<^verbatim>\<open>PushBlocking\<close> and \<^verbatim>\<open>Drain\<close> around a bounded queue, that what
  goes in comes out in order, and that a stopped \<^verbatim>\<open>Drain\<close> returns after at most three steps per
  value left and three more.

  \<^bold>\<open>Text and bytes.\<close>
  Decimal (core/decimal.cc), UnixTime (core/unix_time.cc), Json (core/json.cc, with the least width
  of the text a value is read from), Crc32, Base64 (crypto/), each function on every branch with
  its errors and overflows. Crc32 proves the table driven routine equal to the standard's
  definition, a remainder of polynomials over GF(2) by the unreflected polynomial; Base64 has
  RFC 4648's encoding beside the calls of OpenSSL. JsonText is a reader of JSON text written
  from the grammar, which reads back what the program sends.

  \<^bold>\<open>Books, messages, recordings.\<close>
  L2Message (l2/message.cc: the size in wrapping arithmetic, the serialized layout and its
  reader), L2Book (l2/book.cc: that a book follows the venue's own although the venue never
  says which levels fell out of it), L2FileHeader (l2/file_header.cc) and L2FileWriter with
  L2FileWriterRuns (l2/file_writer.cc: a directory is a map from names to contents, every open,
  write and rename may fail; the writer's thread and the parser's in any interleaving). A
  recording is shown to be exactly an unbroken stretch of what the writer was given, and no
  closed recording, of this writer or an earlier one, to change whatever fails. The open file
  is known by its name; that it stands under that name whenever it is written to is part of
  what is proved. The header's text fields keep the first 16 characters of a name.

  \<^bold>\<open>Venues.\<close>
  VenueL2Decoder and VenueAdapter have the two interfaces of a venue, as types of their
  operations and as the locales \<open>l2_decoder\<close> (a decoder touches its output through \<^verbatim>\<open>Emit\<close> alone),
  \<open>typed_decoder\<close> (what it emits holds i64s and is no longer than its frame) and \<open>venue_adapter\<close> (requests can be told apart and name one book). KrakenL2Decoder,
  KrakenChecksum, KrakenMessageSize, KrakenRest, KrakenToken, KrakenAdapter model kraken/, and
  CoinbaseL2Decoder, CoinbaseProducts coinbase/, and interpret the locales. That frames
  rendered with any levels decode to those levels scaled exactly, that a frame emits one
  message or none, that the checksum is the one Kraken documents, that no frame of Coinbase
  is lost unseen, that a request is read back as the JSON object Kraken documents and a
  client's symbol adds nothing to it, and that the token request has the documented signature
  are shown here.

  \<^bold>\<open>The manager.\<close>
  VenueManager (venue/manager.h), VenueL2Parser (venue/l2_parser.cc, whose calls to the outside
  are kept as a history), VenueL2Manager (venue/l2_manager.cc) with VenueL2ManagerRuns (the
  invariant, and the locale \<open>venue_manager\<close> that both venues interpret) and
  VenueL2ManagerProperties. They show that the requests sent leave the venue streaming exactly
  the subscription table, that receivers get checked messages only, every outcome of a
  subscribe whatever happens between its two locks, and that a pair whose checksum failed is
  resubscribed, at most once a second by the requests found on the connection.
  NetWebsocketFeed with NetWebsocketFeedRuns models net/websocket_feed.cc, its write queue, its
  network thread and their ends, and VenueFeed shows that it is what the manager's model
  takes it for.

  \<^bold>\<open>The Router.\<close>
  VenueRouter (venue/router.cc) has the interface \<^verbatim>\<open>venue::Manager\<close> as the locale \<open>manager\<close>, which
  both venues meet; VenueRouterRuns and VenueRouterCommands use nothing else of them.
  Commands of several threads are cut at the counter of the ids and at the venue's two locks:
  their answers agree on one table, and an id is given once.

  \<^bold>\<open>The frontend.\<close>
  FrontendWire (frontend/wire.cc and the messages of market_data.proto), FrontendStream
  (frontend/stream.cc: a client that applies what it is sent has the book), FrontendSession
  (the session in frontend/server.cc: its queue of frames, its commands and their bounds),
  FrontendServer with FrontendServerRuns (frontend/outbox.cc, frontend/transmitter.cc and the
  commands), FrontendWatching (watching split where the Outbox lets go of its lock, with the
  streams shared in a heap) and FrontendServerLife (accepting, and the destructor).

  \<^bold>\<open>From the frames to the end.\<close>
  VenueLiveFeed puts the manager, a receiver and its stream together: what a client has is the
  book of a stretch from a snapshot on, for Kraken the one whose checksum it sent. VenueTyping
  shows that the books a manager keeps and the messages it hands on stay within their C++ types,
  so that sizes do not wrap around. VenueRecordings does for a recording what VenueLiveFeed does for a client, with the
  writer's queue, thread and files in between.

  \<^bold>\<open>Timings.\<close>
  TimingAggregator with TimingAggregatorRuns (timing/aggregator.cc): the recording threads, the
  writer, and whoever starts and stops it, in any interleaving; no sample is lost but those
  counted as dropped.

  \<^bold>\<open>The edges.\<close>
  NetHttps (net/tls_context.cc, net/https_client.cc, the handshakes of a websocket, the requests
  of the REST lookups): data goes only to peers the machine trusts. CoreEnvironment
  (core/environment.cc, core/debug_log.h) and MainProgram (main.cc: what is built is destroyed in
  reverse, however far the start came).

  \<^bold>\<open>Bounds.\<close>
  A theorem over a run needs what a counter of the code can hold: fewer than \<open>2 ^ 64 - 1\<close> calls
  of \<^verbatim>\<open>Router::Subscribe\<close> (\<open>2 ^ 64 - 2\<close> where the counter after the last call is named), fewer
  than \<open>2 ^ 64\<close> messages in a recording and frames of a session. Counted steps stand for the code's
  progress, not for fuel, and each is enough: three steps of a drained queue per value left
  and three more (look at the stop token, look at the queue, consume); ten rounds of the
  network thread and the parser after a stop (a pass that reads, two that push, those that
  close); four steps of the timing writer per producer and six more. All recursion of the code
  is total here: the only loop with no bound of its own, the search of a free file name in
  \<open>FinalPath_loop\<close>, ends because a directory is finite.

  \<^bold>\<open>Not modelled.\<close>
  What the operating system, Boost and OpenSSL do in a call is an argument, with the one law that
  a handshake that verifies its peer needs a trusted root. rapidjson is the parameter \<open>parse\<close>,
  which may be any function, but that the theorems on types ask that a value takes no more
  characters than the text it is read from (\<open>json_within\<close>); protobuf's encodings are parameters with the law that its integers read back, and OpenSSL's
  Base64 routines with the law that they compute RFC 4648's encoding and decode it with the
  padding as zero bytes (its digests have none). Boost's lock free queue
  is a bounded list, and every step is sequentially consistent: memory orders are not
  modelled. A date \<^verbatim>\<open>std::chrono\<close> leaves unspecified is the parameter \<open>unspec\<close>. A sample of
  \<open>Recorded\<close> is the difference of two times as an integer. The code does not
  look at failing writes of the raw log and of the stats file, and neither does the model.
  Each command of a session is one step of FrontendServer, so of two sessions' commands at
  once it covers the orders of whole commands; the finer interleavings are those of
  VenueRouterCommands at the Router and of FrontendWatching at the Outbox.
  What building a receiver does is the sink's business; in the manager it succeeds or throws.
\<close>

end
